(* ===== verification/CT_Prelude.thy ===== *)
theory CT_Prelude
  imports Main "HOL-Library.Word"
begin

text \<open>
  Shared vocabulary of the development: machine integers, byte buffers as C code reads and
  writes them (\<open>memcpy\<close>, casts of a buffer to a struct), the ways a process can end, a
  contract for first-in first-out queues with the lemma every client of a queue uses, and
  the counting lemmas for tables of threads that the interleaving models rest on.
\<close>

unbundle bit_operations_syntax

section \<open>Machine types\<close>

type_synonym byte = "8 word"
type_synonym u16 = "16 word"
type_synonym u32 = "32 word"
type_synonym u64 = "64 word"

text \<open>A C \<open>int\<close> is a 32 bit word read with \<open>sint\<close>.\<close>

type_synonym c_int = "32 word"

named_theorems buffer_simps \<open>reads and writes of byte buffers\<close>
named_theorems outcome_simps \<open>propagation of process failures\<close>

section \<open>How a process ends\<close>

text \<open>
  \<open>Exit n\<close> is a call of \<open>exit(n)\<close>, \<open>Abort\<close> a failed \<open>assert\<close>, \<open>Undefined\<close> an
  operation the C++ standard leaves undefined (a null pointer read, a division by zero, an
  access outside an array, a read of an uninitialised variable), \<open>Throw\<close> an exception that leaves the function.
\<close>

datatype fault = Exit int | Abort | Undefined | Throw

type_synonym 'a outcome = "fault + 'a"

definition andthen :: "'a outcome \<Rightarrow> ('a \<Rightarrow> 'b outcome) \<Rightarrow> 'b outcome" where
  "andthen r f = (case r of Inl e \<Rightarrow> Inl e | Inr x \<Rightarrow> f x)"

lemma andthen_simps [simp, outcome_simps]:
  "andthen (Inl e) f = Inl e"
  "andthen (Inr x) f = f x"
  by (simp_all add: andthen_def)

lemma andthen_eq_Inr_iff:
  "andthen r f = Inr y \<longleftrightarrow> (\<exists>x. r = Inr x \<and> f x = Inr y)"
  by (cases r) simp_all

section \<open>Byte buffers\<close>

definition slice :: "nat \<Rightarrow> nat \<Rightarrow> 'a list \<Rightarrow> 'a list" where
  "slice off n buf = take n (drop off buf)"

definition blit :: "nat \<Rightarrow> 'a list \<Rightarrow> 'a list \<Rightarrow> 'a list" where
  "blit off xs buf = take off buf @ xs @ drop (off + length xs) buf"

lemma length_slice [simp]: "length (slice off n buf) = min n (length buf - off)"
  by (simp add: slice_def min.commute)

lemma length_blit [buffer_simps]:
  "off + length xs \<le> length buf \<Longrightarrow> length (blit off xs buf) = length buf"
  by (simp add: blit_def)

lemma slice_blit_same [buffer_simps]:
  "off + length xs \<le> length buf \<Longrightarrow> n = length xs \<Longrightarrow> slice off n (blit off xs buf) = xs"
  by (simp add: slice_def blit_def)

lemma slice_blit_before [buffer_simps]:
  "off' + n \<le> off \<Longrightarrow> off \<le> length buf \<Longrightarrow> slice off' n (blit off xs buf) = slice off' n buf"
  by (auto simp: slice_def blit_def drop_take min_def)

lemma slice_blit_after [buffer_simps]:
  "off + length xs \<le> off' \<Longrightarrow> off + length xs \<le> length buf \<Longrightarrow>
     slice off' n (blit off xs buf) = slice off' n buf"
  by (simp add: slice_def blit_def)

lemma blit_slice_id: "off + n \<le> length buf \<Longrightarrow> blit off (slice off n buf) buf = buf"
proof -
  assume h: "off + n \<le> length buf"
  have "take n (drop off buf) @ drop (off + n) buf = drop off buf"
    by (metis add.commute append_take_drop_id drop_drop)
  with h show ?thesis by (simp add: blit_def slice_def min_def)
qed

section \<open>Host representation of 32 bit integers\<close>

definition le32 :: "32 word \<Rightarrow> byte list" where
  "le32 w = [ucast w, ucast (drop_bit 8 w), ucast (drop_bit 16 w), ucast (drop_bit 24 w)]"

fun un_le32 :: "byte list \<Rightarrow> 32 word" where
  "un_le32 [a, b, c, d] =
     ucast a OR push_bit 8 (ucast b) OR push_bit 16 (ucast c) OR push_bit 24 (ucast d)"
| "un_le32 _ = 0"

lemma length_le32 [simp]: "length (le32 w) = 4"
  by (simp add: le32_def)

lemma un_le32_le32 [simp]: "un_le32 (le32 w) = w"
proof (rule bit_word_eqI)
  fix n
  assume "n < LENGTH(32)"
  then consider "n < 8" | "8 \<le> n" "n < 16" | "16 \<le> n" "n < 24" | "24 \<le> n" "n < 32"
    by fastforce
  then show "bit (un_le32 (le32 w)) n = bit w n"
    by cases (auto simp: le32_def bit_simps)
qed

lemma le32_un_le32: "length bs = 4 \<Longrightarrow> le32 (un_le32 bs) = bs"
proof -
  assume "length bs = 4"
  then obtain a b c d where bs: "bs = [a, b, c, d]"
    by (auto simp: eval_nat_numeral length_Suc_conv)
  have "ucast (un_le32 bs) = a"
    unfolding bs by (rule bit_word_eqI) (auto simp: bit_simps)
  moreover have "ucast (drop_bit 8 (un_le32 bs)) = b"
    unfolding bs by (rule bit_word_eqI) (auto simp: bit_simps dest: bit_imp_le_length)
  moreover have "ucast (drop_bit 16 (un_le32 bs)) = c"
    unfolding bs by (rule bit_word_eqI) (auto simp: bit_simps dest: bit_imp_le_length)
  moreover have "ucast (drop_bit 24 (un_le32 bs)) = d"
    unfolding bs by (rule bit_word_eqI) (auto simp: bit_simps dest: bit_imp_le_length)
  ultimately show ?thesis by (simp add: le32_def bs)
qed

lemma le32_inject [simp]: "le32 v = le32 w \<longleftrightarrow> v = w"
  by (metis un_le32_le32)

text \<open>An \<open>int\<close> field of a struct laid over a buffer, at a byte offset.\<close>

definition load32 :: "nat \<Rightarrow> byte list \<Rightarrow> 32 word" where
  "load32 off buf = un_le32 (slice off 4 buf)"

definition store32 :: "nat \<Rightarrow> 32 word \<Rightarrow> byte list \<Rightarrow> byte list" where
  "store32 off w buf = blit off (le32 w) buf"

lemma length_store32 [buffer_simps]:
  "off + 4 \<le> length buf \<Longrightarrow> length (store32 off w buf) = length buf"
  by (simp add: store32_def length_blit)

lemma load32_store32_same [buffer_simps]:
  "off + 4 \<le> length buf \<Longrightarrow> load32 off (store32 off w buf) = w"
  by (simp add: load32_def store32_def slice_blit_same)

lemma slice_store32_disjoint [buffer_simps]:
  "off + 4 \<le> length buf \<Longrightarrow> off' + n \<le> off \<or> off + 4 \<le> off' \<Longrightarrow>
     slice off' n (store32 off w buf) = slice off' n buf"
  by (auto simp: store32_def slice_blit_before slice_blit_after)

lemma load32_store32_disjoint [buffer_simps]:
  "off + 4 \<le> length buf \<Longrightarrow> off' + 4 \<le> off \<or> off + 4 \<le> off' \<Longrightarrow>
     load32 off' (store32 off w buf) = load32 off' buf"
  by (simp add: load32_def slice_store32_disjoint)

section \<open>First-in first-out queues\<close>

text \<open>
  The contract of a queue shared by a producer and a consumer, over the state \<open>'s\<close> that
  holds it: \<open>put\<close> appends, \<open>get\<close> removes the oldest element or reports that there is none.
\<close>

datatype 'a queue_op = Put 'a | Get

fun queue_run :: "('a \<Rightarrow> 's \<Rightarrow> 's) \<Rightarrow> ('s \<Rightarrow> 'a option \<times> 's) \<Rightarrow> 'a queue_op list \<Rightarrow> 's \<Rightarrow> 'a list \<times> 's" where
  "queue_run put get [] s = ([], s)"
| "queue_run put get (Put x # os) s = queue_run put get os (put x s)"
| "queue_run put get (Get # os) s =
     (case get s of (r, s') \<Rightarrow>
        (case queue_run put get os s' of (out, s'') \<Rightarrow>
           (case r of None \<Rightarrow> (out, s'') | Some x \<Rightarrow> (x # out, s''))))"

fun queue_puts :: "'a queue_op list \<Rightarrow> 'a list" where
  "queue_puts [] = []"
| "queue_puts (Put x # os) = x # queue_puts os"
| "queue_puts (Get # os) = queue_puts os"

locale fifo =
  fixes put :: "'a \<Rightarrow> 's \<Rightarrow> 's"
    and get :: "'s \<Rightarrow> 'a option \<times> 's"
    and contents :: "'s \<Rightarrow> 'a list"
  assumes contents_put: "contents (put x s) = contents s @ [x]"
    and get_empty: "contents s = [] \<Longrightarrow> get s = (None, s)"
    and get_nonempty: "contents s = x # xs \<Longrightarrow> \<exists>s'. get s = (Some x, s') \<and> contents s' = xs"
begin

lemma get_Some_iff: "fst (get s) = Some x \<longleftrightarrow> (\<exists>xs. contents s = x # xs)"
  by (cases "contents s") (auto dest: get_empty get_nonempty)

lemma get_None_iff: "fst (get s) = None \<longleftrightarrow> contents s = []"
  by (cases "contents s") (auto dest: get_empty get_nonempty)

lemma run_order:
  "queue_run put get os s = (out, s') \<Longrightarrow> contents s @ queue_puts os = out @ contents s'"
proof (induction os arbitrary: s out)
  case Nil
  then show ?case by simp
next
  case (Cons a os)
  show ?case
  proof (cases a)
    case (Put x)
    with Cons.prems have "queue_run put get os (put x s) = (out, s')" by simp
    from Cons.IH [OF this] show ?thesis by (simp add: Put contents_put)
  next
    case Get
    show ?thesis
    proof (cases "contents s")
      case Nil
      with Cons.prems Get have "queue_run put get os s = (out, s')"
        by (simp add: get_empty split: prod.splits)
      from Cons.IH [OF this] show ?thesis by (simp add: Get)
    next
      case (Cons x xs)
      then obtain t where t: "get s = (Some x, t)" "contents t = xs"
        using get_nonempty by blast
      with Cons.prems Get obtain out' where o: "out = x # out'" "queue_run put get os t = (out', s')"
        by (auto split: prod.splits)
      from Cons.IH [OF o(2)] show ?thesis by (simp add: Get Cons t o)
    qed
  qed
qed

end

section \<open>Counting over a table of threads\<close>

lemma sum_list_map_update:
  fixes f :: "'a \<Rightarrow> nat"
  assumes "i < length xs"
  shows "sum_list (map f (xs[i := y])) + f (xs ! i) = sum_list (map f xs) + f y"
  using assms
proof (induction xs arbitrary: i)
  case Nil
  then show ?case by simp
next
  case (Cons x xs)
  then show ?case by (cases i) auto
qed

lemma sum_list_map_ge_nth:
  fixes f :: "'a \<Rightarrow> nat"
  shows "i < length xs \<Longrightarrow> f (xs ! i) \<le> sum_list (map f xs)"
  by (simp add: member_le_sum_list)

lemma sum_list_map_pos_iff:
  fixes f :: "'a \<Rightarrow> nat"
  shows "0 < sum_list (map f xs) \<longleftrightarrow> (\<exists>i < length xs. 0 < f (xs ! i))"
proof -
  have "0 < sum_list (map f xs) \<longleftrightarrow> (\<exists>x \<in> set xs. 0 < f x)"
    by (induction xs) auto
  then show ?thesis by (metis in_set_conv_nth)
qed

text \<open>The same for a table that is a function on thread numbers below a bound.\<close>

lemma sum_table_update:
  fixes f :: "nat \<Rightarrow> 'a \<Rightarrow> 'b::comm_monoid_add"
  assumes "i < n"
  shows "(\<Sum>j<n. f j ((g(i := x)) j)) + f i (g i) = (\<Sum>j<n. f j (g j)) + f i x"
proof -
  have "(\<Sum>j<n. f j ((g(i := x)) j)) = f i x + (\<Sum>j\<in>{..<n} - {i}. f j ((g(i := x)) j))"
    using assms by (subst sum.remove [of _ i]) auto
  also have "(\<Sum>j\<in>{..<n} - {i}. f j ((g(i := x)) j)) = (\<Sum>j\<in>{..<n} - {i}. f j (g j))"
    by (rule sum.cong) auto
  finally have "(\<Sum>j<n. f j ((g(i := x)) j)) = f i x + (\<Sum>j\<in>{..<n} - {i}. f j (g j))" .
  moreover have "(\<Sum>j<n. f j (g j)) = f i (g i) + (\<Sum>j\<in>{..<n} - {i}. f j (g j))"
    using assms by (subst sum.remove [of _ i]) auto
  ultimately show ?thesis by (simp add: ac_simps)
qed

lemma sum_table_same:
  fixes f :: "nat \<Rightarrow> 'a \<Rightarrow> 'b::comm_monoid_add"
  assumes "f i x = f i (g i)"
  shows "(\<Sum>j<n. f j ((g(i := x)) j)) = (\<Sum>j<n. f j (g j))"
  using assms by (auto intro!: sum.cong)

end
