(* ===== verification/Mpi_Packet.thy ===== *)
theory Mpi_Packet
  imports CT_Prelude Complex_Main
begin

text \<open>
  The wire format of the MPI scheduler (\<open>src/mpi/scheduler.hpp\<close> and the packet helpers of
  \<open>src/mpi/scheduler.cpp\<close>): the struct sizes, the fixed size packet with a \<open>msg\<close> struct laid
  over it, the checksum in its last word, and the functions that build the packets the server
  and the clients exchange. The checksum function comes from Boost and is the argument
  \<open>crc\<close> of every definition that uses it. Theorems: the checksum written by \<open>encappkt\<close> is
  accepted by \<open>msg_checkcrc\<close> and leaves the message alone, and the fields of each packet built.
\<close>

section \<open>Sizes of C types\<close>

datatype ctype = CInt | CDouble | CChar | CArray nat ctype | CStruct "ctype list"

definition align_up :: "nat \<Rightarrow> nat \<Rightarrow> nat" where
  "align_up a n = (if a = 0 then n else ((n + a - 1) div a) * a)"

fun alignof :: "ctype \<Rightarrow> nat" where
  "alignof CInt = 4"
| "alignof CDouble = 8"
| "alignof CChar = 1"
| "alignof (CArray n t) = alignof t"
| "alignof (CStruct ts) = foldr max (map alignof ts) 1"

fun sizeof :: "ctype \<Rightarrow> nat" where
  "sizeof CInt = 4"
| "sizeof CDouble = 8"
| "sizeof CChar = 1"
| "sizeof (CArray n t) = n * sizeof t"
| "sizeof (CStruct ts) =
     align_up (alignof (CStruct ts))
       (foldl (\<lambda>off (al, sz). align_up al off + sz) 0 (map (\<lambda>t. (alignof t, sizeof t)) ts))"

definition MSGSIZE :: nat where [simp]: "MSGSIZE = 8192"
definition MAX_PATCH :: nat where [simp]: "MAX_PATCH = 256"
definition MAX_SAMPLE :: nat where [simp]: "MAX_SAMPLE = 500"
definition CRCMSGSIZE :: nat where [simp]: "CRCMSGSIZE = MSGSIZE - 8"
definition CRCPOS :: nat where [simp]: "CRCPOS = MSGSIZE - 4"
definition MSGMETASIZE :: nat where [simp]: "MSGMETASIZE = 48"
definition CRC_OK :: int where "CRC_OK = 1"
definition CRC_ERR :: int where "CRC_ERR = -1"
definition MSGSTATUS_UNDONE :: c_int where "MSGSTATUS_UNDONE = 0x50"
definition MSGSTATUS_DONE :: c_int where "MSGSTATUS_DONE = 0x60"

definition varbeta_ctype :: ctype where "varbeta_ctype = CStruct [CInt, CDouble]"
definition varlist_ctype :: ctype where
  "varlist_ctype = CStruct [CInt, CArray MAX_PATCH CInt, CArray MAX_SAMPLE CDouble]"
definition betalist_ctype :: ctype where
  "betalist_ctype = CStruct [CInt, CArray MAX_PATCH varbeta_ctype]"
definition heartbeat_ctype :: ctype where "heartbeat_ctype = CStruct [CInt]"
definition msg_ctype :: ctype where
  "msg_ctype = CStruct [CInt, CInt, CInt, CInt, CInt, CArray (MSGSIZE - MSGMETASIZE) CChar]"

lemmas ctype_defs = varbeta_ctype_def varlist_ctype_def betalist_ctype_def heartbeat_ctype_def msg_ctype_def

lemma struct_sizes:
  "sizeof msg_ctype = 8164" "sizeof varlist_ctype = 5032" "sizeof betalist_ctype = 4104" "sizeof heartbeat_ctype = 4"
  by (simp_all add: ctype_defs align_up_def)

section \<open>Contexts\<close>

type_synonym double = real

record experiments =
  maxiter :: int
  timelimit :: int

record problem =
  X :: "double list list"
  Y :: "double option list"
  features :: int
  samples :: int
  xfile :: "string option"
  yfile :: "string option"
  cmX :: "double list list"

record context_t =
  machines :: int
  thrdpm :: int
  thrds :: int
  lamda :: double
  mpi_size :: int
  schedrank :: int
  expt :: experiments

record schedctx =
  rank :: int
  inmsg :: c_int
  outmsg :: c_int
  mctx :: context_t

section \<open>Configuration check\<close>

definition check_confgsanity :: "problem \<Rightarrow> unit outcome" where
  "check_confgsanity pbcfg =
     (let maxpayloadsize = MSGSIZE - MSGMETASIZE in
      if sizeof msg_ctype > MSGSIZE then Inl (Exit 0)
      else if sizeof betalist_ctype > maxpayloadsize then Inl (Exit 0)
      else if sizeof varlist_ctype > maxpayloadsize then Inl (Exit 0)
      else if sizeof heartbeat_ctype > maxpayloadsize then Inl (Exit 0)
      else if samples pbcfg > int MAX_SAMPLE then Inl (Exit 0)
      else Inr ())"

text \<open>The size checks can never fire with the constants of the header: only the sample count decides.\<close>

lemma check_confgsanity_iff: "check_confgsanity pb = Inr () \<longleftrightarrow> samples pb \<le> 500"
  by (simp add: check_confgsanity_def struct_sizes)

section \<open>Packets and the message laid over them\<close>

type_synonym packet = "byte list"

record msg =
  src :: c_int
  dst :: c_int
  seq :: c_int
  msg_type :: c_int
  status :: c_int
  payload :: "byte list"

text \<open>The cast \<open>(msg *)pkt->bin\<close>: the fields sit at offsets 0, 4, 8, 12, 16 and 20.\<close>

definition msg_view :: "packet \<Rightarrow> msg" where
  "msg_view pkt = \<lparr>src = load32 0 pkt, dst = load32 4 pkt, seq = load32 8 pkt,
     msg_type = load32 12 pkt, status = load32 16 pkt,
     payload = slice 20 (MSGSIZE - MSGMETASIZE) pkt\<rparr>"

definition set_src :: "c_int \<Rightarrow> packet \<Rightarrow> packet" where "set_src = store32 0"
definition set_dst :: "c_int \<Rightarrow> packet \<Rightarrow> packet" where "set_dst = store32 4"
definition set_seq :: "c_int \<Rightarrow> packet \<Rightarrow> packet" where "set_seq = store32 8"
definition set_status :: "c_int \<Rightarrow> packet \<Rightarrow> packet" where "set_status = store32 16"

text \<open>\<open>ht = (heartbeat *)sdmsg->payload; ht->machinerank = v\<close>.\<close>

definition set_machinerank :: "c_int \<Rightarrow> packet \<Rightarrow> packet" where "set_machinerank = store32 20"

definition machinerank :: "packet \<Rightarrow> c_int" where "machinerank pkt = load32 20 pkt"

lemmas field_defs = set_src_def set_dst_def set_seq_def set_status_def set_machinerank_def

definition calloc_packet :: packet where "calloc_packet = replicate MSGSIZE 0"

definition packet_ok :: "packet \<Rightarrow> bool" where "packet_ok pkt \<longleftrightarrow> length pkt = MSGSIZE"

lemma packet_ok_calloc [simp]: "packet_ok calloc_packet"
  by (simp add: packet_ok_def calloc_packet_def)

lemma packet_ok_set [simp]:
  assumes "packet_ok p"
  shows "packet_ok (set_src v p)" "packet_ok (set_dst v p)" "packet_ok (set_seq v p)"
    "packet_ok (set_status v p)" "packet_ok (set_machinerank v p)"
  using assms by (simp_all add: packet_ok_def field_defs length_store32)

definition generate_crc32 :: "(byte list \<Rightarrow> u32) \<Rightarrow> byte list \<Rightarrow> nat \<Rightarrow> u32" where
  "generate_crc32 crc buf len = crc (take len buf)"

definition msg_checkcrc :: "(byte list \<Rightarrow> u32) \<Rightarrow> packet \<Rightarrow> int" where
  "msg_checkcrc crc pkt =
     (let expected = load32 CRCPOS pkt;
          generated = generate_crc32 crc pkt CRCMSGSIZE
      in if expected = generated then CRC_OK else CRC_ERR)"

definition encappkt :: "(byte list \<Rightarrow> u32) \<Rightarrow> packet \<Rightarrow> byte list \<Rightarrow> packet" where
  "encappkt crc sdpkt sdmsg =
     (let crc32bit = generate_crc32 crc sdmsg CRCMSGSIZE in store32 CRCPOS crc32bit sdpkt)"

lemma packet_ok_encappkt [simp]: "packet_ok p \<Longrightarrow> packet_ok (encappkt crc p m)"
  by (simp add: packet_ok_def encappkt_def length_store32)

lemma take_store32:
  "n \<le> off \<Longrightarrow> off + 4 \<le> length p \<Longrightarrow> take n (store32 off w p) = take n p"
  by (simp add: store32_def blit_def)

lemma encappkt_crc_ok [simp]:
  "packet_ok p \<Longrightarrow> msg_checkcrc crc (encappkt crc p p) = CRC_OK"
  by (simp add: packet_ok_def msg_checkcrc_def encappkt_def generate_crc32_def
      load32_store32_same take_store32)

lemma encappkt_msg_view [simp]: "packet_ok p \<Longrightarrow> msg_view (encappkt crc p m) = msg_view p"
  by (simp add: packet_ok_def msg_view_def encappkt_def load32_store32_disjoint slice_store32_disjoint)

lemma encappkt_machinerank [simp]: "packet_ok p \<Longrightarrow> machinerank (encappkt crc p m) = machinerank p"
  by (simp add: packet_ok_def machinerank_def encappkt_def load32_store32_disjoint)

lemma CRC_codes [simp]: "CRC_ERR \<noteq> CRC_OK" "CRC_OK \<noteq> CRC_ERR"
  by (simp_all add: CRC_OK_def CRC_ERR_def)

lemma msg_checkcrc_cases: "msg_checkcrc crc p = CRC_OK \<or> msg_checkcrc crc p = CRC_ERR"
  by (simp add: msg_checkcrc_def Let_def)

text \<open>What a field write does to the fields of the view.\<close>

lemma set_field_view [simp]:
  assumes "packet_ok p"
  shows "src (msg_view (set_src v p)) = v" "dst (msg_view (set_src v p)) = dst (msg_view p)"
    "seq (msg_view (set_src v p)) = seq (msg_view p)"
    "status (msg_view (set_src v p)) = status (msg_view p)"
    "src (msg_view (set_dst v p)) = src (msg_view p)" "dst (msg_view (set_dst v p)) = v"
    "seq (msg_view (set_dst v p)) = seq (msg_view p)"
    "status (msg_view (set_dst v p)) = status (msg_view p)"
    "src (msg_view (set_seq v p)) = src (msg_view p)" "dst (msg_view (set_seq v p)) = dst (msg_view p)"
    "seq (msg_view (set_seq v p)) = v" "status (msg_view (set_seq v p)) = status (msg_view p)"
    "src (msg_view (set_status v p)) = src (msg_view p)"
    "dst (msg_view (set_status v p)) = dst (msg_view p)"
    "seq (msg_view (set_status v p)) = seq (msg_view p)" "status (msg_view (set_status v p)) = v"
    "src (msg_view (set_machinerank v p)) = src (msg_view p)"
    "dst (msg_view (set_machinerank v p)) = dst (msg_view p)"
    "seq (msg_view (set_machinerank v p)) = seq (msg_view p)"
    "status (msg_view (set_machinerank v p)) = status (msg_view p)"
  using assms
  by (simp_all add: packet_ok_def msg_view_def field_defs load32_store32_same load32_store32_disjoint)

lemma machinerank_set [simp]: "packet_ok p \<Longrightarrow> machinerank (set_machinerank v p) = v"
  by (simp add: packet_ok_def machinerank_def field_defs load32_store32_same)

text \<open>
  C33. For any checksum function, a packet sealed by \<open>encappkt\<close> passes \<open>msg_checkcrc\<close>, the message
  laid over it is unchanged, and a packet that carries the same checksum word but whose covered
  bytes have another checksum is rejected.
\<close>

theorem encappkt_seals:
  assumes "packet_ok p"
  shows "msg_checkcrc crc (encappkt crc p p) = CRC_OK \<and>
    msg_view (encappkt crc p p) = msg_view p \<and>
    (\<forall>r. load32 CRCPOS r = load32 CRCPOS (encappkt crc p p) \<longrightarrow>
         generate_crc32 crc r CRCMSGSIZE \<noteq> generate_crc32 crc p CRCMSGSIZE \<longrightarrow>
         msg_checkcrc crc r = CRC_ERR)"
proof (intro conjI allI impI)
  fix r
  assume same: "load32 CRCPOS r = load32 CRCPOS (encappkt crc p p)"
    and other: "generate_crc32 crc r CRCMSGSIZE \<noteq> generate_crc32 crc p CRCMSGSIZE"
  have "load32 CRCPOS (encappkt crc p p) = generate_crc32 crc p CRCMSGSIZE"
    using assms by (simp add: packet_ok_def encappkt_def load32_store32_same)
  with same other show "msg_checkcrc crc r = CRC_ERR"
    by (simp add: msg_checkcrc_def)
qed (use assms in simp_all)

theorem encappkt_seals_witness:
  "packet_ok calloc_packet \<and>
   msg_checkcrc (\<lambda>b. of_nat (length b)) (encappkt (\<lambda>b. of_nat (length b)) calloc_packet calloc_packet) = CRC_OK"
  using encappkt_seals [of calloc_packet "\<lambda>b. of_nat (length b)"] by simp

text \<open>
  The configuration check passes exactly when the number of samples fits a \<open>varlist\<close>: the
  struct sizes, computed with the alignment rules of the platform, never make it fail.
\<close>

lemma check_confgsanity_passes:
  "(check_confgsanity pb = Inr () \<longleftrightarrow> samples pb \<le> int MAX_SAMPLE) \<and>
   sizeof msg_ctype \<le> CRCMSGSIZE \<and> sizeof varlist_ctype \<le> MSGSIZE - MSGMETASIZE \<and>
   sizeof betalist_ctype \<le> MSGSIZE - MSGMETASIZE"
  by (simp add: check_confgsanity_iff struct_sizes)

section \<open>Building the packets\<close>

text \<open>
  Each sender is modelled by the packet it hands to MPI, together with its destination rank
  and, for the server, the context whose \<open>outmsg\<close> it increments.
\<close>

definition sendheartbeat :: "(byte list \<Rightarrow> u32) \<Rightarrow> schedctx \<Rightarrow> int \<times> packet" where
  "sendheartbeat crc ctx =
     (let sdpkt = calloc_packet;
          sdpkt = set_src (word_of_int (rank ctx)) sdpkt;
          sdpkt = set_dst (word_of_int (schedrank (mctx ctx))) sdpkt;
          sdpkt = set_machinerank (word_of_int (rank ctx)) sdpkt;
          sdpkt = encappkt crc sdpkt sdpkt
      in (schedrank (mctx ctx), sdpkt))"

definition client_sendtestmsg :: "(byte list \<Rightarrow> u32) \<Rightarrow> schedctx \<Rightarrow> int \<times> packet" where
  "client_sendtestmsg crc ctx =
     (let sdpkt = calloc_packet;
          sdpkt = set_src (word_of_int (rank ctx)) sdpkt;
          sdpkt = set_dst (word_of_int (schedrank (mctx ctx))) sdpkt;
          sdpkt = set_machinerank (word_of_int (rank ctx)) sdpkt;
          sdpkt = encappkt crc sdpkt sdpkt
      in (schedrank (mctx ctx), sdpkt))"

definition client_sendtestmsg_wt_buffer :: "(byte list \<Rightarrow> u32) \<Rightarrow> schedctx \<Rightarrow> packet \<Rightarrow> int \<times> packet" where
  "client_sendtestmsg_wt_buffer crc ctx sdpkt =
     (let sdpkt = set_src (word_of_int (rank ctx)) sdpkt;
          sdpkt = set_dst (word_of_int (schedrank (mctx ctx))) sdpkt;
          sdpkt = set_machinerank (word_of_int (rank ctx)) sdpkt;
          sdpkt = encappkt crc sdpkt sdpkt
      in (schedrank (mctx ctx), sdpkt))"

definition server_sendtestmsg :: "(byte list \<Rightarrow> u32) \<Rightarrow> schedctx \<Rightarrow> int \<Rightarrow> schedctx \<times> int \<times> packet" where
  "server_sendtestmsg crc ctx destrank =
     (let sdpkt = calloc_packet;
          sdpkt = set_seq (outmsg ctx) sdpkt;
          ctx' = ctx\<lparr>outmsg := outmsg ctx + 1\<rparr>;
          sdpkt = set_status MSGSTATUS_UNDONE sdpkt;
          sdpkt = set_src (word_of_int (rank ctx)) sdpkt;
          sdpkt = set_dst (word_of_int destrank) sdpkt;
          sdpkt = set_machinerank (word_of_int (rank ctx)) sdpkt;
          sdpkt = encappkt crc sdpkt sdpkt
      in (ctx', destrank, sdpkt))"

text \<open>
  A receive copies what MPI delivers over a zeroed packet; the checksum is asserted.
  The length MPI reports only selects a warning.
\<close>

definition mpi_recv_buf :: "byte list \<Rightarrow> packet" where
  "mpi_recv_buf bytes = blit 0 (take MSGSIZE bytes) calloc_packet"

definition client_receivemsg :: "(byte list \<Rightarrow> u32) \<Rightarrow> byte list \<Rightarrow> packet outcome" where
  "client_receivemsg crc bytes =
     (let pkt = mpi_recv_buf bytes in
      if msg_checkcrc crc pkt = CRC_OK then Inr pkt else Inl Abort)"

lemma mpi_recv_buf_id [simp]: "packet_ok p \<Longrightarrow> mpi_recv_buf p = p"
  by (simp add: packet_ok_def mpi_recv_buf_def blit_def calloc_packet_def)

text \<open>\<open>waitforall\<close>: the packets that arrive in order, until \<open>clients\<close> of them were counted;
  \<open>None\<close> means it still waits when the arrivals are used up.\<close>

fun waitforall :: "(byte list \<Rightarrow> u32) \<Rightarrow> int \<Rightarrow> int \<Rightarrow> byte list list \<Rightarrow> int outcome option" where
  "waitforall crc clients livecnt arrivals =
     (if livecnt < clients then
        (case arrivals of
           [] \<Rightarrow> None
         | bytes # rest \<Rightarrow>
             if msg_checkcrc crc (mpi_recv_buf bytes) = CRC_OK
             then waitforall crc clients (livecnt + 1) rest
             else Some (Inl Abort))
      else Some (Inr livecnt))"

declare waitforall.simps [simp del]

lemma sendheartbeat_facts:
  "packet_ok (snd (sendheartbeat crc ctx))"
  "msg_checkcrc crc (snd (sendheartbeat crc ctx)) = CRC_OK"
  by (simp_all add: sendheartbeat_def Let_def)

lemma server_sendtestmsg_facts:
  assumes "server_sendtestmsg crc ctx d = (ctx', dest, p)"
  shows "packet_ok p" "msg_checkcrc crc p = CRC_OK" "seq (msg_view p) = outmsg ctx"
    "dst (msg_view p) = word_of_int d" "status (msg_view p) = MSGSTATUS_UNDONE"
    "src (msg_view p) = word_of_int (rank ctx)" "dest = d" "ctx' = ctx\<lparr>outmsg := outmsg ctx + 1\<rparr>"
  using assms by (auto simp: server_sendtestmsg_def Let_def)

lemma client_sendtestmsg_wt_buffer_facts:
  assumes "packet_ok p"
  shows "packet_ok (snd (client_sendtestmsg_wt_buffer crc ctx p))"
    "msg_checkcrc crc (snd (client_sendtestmsg_wt_buffer crc ctx p)) = CRC_OK"
    "seq (msg_view (snd (client_sendtestmsg_wt_buffer crc ctx p))) = seq (msg_view p)"
    "status (msg_view (snd (client_sendtestmsg_wt_buffer crc ctx p))) = status (msg_view p)"
    "src (msg_view (snd (client_sendtestmsg_wt_buffer crc ctx p))) = word_of_int (rank ctx)"
    "dst (msg_view (snd (client_sendtestmsg_wt_buffer crc ctx p))) = word_of_int (schedrank (mctx ctx))"
  using assms by (simp_all add: client_sendtestmsg_wt_buffer_def Let_def)

lemma waitforall_counts:
  assumes "\<forall>b \<in> set arrivals. msg_checkcrc crc (mpi_recv_buf b) = CRC_OK"
    and "livecnt \<le> clients"
  shows "waitforall crc clients livecnt arrivals =
    (if clients \<le> livecnt + int (length arrivals) then Some (Inr clients) else None)"
  using assms
proof (induction arrivals arbitrary: livecnt)
  case Nil
  then show ?case by (subst waitforall.simps) auto
next
  case (Cons b bs)
  then have IH: "livecnt < clients \<Longrightarrow> waitforall crc clients (livecnt + 1) bs =
      (if clients \<le> livecnt + 1 + int (length bs) then Some (Inr clients) else None)"
    by simp
  show ?case
    using Cons.prems IH by (subst waitforall.simps) auto
qed

end
