(* ===== verification/Mpi_Queues.thy ===== *)
theory Mpi_Queues
  imports Mpi_Packet
begin

text \<open>
  The two task queues between a machine's communication thread and its workers
  (\<open>s2w\<close>, \<open>w2s\<close> of \<open>src/mpi/scheduler.cpp\<close>), each guarded by a mutex. The return codes of
  \<open>pthread_mutex_lock\<close> and \<open>pthread_mutex_unlock\<close> are arguments; a non-zero code ends the
  process through \<open>checkResults\<close>. Theorem: each queue hands tasks over in the order they were put.
\<close>

record 'm taskqs =
  s2w :: "'m list"
  w2s :: "'m list"

definition checkResults :: "int \<Rightarrow> unit outcome" where
  "checkResults val = (if val \<noteq> 0 then Inl (Exit 1) else Inr ())"

lemma checkResults_0 [simp]: "checkResults 0 = Inr ()"
  by (simp add: checkResults_def)

lemma checkResults_eq_Inr [simp]: "checkResults v = Inr u \<longleftrightarrow> v = 0"
  by (simp add: checkResults_def)

definition worker_get_task :: "int \<Rightarrow> int \<Rightarrow> 'm taskqs \<Rightarrow> ('m option \<times> 'm taskqs) outcome" where
  "worker_get_task rc_lock rc_unlock q =
     andthen (checkResults rc_lock) (\<lambda>_.
       let (ret, q') = (case s2w q of [] \<Rightarrow> (None, q) | m # ms \<Rightarrow> (Some m, q\<lparr>s2w := ms\<rparr>))
       in andthen (checkResults rc_unlock) (\<lambda>_. Inr (ret, q')))"

definition worker_putback_task :: "int \<Rightarrow> int \<Rightarrow> 'm \<Rightarrow> 'm taskqs \<Rightarrow> 'm taskqs outcome" where
  "worker_putback_task rc_lock rc_unlock element q =
     andthen (checkResults rc_lock) (\<lambda>_.
       let q' = q\<lparr>w2s := w2s q @ [element]\<rparr>
       in andthen (checkResults rc_unlock) (\<lambda>_. Inr q'))"

definition client_putback_task :: "int \<Rightarrow> int \<Rightarrow> 'm taskqs \<Rightarrow> ('m option \<times> 'm taskqs) outcome" where
  "client_putback_task rc_lock rc_unlock q =
     andthen (checkResults rc_lock) (\<lambda>_.
       let (ret, q') = (case w2s q of [] \<Rightarrow> (None, q) | m # ms \<Rightarrow> (Some m, q\<lparr>w2s := ms\<rparr>))
       in andthen (checkResults rc_unlock) (\<lambda>_. Inr (ret, q')))"

definition client_put_task :: "int \<Rightarrow> int \<Rightarrow> 'm \<Rightarrow> 'm taskqs \<Rightarrow> 'm taskqs outcome" where
  "client_put_task rc_lock rc_unlock element q =
     andthen (checkResults rc_lock) (\<lambda>_.
       let q' = q\<lparr>s2w := s2w q @ [element]\<rparr>
       in andthen (checkResults rc_unlock) (\<lambda>_. Inr q'))"

lemmas taskq_defs =
  worker_get_task_def worker_putback_task_def client_putback_task_def client_put_task_def

text \<open>The operations when the mutex calls succeed, and the failures when they do not.\<close>

lemma taskq_ok [simp]:
  "worker_get_task 0 0 q = Inr (case s2w q of [] \<Rightarrow> (None, q) | m # ms \<Rightarrow> (Some m, q\<lparr>s2w := ms\<rparr>))"
  "client_putback_task 0 0 q = Inr (case w2s q of [] \<Rightarrow> (None, q) | m # ms \<Rightarrow> (Some m, q\<lparr>w2s := ms\<rparr>))"
  "worker_putback_task 0 0 m q = Inr (q\<lparr>w2s := w2s q @ [m]\<rparr>)"
  "client_put_task 0 0 m q = Inr (q\<lparr>s2w := s2w q @ [m]\<rparr>)"
  by (simp_all add: taskq_defs split: list.splits)

text \<open>The queues as their users see them, with working mutexes.\<close>

definition from_ok :: "'a \<Rightarrow> 'a outcome \<Rightarrow> 'a" where
  "from_ok d r = (case r of Inl _ \<Rightarrow> d | Inr x \<Rightarrow> x)"

lemma from_ok_Inr [simp]: "from_ok d (Inr x) = x"
  by (simp add: from_ok_def)

interpretation to_workers: fifo
  "\<lambda>m q. from_ok q (client_put_task 0 0 m q)"
  "\<lambda>q. from_ok (None, q) (worker_get_task 0 0 q)"
  s2w
  by unfold_locales (auto split: list.splits)

interpretation to_client: fifo
  "\<lambda>m q. from_ok q (worker_putback_task 0 0 m q)"
  "\<lambda>q. from_ok (None, q) (client_putback_task 0 0 q)"
  w2s
  by unfold_locales (auto split: list.splits)

text \<open>
  Whatever way puts and gets interleave, the tasks the workers take are the tasks already
  queued followed by those the client puts, in order, and the rest stays queued; the same holds
  of the results on their way back. None is lost, duplicated or overtaken.
\<close>

lemma task_queues_in_order:
  assumes "s2w q = contents_before"
    and "queue_run (\<lambda>m q. from_ok q (client_put_task 0 0 m q))
           (\<lambda>q. from_ok (None, q) (worker_get_task 0 0 q)) ops q = (out, q')"
    and "w2s r = contents_back"
    and "queue_run (\<lambda>m q. from_ok q (worker_putback_task 0 0 m q))
           (\<lambda>q. from_ok (None, q) (client_putback_task 0 0 q)) ops2 r = (out2, r')"
  shows "contents_before @ queue_puts ops = out @ s2w q' \<and> contents_back @ queue_puts ops2 = out2 @ w2s r'"
  using to_workers.run_order [OF assms(2)] to_client.run_order [OF assms(4)] assms(1,3) by simp

lemma task_queues_in_order_witness:
  "[7] @ queue_puts [Get, Put 8, Get] = [7, 8] @ s2w \<lparr>s2w = [], w2s = [] :: nat list\<rparr> \<and>
   [] @ queue_puts [Put 5] = [] @ w2s \<lparr>s2w = [], w2s = [5 :: nat]\<rparr>"
  by (rule task_queues_in_order
      [of "\<lparr>s2w = [7], w2s = []\<rparr>" "[7]" "[Get, Put 8, Get]" "[7, 8]" _
          "\<lparr>s2w = [], w2s = []\<rparr>" "[]" "[Put 5]" "[]"]) simp_all

end
