(* ===== verification/Mpi_Node.thy ===== *)
theory Mpi_Node
  imports Mpi_Queues "HOL-Library.Multiset"
begin

text \<open>
  One client machine of the MPI test: the communication thread \<open>sched_client\<close> of
  \<open>src/mpi/scheduler.cpp\<close>, the worker threads of \<open>src/mpi/worker.cpp\<close> and the start barrier of
  \<open>src/mpi/dynamic.cpp\<close>, as a step relation over the machine's state: the program counters, the
  two task queues, and the MPI channels from and to the scheduler. One rule is one critical
  section or one MPI call, so the rules interleave as the threads do. An iteration of a polling
  loop that finds nothing changes no state and has no rule.
\<close>

datatype client_pc = CBoot | CBarrier | CLoop | CFail fault

datatype worker_pc = WBarrier | WIdle | WBusy packet

record node =
  cctx :: schedctx
  cpc :: client_pc
  queues :: "packet taskqs"
  workers :: "nat \<Rightarrow> worker_pc"
  down :: "packet list"
  up :: "packet list"

section \<open>The threads' actions\<close>

text \<open>\<open>initcomm(); sendheartbeat(ctx)\<close>, then the thread waits at the barrier.\<close>

definition sched_client_boot :: "(byte list \<Rightarrow> u32) \<Rightarrow> node \<Rightarrow> node" where
  "sched_client_boot crc n =
     (let (dest, p) = sendheartbeat crc (cctx n) in n\<lparr>cpc := CBarrier, up := up n @ [p]\<rparr>)"

text \<open>\<open>bar_all\<close> releases the communication thread and the \<open>thrdpm\<close> workers together.\<close>

definition bar_all_release :: "nat \<Rightarrow> node \<Rightarrow> node" where
  "bar_all_release T n = n\<lparr>cpc := CLoop, workers := (\<lambda>j. if j < T then WIdle else workers n j)\<rparr>"

text \<open>The asynchronous receive completed: check the packet and queue it for the workers.\<close>

definition sched_client_recv :: "(byte list \<Rightarrow> u32) \<Rightarrow> packet \<Rightarrow> packet list \<Rightarrow> node \<Rightarrow> node" where
  "sched_client_recv crc p rest n =
     (let newpacket = mpi_recv_buf p; n = n\<lparr>down := rest\<rparr> in
      if msg_checkcrc crc newpacket = CRC_OK
      then (case client_put_task 0 0 newpacket (queues n) of
              Inl e \<Rightarrow> n\<lparr>cpc := CFail e\<rparr>
            | Inr q \<Rightarrow> n\<lparr>queues := q\<rparr>)
      else n\<lparr>cpc := CFail Abort\<rparr>)"

text \<open>The receive is still pending: hand back one finished task, if there is one.\<close>

definition sched_client_poll :: "(byte list \<Rightarrow> u32) \<Rightarrow> node \<Rightarrow> node" where
  "sched_client_poll crc n =
     (case client_putback_task 0 0 (queues n) of
        Inl e \<Rightarrow> n\<lparr>cpc := CFail e\<rparr>
      | Inr (None, q) \<Rightarrow> n\<lparr>queues := q\<rparr>
      | Inr (Some donetask, q) \<Rightarrow>
          (let (dest, p) = client_sendtestmsg_wt_buffer crc (cctx n) donetask
           in n\<lparr>queues := q, up := up n @ [p]\<rparr>))"

definition worker_take :: "nat \<Rightarrow> node \<Rightarrow> node" where
  "worker_take j n =
     (case worker_get_task 0 0 (queues n) of
        Inl e \<Rightarrow> n\<lparr>cpc := CFail e\<rparr>
      | Inr (None, q) \<Rightarrow> n\<lparr>queues := q\<rparr>
      | Inr (Some wmsg, q) \<Rightarrow> n\<lparr>queues := q, workers := (workers n)(j := WBusy wmsg)\<rparr>)"

definition worker_finish :: "nat \<Rightarrow> packet \<Rightarrow> node \<Rightarrow> node" where
  "worker_finish j wmsg n =
     (let wmsg = set_status MSGSTATUS_DONE wmsg in
      case worker_putback_task 0 0 wmsg (queues n) of
        Inl e \<Rightarrow> n\<lparr>cpc := CFail e\<rparr>
      | Inr q \<Rightarrow> n\<lparr>queues := q, workers := (workers n)(j := WIdle)\<rparr>)"

inductive node_step :: "(byte list \<Rightarrow> u32) \<Rightarrow> nat \<Rightarrow> node \<Rightarrow> node \<Rightarrow> bool"
  for crc :: "byte list \<Rightarrow> u32" and T :: nat where
  boot: "cpc n = CBoot \<Longrightarrow> node_step crc T n (sched_client_boot crc n)"
| barrier: "cpc n = CBarrier \<Longrightarrow> \<forall>j<T. workers n j = WBarrier \<Longrightarrow> node_step crc T n (bar_all_release T n)"
| recv: "cpc n = CLoop \<Longrightarrow> down n = p # rest \<Longrightarrow> node_step crc T n (sched_client_recv crc p rest n)"
| poll: "cpc n = CLoop \<Longrightarrow> w2s (queues n) \<noteq> [] \<Longrightarrow> node_step crc T n (sched_client_poll crc n)"
| take: "j < T \<Longrightarrow> workers n j = WIdle \<Longrightarrow> s2w (queues n) \<noteq> [] \<Longrightarrow> node_step crc T n (worker_take j n)"
| finish: "j < T \<Longrightarrow> workers n j = WBusy p \<Longrightarrow> node_step crc T n (worker_finish j p n)"

section \<open>Packets in flight on a machine\<close>

fun busy :: "worker_pc \<Rightarrow> packet multiset" where
  "busy (WBusy p) = {#p#}"
| "busy _ = {#}"

definition inside :: "nat \<Rightarrow> node \<Rightarrow> packet multiset" where
  "inside T n = mset (down n) + mset (s2w (queues n)) + (\<Sum>j<T. busy (workers n j)) + mset (w2s (queues n))"

definition flight :: "nat \<Rightarrow> node \<Rightarrow> packet multiset" where
  "flight T n = inside T n + mset (up n)"

text \<open>
  What every machine keeps: its identity, well-formed packets, valid checksums on both channels,
  idle workers until the barrier opens, and no failed assertion.
\<close>

definition node_ok :: "(byte list \<Rightarrow> u32) \<Rightarrow> nat \<Rightarrow> int \<Rightarrow> node \<Rightarrow> bool" where
  "node_ok crc T i n \<longleftrightarrow>
     rank (cctx n) = i \<and>
     (\<forall>p \<in># flight T n. packet_ok p) \<and>
     (\<forall>p \<in> set (down n) \<union> set (up n). msg_checkcrc crc p = CRC_OK) \<and>
     (case cpc n of
        CBoot \<Rightarrow> (\<forall>j<T. workers n j = WBarrier) \<and> s2w (queues n) = [] \<and> w2s (queues n) = [] \<and> up n = []
      | CBarrier \<Rightarrow> (\<forall>j<T. workers n j = WBarrier) \<and> s2w (queues n) = [] \<and> w2s (queues n) = []
      | CLoop \<Rightarrow> (\<forall>j<T. workers n j \<noteq> WBarrier)
      | CFail e \<Rightarrow> False)"

lemma sum_busy_update:
  fixes j T :: nat
  assumes "j < T"
  shows "(\<Sum>k<T. busy ((ws(j := w)) k)) + busy (ws j) = (\<Sum>k<T. busy (ws k)) + busy w"
  using sum_table_update [OF assms, of "\<lambda>_. busy" ws w] by simp

lemma busy_in_sum:
  fixes j T :: nat
  assumes "j < T"
  shows "busy (ws j) \<subseteq># (\<Sum>k<T. busy (ws k))"
  by (subst sum.remove [of _ j]) (use assms in auto)

lemma sum_busy_take:
  fixes j T :: nat
  assumes "j < T" "ws j = WIdle"
  shows "(\<Sum>k<T. busy ((ws(j := WBusy p)) k)) = (\<Sum>k<T. busy (ws k)) + {#p#}"
  using sum_busy_update [OF assms(1), of ws "WBusy p"] assms(2) by simp

lemma sum_busy_finish:
  fixes j T :: nat
  assumes "j < T" "ws j = WBusy p"
  shows "(\<Sum>k<T. busy (ws k)) = (\<Sum>k<T. busy ((ws(j := WIdle)) k)) + {#p#}"
  using sum_busy_update [OF assms(1), of ws WIdle] assms(2) by simp

lemma sum_busy_none:
  "\<forall>j<(T::nat). ws j = WBarrier \<or> ws j = WIdle \<Longrightarrow> (\<Sum>k<T. busy (ws k)) = {#}"
  by (rule sum.neutral) auto

text \<open>
  The effect of a step on the packets in flight: it moves packets, or replaces one by a packet
  with the same sequence number.
\<close>

definition restamp :: "packet \<Rightarrow> packet \<Rightarrow> bool" where
  "restamp p q \<longleftrightarrow> (packet_ok p \<longrightarrow> packet_ok q \<and> seq (msg_view q) = seq (msg_view p))"

lemma restamp_finish: "restamp p (set_status v p)"
  by (simp add: restamp_def)

lemma restamp_putback: "restamp p (snd (client_sendtestmsg_wt_buffer crc ctx p))"
  by (simp add: restamp_def client_sendtestmsg_wt_buffer_facts)

lemma flight_step:
  assumes "node_step crc T n n'" and ok: "node_ok crc T i n" and "cpc n \<noteq> CBoot"
  shows "(flight T n' = flight T n) \<or>
    (\<exists>p q F. flight T n = add_mset p F \<and> flight T n' = add_mset q F \<and> restamp p q)"
  using assms(1)
proof cases
  case boot
  with assms(3) show ?thesis by simp
next
  case barrier
  then have "(\<Sum>j<T. busy (workers n' j)) = {#}" "(\<Sum>j<T. busy (workers n j)) = {#}"
    by (auto simp: bar_all_release_def intro!: sum.neutral)
  with barrier show ?thesis by (simp add: flight_def inside_def bar_all_release_def)
next
  case (recv p rest)
  with ok have "packet_ok p" "msg_checkcrc crc p = CRC_OK"
    by (simp_all add: node_ok_def flight_def inside_def)
  with recv show ?thesis by (simp add: flight_def inside_def sched_client_recv_def)
next
  case poll
  then obtain p ms where w: "w2s (queues n) = p # ms" by (cases "w2s (queues n)") auto
  define q where "q = snd (client_sendtestmsg_wt_buffer crc (cctx n) p)"
  define F where "F = mset (down n) + mset (s2w (queues n)) + (\<Sum>j<T. busy (workers n j)) + mset ms + mset (up n)"
  have "flight T n = add_mset p F" using w by (simp add: flight_def inside_def F_def)
  moreover have "flight T n' = add_mset q F" using w poll
    by (simp add: flight_def inside_def sched_client_poll_def F_def q_def split: prod.splits)
  moreover have "restamp p q" unfolding q_def by (rule restamp_putback)
  ultimately show ?thesis by blast
next
  case (take j)
  then obtain p ms where w: "s2w (queues n) = p # ms" by (cases "s2w (queues n)") auto
  with take show ?thesis
    using sum_busy_take [of j T "workers n" p] by (simp add: flight_def inside_def worker_take_def)
next
  case (finish j p)
  define q where "q = set_status MSGSTATUS_DONE p"
  define B where "B = (\<Sum>k<T. busy (((workers n)(j := WIdle)) k))"
  define F where "F = mset (down n) + mset (s2w (queues n)) + B + mset (w2s (queues n)) + mset (up n)"
  have "flight T n = add_mset p F"
    using sum_busy_finish [of j T "workers n" p] finish by (simp add: flight_def inside_def F_def B_def)
  moreover have "flight T n' = add_mset q F"
    using finish by (simp add: flight_def inside_def worker_finish_def F_def B_def q_def)
  moreover have "restamp p q" unfolding q_def by (rule restamp_finish)
  ultimately show ?thesis by blast
qed

lemma client_sendtestmsg_wt_buffer_crc:
  "packet_ok p \<Longrightarrow> client_sendtestmsg_wt_buffer crc ctx p = (d, q) \<Longrightarrow>
     packet_ok q \<and> msg_checkcrc crc q = CRC_OK"
  using client_sendtestmsg_wt_buffer_facts(1,2) [of p crc ctx] by simp

lemma node_ok_step:
  assumes "node_step crc T n n'" and ok: "node_ok crc T i n"
  shows "node_ok crc T i n'"
  using assms(1)
proof cases
  case boot
  then show ?thesis using ok sendheartbeat_facts [of crc "cctx n"]
    by (auto simp: node_ok_def sched_client_boot_def flight_def inside_def split: prod.splits)
next
  case barrier
  have "(\<Sum>j<T. busy (workers n' j)) = {#}"
    using barrier by (intro sum_busy_none) (auto simp: bar_all_release_def)
  with barrier ok show ?thesis
    by (auto simp: node_ok_def bar_all_release_def flight_def inside_def)
next
  case (recv p rest)
  with ok have "packet_ok p" "msg_checkcrc crc p = CRC_OK"
    by (simp_all add: node_ok_def flight_def inside_def)
  with recv ok show ?thesis by (auto simp: node_ok_def sched_client_recv_def flight_def inside_def)
next
  case poll
  then obtain p ms where w: "w2s (queues n) = p # ms" by (cases "w2s (queues n)") auto
  with ok have "packet_ok p" by (simp add: node_ok_def flight_def inside_def)
  with poll w ok show ?thesis
    by (auto simp: node_ok_def sched_client_poll_def flight_def inside_def
        dest: client_sendtestmsg_wt_buffer_crc split: prod.splits)
next
  case (take j)
  then obtain p ms where w: "s2w (queues n) = p # ms" by (cases "s2w (queues n)") auto
  from take ok have c: "cpc n = CLoop" by (auto simp: node_ok_def split: client_pc.splits)
  have "flight T n' = flight T n"
    using take w sum_busy_take [of j T "workers n" p] by (simp add: flight_def inside_def worker_take_def)
  with take w ok c show ?thesis by (auto simp: node_ok_def worker_take_def)
next
  case (finish j p)
  from finish ok have c: "cpc n = CLoop" by (auto simp: node_ok_def split: client_pc.splits)
  have "p \<in># flight T n"
    using finish busy_in_sum [of j T "workers n"] by (auto simp: flight_def inside_def dest: mset_subset_eqD)
  with ok have "packet_ok p" by (simp add: node_ok_def)
  moreover have "flight T n + {#set_status MSGSTATUS_DONE p#} = flight T n' + {#p#}"
    using finish sum_busy_finish [of j T "workers n" p] by (simp add: flight_def inside_def worker_finish_def)
  then have "set_mset (flight T n') \<subseteq> insert (set_status MSGSTATUS_DONE p) (set_mset (flight T n))"
    by (metis insert_iff set_mset_add_mset_insert subsetI union_mset_add_mset_right union_iff empty_neutral(2))
  ultimately show ?thesis using finish ok c
    by (auto simp: node_ok_def worker_finish_def)
qed

section \<open>Finished tasks\<close>

text \<open>Results on their way to the scheduler are marked done and carry the machine's rank.\<close>

definition node_done :: "int \<Rightarrow> node \<Rightarrow> bool" where
  "node_done i n \<longleftrightarrow>
     (\<forall>p \<in> set (w2s (queues n)). status (msg_view p) = MSGSTATUS_DONE) \<and>
     (\<forall>p \<in> set (up n). status (msg_view p) = MSGSTATUS_DONE \<and> src (msg_view p) = word_of_int i)"

lemma node_done_step:
  assumes "node_step crc T n n'" and ok: "node_ok crc T i n" and d: "node_done i n" and "cpc n \<noteq> CBoot"
  shows "node_done i n'"
  using assms(1)
proof cases
  case boot
  with assms(4) show ?thesis by simp
next
  case barrier
  with d show ?thesis by (simp add: node_done_def bar_all_release_def)
next
  case (recv p rest)
  with ok have "packet_ok p" "msg_checkcrc crc p = CRC_OK"
    by (simp_all add: node_ok_def flight_def inside_def)
  with recv d show ?thesis by (simp add: node_done_def sched_client_recv_def)
next
  case poll
  then obtain p ms where w: "w2s (queues n) = p # ms" by (cases "w2s (queues n)") auto
  with ok have "packet_ok p" "rank (cctx n) = i" by (simp_all add: node_ok_def flight_def inside_def)
  with poll w d client_sendtestmsg_wt_buffer_facts [of p crc "cctx n"] show ?thesis
    by (auto simp: node_done_def sched_client_poll_def split: prod.splits)
next
  case (take j)
  then obtain p ms where w: "s2w (queues n) = p # ms" by (cases "s2w (queues n)") auto
  with take d show ?thesis by (simp add: node_done_def worker_take_def)
next
  case (finish j p)
  have "p \<in># flight T n"
    using finish busy_in_sum [of j T "workers n"] by (auto simp: flight_def inside_def dest: mset_subset_eqD)
  with ok have "packet_ok p" by (simp add: node_ok_def)
  with finish d show ?thesis by (auto simp: node_done_def worker_finish_def)
qed

section \<open>Progress of a machine\<close>

lemma node_progress:
  assumes ok: "node_ok crc T i n" and "0 < T"
    and busy: "cpc n \<noteq> CLoop \<or> inside T n \<noteq> {#}"
  shows "\<exists>n'. node_step crc T n n'"
proof (cases "cpc n")
  case CBoot
  then show ?thesis by (blast intro: node_step.boot)
next
  case CBarrier
  with ok have "\<forall>j<T. workers n j = WBarrier" by (simp add: node_ok_def)
  with CBarrier show ?thesis by (blast intro: node_step.barrier)
next
  case (CFail e)
  with ok show ?thesis by (simp add: node_ok_def)
next
  case CLoop
  show ?thesis
  proof (cases "down n = [] \<and> w2s (queues n) = []")
    case False
    with CLoop show ?thesis
      by (metis neq_Nil_conv node_step.recv node_step.poll)
  next
    case True
    show ?thesis
    proof (cases "\<exists>j<T. \<exists>p. workers n j = WBusy p")
      case True
      then show ?thesis by (blast intro: node_step.finish)
    next
      case False
      have idle: "\<forall>j<T. workers n j = WIdle"
        using False ok CLoop by (auto simp: node_ok_def) (metis worker_pc.exhaust)
      then have "(\<Sum>j<T. Mpi_Node.busy (workers n j)) = {#}" by (intro sum_busy_none) simp
      with busy CLoop True have "s2w (queues n) \<noteq> []" by (auto simp: inside_def)
      with idle \<open>0 < T\<close> show ?thesis by (blast intro: node_step.take)
    qed
  qed
qed

end
