(* ===== verification/Mpi_System.thy ===== *)
theory Mpi_System
  imports Mpi_Node
begin

text \<open>
  The whole MPI test: the scheduler thread \<open>sched_server\<close> of \<open>src/mpi/scheduler.cpp\<close> and the
  client machines of theory \<open>Mpi_Node\<close>, connected by MPI channels that keep the order of the
  messages of one sender. The lists \<open>sent\<close> and \<open>acked\<close> record what the scheduler dispatched and
  received; the program does not have them. Theorems: no assertion of the program can fail, every task
  dispatched is acknowledged exactly once by the machine it was sent to and marked done, and
  the system never gets stuck.
\<close>

datatype server_pc = SWait int | SSend nat nat | SRecv nat | SFail fault

record system =
  spc :: server_pc
  sctx :: schedctx
  nodes :: "nat \<Rightarrow> node"
  sent :: "(c_int \<times> c_int) list"
  acked :: "(c_int \<times> c_int \<times> c_int) list"

abbreviation nmach :: "system \<Rightarrow> nat" where "nmach s \<equiv> nat (machines (mctx (sctx s)))"
abbreviation nthr :: "system \<Rightarrow> nat" where "nthr s \<equiv> nat (thrdpm (mctx (sctx s)))"

section \<open>The scheduler's actions\<close>

text \<open>\<open>sched_server\<close> up to \<open>waitforall\<close>: the configuration check may end the process.\<close>

definition sched_server_boot :: "problem \<Rightarrow> server_pc" where
  "sched_server_boot pb = (case check_confgsanity pb of Inl e \<Rightarrow> SFail e | Inr _ \<Rightarrow> SWait 0)"

text \<open>One turn of the loop of \<open>waitforall\<close>, with the packet received.\<close>

definition waitforall_recv :: "(byte list \<Rightarrow> u32) \<Rightarrow> int \<Rightarrow> packet \<Rightarrow> server_pc" where
  "waitforall_recv crc livecnt p =
     (if msg_checkcrc crc (mpi_recv_buf p) = CRC_OK then SWait (livecnt + 1) else SFail Abort)"

text \<open>One turn of the two dispatch loops, whose counters are \<open>i\<close> and \<open>j\<close>.\<close>

definition sched_server_send :: "(byte list \<Rightarrow> u32) \<Rightarrow> nat \<Rightarrow> nat \<Rightarrow> system \<Rightarrow> system" where
  "sched_server_send crc i j s =
     (if i < nmach s then
        (if j < nthr s then
           (let (ctx, dest, p) = server_sendtestmsg crc (sctx s) (int i);
                d = nat dest; n = nodes s d
            in s\<lparr>sctx := ctx, spc := SSend i (j + 1),
                 nodes := (nodes s)(d := n\<lparr>down := down n @ [p]\<rparr>),
                 sent := sent s @ [(dst (msg_view p), seq (msg_view p))]\<rparr>)
         else s\<lparr>spc := SSend (i + 1) 0\<rparr>)
      else s\<lparr>spc := SRecv 0\<rparr>)"

text \<open>One turn of the receive loop: the checksum is asserted, then the packet is counted.\<close>

definition sched_server_recv :: "(byte list \<Rightarrow> u32) \<Rightarrow> nat \<Rightarrow> packet \<Rightarrow> system \<Rightarrow> system" where
  "sched_server_recv crc k p s =
     (let donepacket = mpi_recv_buf p; rcmsg = msg_view donepacket in
      if msg_checkcrc crc donepacket = CRC_OK
      then s\<lparr>sctx := (sctx s)\<lparr>inmsg := inmsg (sctx s) + 1\<rparr>, spc := SRecv (k + 1),
             acked := acked s @ [(src rcmsg, seq rcmsg, status rcmsg)]\<rparr>
      else s\<lparr>spc := SFail Abort\<rparr>)"

text \<open>After the receive loop: \<open>assert(ctx->inmsg == ctx->outmsg)\<close> and the next round.\<close>

definition sched_server_round :: "system \<Rightarrow> system" where
  "sched_server_round s =
     (if inmsg (sctx s) = outmsg (sctx s) then s\<lparr>spc := SSend 0 0\<rparr> else s\<lparr>spc := SFail Abort\<rparr>)"

definition pop_up :: "nat \<Rightarrow> system \<Rightarrow> system" where
  "pop_up i s = s\<lparr>nodes := (nodes s)(i := (nodes s i)\<lparr>up := tl (up (nodes s i))\<rparr>)\<rparr>"

inductive sys_step :: "(byte list \<Rightarrow> u32) \<Rightarrow> system \<Rightarrow> system \<Rightarrow> bool"
  for crc :: "byte list \<Rightarrow> u32" where
  srv_wait: "spc s = SWait c \<Longrightarrow> c < machines (mctx (sctx s)) \<Longrightarrow> i < nmach s \<Longrightarrow>
     up (nodes s i) = p # rest \<Longrightarrow> sys_step crc s ((pop_up i s)\<lparr>spc := waitforall_recv crc c p\<rparr>)"
| srv_ready: "spc s = SWait c \<Longrightarrow> \<not> c < machines (mctx (sctx s)) \<Longrightarrow> sys_step crc s (s\<lparr>spc := SSend 0 0\<rparr>)"
| srv_send: "spc s = SSend i j \<Longrightarrow> sys_step crc s (sched_server_send crc i j s)"
| srv_recv: "spc s = SRecv k \<Longrightarrow> k < nmach s * nthr s \<Longrightarrow> i < nmach s \<Longrightarrow>
     up (nodes s i) = p # rest \<Longrightarrow> sys_step crc s (sched_server_recv crc k p (pop_up i s))"
| srv_round: "spc s = SRecv k \<Longrightarrow> \<not> k < nmach s * nthr s \<Longrightarrow> sys_step crc s (sched_server_round s)"
| node_moves: "i < nmach s \<Longrightarrow> node_step crc (nthr s) (nodes s i) n' \<Longrightarrow>
     sys_step crc s (s\<lparr>nodes := (nodes s)(i := n')\<rparr>)"

text \<open>The start: contexts from \<open>create_threadcxt\<close> (zeroed counters), nothing sent, all threads at their first line.\<close>

definition init_node :: "context_t \<Rightarrow> nat \<Rightarrow> node" where
  "init_node ctx i = \<lparr>cctx = \<lparr>rank = int i, inmsg = 0, outmsg = 0, mctx = ctx\<rparr>, cpc = CBoot,
     queues = \<lparr>s2w = [], w2s = []\<rparr>, workers = (\<lambda>_. WBarrier), down = [], up = []\<rparr>"

definition init_system :: "context_t \<Rightarrow> problem \<Rightarrow> system" where
  "init_system ctx pb = \<lparr>spc = sched_server_boot pb,
     sctx = \<lparr>rank = schedrank ctx, inmsg = 0, outmsg = 0, mctx = ctx\<rparr>,
     nodes = init_node ctx, sent = [], acked = []\<rparr>"

inductive reachable :: "(byte list \<Rightarrow> u32) \<Rightarrow> context_t \<Rightarrow> problem \<Rightarrow> system \<Rightarrow> bool"
  for crc :: "byte list \<Rightarrow> u32" and ctx :: context_t and pb :: problem where
  start: "reachable crc ctx pb (init_system ctx pb)"
| step: "reachable crc ctx pb s \<Longrightarrow> sys_step crc s t \<Longrightarrow> reachable crc ctx pb t"

section \<open>The invariant\<close>

definition load :: "system \<Rightarrow> nat" where
  "load s = (\<Sum>i<nmach s. size (flight (nthr s) (nodes s i)))"

definition heartbeats :: "node \<Rightarrow> nat" where
  "heartbeats n = (if cpc n = CBoot then 1 else length (up n))"

definition pending :: "system \<Rightarrow> nat" where
  "pending s = (\<Sum>i<nmach s. heartbeats (nodes s i))"

definition tasks :: "system \<Rightarrow> (c_int \<times> c_int) multiset" where
  "tasks s = (\<Sum>i<nmach s. image_mset (\<lambda>p. (word_of_int (int i), seq (msg_view p))) (flight (nthr s) (nodes s i)))"

definition phase_ok :: "system \<Rightarrow> bool" where
  "phase_ok s = (case spc s of
     SWait c \<Rightarrow> 0 \<le> c \<and> c + int (pending s) = int (nmach s) \<and>
       (\<forall>i<nmach s. inside (nthr s) (nodes s i) = {#}) \<and>
       inmsg (sctx s) = outmsg (sctx s) \<and> sent s = [] \<and> acked s = []
   | SSend i j \<Rightarrow> (i < nmach s \<and> j \<le> nthr s \<or> i = nmach s \<and> j = 0) \<and>
       load s = i * nthr s + j \<and> outmsg (sctx s) = inmsg (sctx s) + of_nat (load s)
   | SRecv k \<Rightarrow> k + load s = nmach s * nthr s \<and> outmsg (sctx s) = inmsg (sctx s) + of_nat (load s)
   | SFail e \<Rightarrow> False)"

definition tasks_ok :: "system \<Rightarrow> bool" where
  "tasks_ok s = (case spc s of
     SWait c \<Rightarrow> True
   | _ \<Rightarrow> (\<forall>i<nmach s. cpc (nodes s i) \<noteq> CBoot \<and> node_done (int i) (nodes s i)) \<and>
       mset (sent s) = image_mset (\<lambda>(a, b, c). (a, b)) (mset (acked s)) + tasks s \<and>
       (\<forall>(a, b, c) \<in> set (acked s). c = MSGSTATUS_DONE))"

definition sys_inv :: "(byte list \<Rightarrow> u32) \<Rightarrow> system \<Rightarrow> bool" where
  "sys_inv crc s \<longleftrightarrow>
     0 \<le> machines (mctx (sctx s)) \<and>
     (\<forall>i<nmach s. node_ok crc (nthr s) (int i) (nodes s i)) \<and> phase_ok s \<and> tasks_ok s"

lemma sched_server_boot_ok:
  "samples pb \<le> int MAX_SAMPLE \<Longrightarrow> sched_server_boot pb = SWait 0"
  using check_confgsanity_iff [of pb] by (simp add: sched_server_boot_def)

lemma init_inv:
  assumes "0 \<le> machines ctx" "samples pb \<le> int MAX_SAMPLE"
  shows "sys_inv crc (init_system ctx pb)"
proof -
  have f: "flight T (init_node ctx i) = {#}" "inside T (init_node ctx i) = {#}" for T i
    by (simp_all add: flight_def inside_def init_node_def)
  have "node_ok crc T (int i) (init_node ctx i)" for T i
    by (simp add: node_ok_def f) (simp add: init_node_def)
  then show ?thesis
    using assms sched_server_boot_ok [OF assms(2)]
    by (simp add: sys_inv_def init_system_def phase_ok_def tasks_ok_def f pending_def)
      (simp add: heartbeats_def init_node_def)
qed

text \<open>Sums over the machines when one machine changes.\<close>

lemma load_update:
  assumes "i < nmach s"
  shows "load (s\<lparr>nodes := (nodes s)(i := n')\<rparr>) + size (flight (nthr s) (nodes s i)) =
    load s + size (flight (nthr s) n')"
  using sum_table_update [OF assms, of "\<lambda>_ n. size (flight (nthr s) n)" "nodes s" n']
  by (simp add: load_def)

lemma tasks_update:
  fixes s :: system and i :: nat
  assumes "i < nmach s"
  defines "g \<equiv> \<lambda>p. (word_of_int (int i), seq (msg_view p))"
  shows "tasks (s\<lparr>nodes := (nodes s)(i := n')\<rparr>) + image_mset g (flight (nthr s) (nodes s i)) =
    tasks s + image_mset g (flight (nthr s) n')"
  using sum_table_update [OF assms(1), of
      "\<lambda>i n. image_mset (\<lambda>p. (word_of_int (int i) :: c_int, seq (msg_view p))) (flight (nthr s) n)" "nodes s" n']
  by (simp add: tasks_def g_def)

lemma load_cong: "sctx t = c \<Longrightarrow> mctx c = mctx (sctx s) \<Longrightarrow> nodes t = nodes s \<Longrightarrow> load t = load s"
  by (simp add: load_def)

lemma tasks_cong: "sctx t = c \<Longrightarrow> mctx c = mctx (sctx s) \<Longrightarrow> nodes t = nodes s \<Longrightarrow> tasks t = tasks s"
  by (simp add: tasks_def)

section \<open>Every step keeps the invariant\<close>

lemma node_wait_step:
  assumes "node_step crc T n n'" and ok: "node_ok crc T i n" and "inside T n = {#}"
  shows "inside T n' = {#} \<and> heartbeats n' = heartbeats n"
  using assms(1)
proof cases
  case boot
  with ok assms(3) show ?thesis
    by (auto simp: inside_def sched_client_boot_def heartbeats_def node_ok_def split: prod.splits)
next
  case barrier
  have "(\<Sum>j<T. busy (workers n' j)) = {#}"
    using barrier by (intro sum_busy_none) (auto simp: bar_all_release_def)
  with barrier assms(3) show ?thesis by (simp add: inside_def bar_all_release_def heartbeats_def)
next
  case (finish j p)
  with assms(3) busy_in_sum [of j T "workers n"] show ?thesis by (auto simp: inside_def)
qed (use assms(3) in \<open>auto simp: inside_def\<close>)

lemma node_task_step:
  assumes "node_step crc T n n'" and ok: "node_ok crc T i n" and "cpc n \<noteq> CBoot"
  shows "image_mset (\<lambda>p. (r, seq (msg_view p))) (flight T n') = image_mset (\<lambda>p. (r, seq (msg_view p))) (flight T n)"
    and "size (flight T n') = size (flight T n)" and "cpc n' \<noteq> CBoot"
proof -
  show img: "image_mset (\<lambda>p. (r, seq (msg_view p))) (flight T n') = image_mset (\<lambda>p. (r, seq (msg_view p))) (flight T n)" for r :: 'b
    using flight_step [OF assms]
  proof
    assume "\<exists>p q F. flight T n = add_mset p F \<and> flight T n' = add_mset q F \<and> restamp p q"
    then obtain p q F where f: "flight T n = add_mset p F" "flight T n' = add_mset q F" "restamp p q" by blast
    with ok have "packet_ok p" by (simp add: node_ok_def)
    with f show ?thesis by (simp add: restamp_def)
  qed simp
  then show "size (flight T n') = size (flight T n)" by (metis size_image_mset)
  from assms(1,3) show "cpc n' \<noteq> CBoot"
    by (auto elim!: node_step.cases simp: bar_all_release_def sched_client_recv_def sched_client_poll_def worker_take_def
        worker_finish_def Let_def split: list.splits prod.splits if_splits)
qed

lemma node_moves_inv:
  assumes inv: "sys_inv crc s" and i: "i < nmach s" and st: "node_step crc (nthr s) (nodes s i) n'"
  shows "sys_inv crc (s\<lparr>nodes := (nodes s)(i := n')\<rparr>)"
proof -
  let ?t = "s\<lparr>nodes := (nodes s)(i := n')\<rparr>"
  from inv i have ok: "node_ok crc (nthr s) (int i) (nodes s i)" by (simp add: sys_inv_def)
  have nodes: "\<forall>j<nmach s. node_ok crc (nthr s) (int j) (nodes ?t j)"
    using inv node_ok_step [OF st ok] by (simp add: sys_inv_def)
  have phase: "phase_ok s" "tasks_ok s" using inv by (simp_all add: sys_inv_def)
  show ?thesis
  proof (cases "\<exists>c. spc s = SWait c")
    case True
    then obtain c where c: "spc s = SWait c" ..
    with phase i have "inside (nthr s) (nodes s i) = {#}" by (simp add: phase_ok_def)
    from node_wait_step [OF st ok this]
    have w: "inside (nthr s) n' = {#}" "heartbeats n' = heartbeats (nodes s i)" by auto
    have "pending ?t = pending s"
      using sum_table_same [of "\<lambda>_. heartbeats" i n' "nodes s"] w by (simp add: pending_def)
    with inv nodes c w show ?thesis
      by (auto simp: sys_inv_def phase_ok_def tasks_ok_def)
  next
    case False
    with phase i have boot: "cpc (nodes s i) \<noteq> CBoot" and d: "node_done (int i) (nodes s i)"
      by (auto simp: tasks_ok_def split: server_pc.splits)
    note step = node_task_step [OF st ok boot]
    have "load ?t = load s" using load_update [OF i, of n'] step(2) by simp
    moreover have "tasks ?t = tasks s"
      using tasks_update [OF i, of n'] step(1) [of "word_of_int (int i) :: c_int"] by simp
    moreover have "node_done (int i) n'" by (rule node_done_step [OF st ok d boot])
    ultimately show ?thesis using inv nodes False step(3)
      by (auto simp: sys_inv_def phase_ok_def tasks_ok_def split: server_pc.splits)
  qed
qed

lemma pop_up_node:
  assumes "node_ok crc T i n" "up n = p # rest"
  shows "node_ok crc T i (n\<lparr>up := rest\<rparr>)" "packet_ok p" "msg_checkcrc crc p = CRC_OK"
    "cpc n \<noteq> CBoot" "flight T n = add_mset p (flight T (n\<lparr>up := rest\<rparr>))"
    "inside T (n\<lparr>up := rest\<rparr>) = inside T n"
  using assms by (auto simp: node_ok_def flight_def inside_def split: client_pc.splits)

lemma srv_wait_inv:
  assumes inv: "sys_inv crc s" and c: "spc s = SWait c" and lt: "c < machines (mctx (sctx s))"
    and i: "i < nmach s" and u: "up (nodes s i) = p # rest"
  shows "sys_inv crc ((pop_up i s)\<lparr>spc := waitforall_recv crc c p\<rparr>)"
proof -
  from inv i have ok: "node_ok crc (nthr s) (int i) (nodes s i)" by (simp add: sys_inv_def)
  note pop = pop_up_node [OF ok u]
  have "pending ((pop_up i s)\<lparr>spc := waitforall_recv crc c p\<rparr>) + 1 = pending s"
    using sum_table_update [OF i, of "\<lambda>_. heartbeats" "nodes s" "(nodes s i)\<lparr>up := rest\<rparr>"] pop(4) u
    by (simp add: heartbeats_def pending_def pop_up_def)
  then show ?thesis
    using inv c pop u
    by (auto simp: sys_inv_def phase_ok_def tasks_ok_def pop_up_def waitforall_recv_def)
qed

lemma heartbeats_received:
  assumes inv: "sys_inv crc s" and c: "spc s = SWait c" and ge: "\<not> c < machines (mctx (sctx s))" and i: "i < nmach s"
  shows "cpc (nodes s i) \<noteq> CBoot" "flight (nthr s) (nodes s i) = {#}" "w2s (queues (nodes s i)) = []" "up (nodes s i) = []"
proof -
  have "pending s = 0" and ins: "inside (nthr s) (nodes s i) = {#}"
    using inv c ge i by (auto simp: sys_inv_def phase_ok_def)
  with i have "heartbeats (nodes s i) = 0" by (simp add: pending_def)
  with ins show "cpc (nodes s i) \<noteq> CBoot" "flight (nthr s) (nodes s i) = {#}" "w2s (queues (nodes s i)) = []"
    "up (nodes s i) = []"
    by (auto simp: heartbeats_def flight_def inside_def split: if_splits)
qed

lemma srv_ready_inv:
  assumes inv: "sys_inv crc s" and c: "spc s = SWait c" and ge: "\<not> c < machines (mctx (sctx s))"
  shows "sys_inv crc (s\<lparr>spc := SSend 0 0\<rparr>)"
proof -
  note hb = heartbeats_received [OF inv c ge]
  have "load s = 0" "tasks s = {#}" using hb(2) by (auto simp: load_def tasks_def)
  moreover have "load (s\<lparr>spc := SSend 0 0\<rparr>) = load s" "tasks (s\<lparr>spc := SSend 0 0\<rparr>) = tasks s"
    by (simp_all add: load_def tasks_def)
  ultimately show ?thesis using inv c hb
    by (auto simp: sys_inv_def phase_ok_def tasks_ok_def node_done_def)
qed

lemma send_node:
  assumes "node_ok crc T i n" "packet_ok p" "msg_checkcrc crc p = CRC_OK"
  shows "node_ok crc T i (n\<lparr>down := down n @ [p]\<rparr>)"
    "flight T (n\<lparr>down := down n @ [p]\<rparr>) = add_mset p (flight T n)"
    "node_done i n \<Longrightarrow> node_done i (n\<lparr>down := down n @ [p]\<rparr>)"
proof -
  show f: "flight T (n\<lparr>down := down n @ [p]\<rparr>) = add_mset p (flight T n)"
    by (simp add: flight_def inside_def)
  show "node_ok crc T i (n\<lparr>down := down n @ [p]\<rparr>)"
    using assms by (simp add: node_ok_def f split: client_pc.splits)
  show "node_done i n \<Longrightarrow> node_done i (n\<lparr>down := down n @ [p]\<rparr>)"
    by (simp add: node_done_def)
qed

lemma srv_send_task_inv:
  assumes inv: "sys_inv crc s" and pc: "spc s = SSend i j" and i: "i < nmach s" and j: "j < nthr s"
  shows "sys_inv crc (sched_server_send crc i j s)"
proof -
  obtain ctx p where sd: "server_sendtestmsg crc (sctx s) (int i) = (ctx, int i, p)"
    by (metis prod_cases3 server_sendtestmsg_facts(7))
  note p = server_sendtestmsg_facts [OF sd]
  let ?n = "(nodes s i)\<lparr>down := down (nodes s i) @ [p]\<rparr>"
  let ?u = "s\<lparr>nodes := (nodes s)(i := ?n)\<rparr>"
  let ?t = "sched_server_send crc i j s"
  have t: "?t = s\<lparr>sctx := (sctx s)\<lparr>outmsg := outmsg (sctx s) + 1\<rparr>, spc := SSend i (j + 1),
      nodes := (nodes s)(i := ?n), sent := sent s @ [(dst (msg_view p), seq (msg_view p))]\<rparr>"
    using i j sd p(8) by (simp add: sched_server_send_def Let_def)
  from inv i have ok: "node_ok crc (nthr s) (int i) (nodes s i)" by (simp add: sys_inv_def)
  note n = send_node [OF ok p(1,2)]
  have ld: "load ?t = load s + 1"
    using load_update [OF i, of ?n] n(2) load_cong [of ?t _ ?u] by (simp add: t)
  have tk: "tasks ?t = add_mset (word_of_int (int i), seq (msg_view p)) (tasks s)"
    using tasks_update [OF i, of ?n] n(2) tasks_cong [of ?t _ ?u] by (simp add: t)
  have "phase_ok ?t" using inv pc i j ld by (simp add: sys_inv_def phase_ok_def t algebra_simps)
  moreover have "tasks_ok ?t" using inv pc i n(3) tk p(4) by (auto simp: sys_inv_def tasks_ok_def t)
  ultimately show ?thesis using inv n(1) by (simp add: sys_inv_def t)
qed

lemma srv_send_inv:
  assumes inv: "sys_inv crc s" and pc: "spc s = SSend i j"
  shows "sys_inv crc (sched_server_send crc i j s)"
proof (cases "i < nmach s \<and> j < nthr s")
  case True
  then show ?thesis using srv_send_task_inv [OF inv pc] by blast
next
  case False
  then obtain pc' where t: "sched_server_send crc i j s = s\<lparr>spc := pc'\<rparr>"
    and pc': "pc' = (if i < nmach s then SSend (i + 1) 0 else SRecv 0)"
    by (auto simp: sched_server_send_def)
  have "load (s\<lparr>spc := pc'\<rparr>) = load s" "tasks (s\<lparr>spc := pc'\<rparr>) = tasks s"
    by (simp_all add: load_def tasks_def)
  with inv pc False show ?thesis unfolding t
    by (auto simp: sys_inv_def phase_ok_def tasks_ok_def pc')
qed

lemma srv_recv_inv:
  assumes inv: "sys_inv crc s" and pc: "spc s = SRecv k" and k: "k < nmach s * nthr s"
    and i: "i < nmach s" and u: "up (nodes s i) = p # rest"
  shows "sys_inv crc (sched_server_recv crc k p (pop_up i s))"
proof -
  from inv i have ok: "node_ok crc (nthr s) (int i) (nodes s i)" by (simp add: sys_inv_def)
  note pop = pop_up_node [OF ok u]
  let ?n = "(nodes s i)\<lparr>up := rest\<rparr>"
  let ?u = "s\<lparr>nodes := (nodes s)(i := ?n)\<rparr>"
  let ?t = "sched_server_recv crc k p (pop_up i s)"
  let ?m = "msg_view p"
  have t: "?t = s\<lparr>sctx := (sctx s)\<lparr>inmsg := inmsg (sctx s) + 1\<rparr>, spc := SRecv (k + 1),
      nodes := (nodes s)(i := ?n), acked := acked s @ [(src ?m, seq ?m, status ?m)]\<rparr>"
    using pop(2,3) u by (simp add: sched_server_recv_def pop_up_def Let_def)
  have ld: "load ?t + 1 = load s"
    using load_update [OF i, of ?n] pop(5) load_cong [of ?t _ ?u] by (simp add: t)
  have tk: "tasks s = add_mset (word_of_int (int i), seq ?m) (tasks ?t)"
    using tasks_update [OF i, of ?n] pop(5) tasks_cong [of ?t _ ?u] by (simp add: t)
  have d: "node_done (int i) (nodes s i)" using inv pc i by (simp add: sys_inv_def tasks_ok_def)
  then have m: "status ?m = MSGSTATUS_DONE" "src ?m = word_of_int (int i)" "node_done (int i) ?n"
    using u by (simp_all add: node_done_def)
  have "phase_ok ?t" using inv pc ld
    by (simp add: sys_inv_def phase_ok_def t) (simp flip: ld)
  moreover have "tasks_ok ?t" using inv pc i tk m by (auto simp: sys_inv_def tasks_ok_def t)
  ultimately show ?thesis using inv pop(1) by (simp add: sys_inv_def t)
qed

lemma round_over:
  assumes "sys_inv crc s" and "spc s = SRecv k" and "\<not> k < nmach s * nthr s"
  shows "load s = 0" "inmsg (sctx s) = outmsg (sctx s)" "tasks s = {#}"
proof -
  show l: "load s = 0" using assms by (simp add: sys_inv_def phase_ok_def)
  with assms show "inmsg (sctx s) = outmsg (sctx s)" by (simp add: sys_inv_def phase_ok_def)
  from l show "tasks s = {#}" by (simp add: load_def tasks_def)
qed

lemma srv_round_inv:
  assumes inv: "sys_inv crc s" and pc: "spc s = SRecv k" and k: "\<not> k < nmach s * nthr s"
  shows "sys_inv crc (sched_server_round s)"
proof -
  have "load (s\<lparr>spc := SSend 0 0\<rparr>) = load s" "tasks (s\<lparr>spc := SSend 0 0\<rparr>) = tasks s"
    by (simp_all add: load_def tasks_def)
  with assms round_over [OF assms] show ?thesis
    by (auto simp: sys_inv_def phase_ok_def tasks_ok_def sched_server_round_def)
qed

lemma sys_step_inv: "sys_step crc s t \<Longrightarrow> sys_inv crc s \<Longrightarrow> sys_inv crc t"
  by (induction rule: sys_step.induct)
    (blast intro: srv_wait_inv srv_ready_inv srv_send_inv srv_recv_inv srv_round_inv node_moves_inv)+

lemma sys_step_config: "sys_step crc s t \<Longrightarrow> mctx (sctx t) = mctx (sctx s)"
  by (induction rule: sys_step.induct)
    (auto simp: pop_up_def sched_server_send_def sched_server_recv_def sched_server_round_def Let_def
      server_sendtestmsg_def)

lemma reachable_inv:
  assumes "reachable crc ctx pb s" "0 \<le> machines ctx" "samples pb \<le> int MAX_SAMPLE"
  shows "sys_inv crc s \<and> mctx (sctx s) = ctx"
  using assms(1)
proof (induction rule: reachable.induct)
  case start
  show ?case using init_inv [OF assms(2,3)] by (simp add: init_system_def)
next
  case (step s t)
  then show ?case using sys_step_inv sys_step_config by metis
qed

section \<open>One round of the smallest system\<close>

text \<open>One machine with one worker, run to the end of its first round.\<close>

definition demo_ctx :: context_t where
  "demo_ctx = \<lparr>machines = 1, thrdpm = 1, thrds = 1, lamda = 0, mpi_size = 2, schedrank = 1,
     expt = \<lparr>maxiter = 10, timelimit = 10\<rparr>\<rparr>"

definition demo_problem :: problem where
  "demo_problem = \<lparr>X = [], Y = [], features = 0, samples = 3, xfile = None, yfile = None, cmX = []\<rparr>"

lemma demo_config [simp]:
  "machines demo_ctx = 1" "thrdpm demo_ctx = 1" "schedrank demo_ctx = 1" "samples demo_problem = 3"
  by (simp_all add: demo_ctx_def demo_problem_def)

definition demo_node :: "client_pc \<Rightarrow> packet list \<Rightarrow> packet list \<Rightarrow> worker_pc \<Rightarrow> packet list \<Rightarrow> packet list \<Rightarrow> nat \<Rightarrow> node" where
  "demo_node c qs qw w d u = (init_node demo_ctx)(0 :=
     \<lparr>cctx = \<lparr>rank = 0, inmsg = 0, outmsg = 0, mctx = demo_ctx\<rparr>, cpc = c, queues = \<lparr>s2w = qs, w2s = qw\<rparr>,
       workers = (\<lambda>_. WBarrier)(0 := w), down = d, up = u\<rparr>)"

definition demo_sys :: "server_pc \<Rightarrow> c_int \<Rightarrow> c_int \<Rightarrow> (nat \<Rightarrow> node) \<Rightarrow> (c_int \<times> c_int) list \<Rightarrow> (c_int \<times> c_int \<times> c_int) list \<Rightarrow> system" where
  "demo_sys pc i out ns st ak = \<lparr>spc = pc, sctx = \<lparr>rank = 1, inmsg = i, outmsg = out, mctx = demo_ctx\<rparr>,
     nodes = ns, sent = st, acked = ak\<rparr>"

lemma reachable_node:
  "reachable crc ctx pb s \<Longrightarrow> i < nmach s \<Longrightarrow> node_step crc (nthr s) (nodes s i) n' \<Longrightarrow>
     t = s\<lparr>nodes := (nodes s)(i := n')\<rparr> \<Longrightarrow> reachable crc ctx pb t"
  by (auto intro: reachable.step sys_step.node_moves)

lemma reachable_srv:
  "reachable crc ctx pb s \<Longrightarrow> sys_step crc s u \<Longrightarrow> t = u \<Longrightarrow> reachable crc ctx pb t"
  by (auto intro: reachable.step)

lemma demo_booted:
  "\<exists>hb. packet_ok hb \<and> msg_checkcrc crc hb = CRC_OK \<and>
     reachable crc demo_ctx demo_problem (demo_sys (SWait 0) 0 0 (demo_node CBarrier [] [] WBarrier [] [hb]) [] [])"
proof -
  define cc where "cc = \<lparr>rank = 0, inmsg = 0, outmsg = 0, mctx = demo_ctx\<rparr>"
  define hb where "hb = snd (sendheartbeat crc cc)"
  have hb: "packet_ok hb" "msg_checkcrc crc hb = CRC_OK" "sendheartbeat crc cc = (1, hb)"
    using sendheartbeat_facts [of crc cc] by (simp_all add: hb_def sendheartbeat_def Let_def cc_def)
  let ?R = "\<lambda>n. reachable crc demo_ctx demo_problem (demo_sys (SWait 0) 0 0 n [] [])"
  note defs = demo_sys_def demo_node_def init_node_def fun_eq_iff
  have "init_system demo_ctx demo_problem = demo_sys (SWait 0) 0 0 (demo_node CBoot [] [] WBarrier [] []) [] []"
    using sched_server_boot_ok [of demo_problem] by (simp add: init_system_def defs)
  with reachable.start [of crc demo_ctx demo_problem]
  have "?R (demo_node CBoot [] [] WBarrier [] [])" by simp
  then have "?R (demo_node CBarrier [] [] WBarrier [] [hb])"
    by (rule reachable_node [where i = 0, OF _ _ node_step.boot])
      (use hb(3) in \<open>simp_all add: defs sched_client_boot_def cc_def\<close>)
  with hb(1,2) show ?thesis by blast
qed

lemma demo_round:
  "\<exists>s. reachable crc demo_ctx demo_problem s \<and> spc s = SRecv 1 \<and> nmach s = 1 \<and> nthr s = 1 \<and>
     sent s = [(0, 0)] \<and> acked s = [(0, 0, MSGSTATUS_DONE)]"
proof -
  define cc where "cc = \<lparr>rank = 0, inmsg = 0, outmsg = 0, mctx = demo_ctx\<rparr>"
  define t where "t = snd (snd (server_sendtestmsg crc \<lparr>rank = 1, inmsg = 0, outmsg = 0, mctx = demo_ctx\<rparr> 0))"
  define d where "d = set_status MSGSTATUS_DONE t"
  define a where "a = snd (client_sendtestmsg_wt_buffer crc cc d)"
  have sd: "server_sendtestmsg crc \<lparr>rank = 1, inmsg = 0, outmsg = 0, mctx = demo_ctx\<rparr> 0
      = (\<lparr>rank = 1, inmsg = 0, outmsg = 1, mctx = demo_ctx\<rparr>, 0, t)"
    by (simp add: t_def server_sendtestmsg_def Let_def)
  note t = server_sendtestmsg_facts [OF sd, simplified]
  have d: "packet_ok d" "seq (msg_view d) = 0" "status (msg_view d) = MSGSTATUS_DONE"
    using t by (simp_all add: d_def)
  have a: "packet_ok a" "msg_checkcrc crc a = CRC_OK" "seq (msg_view a) = 0"
    "status (msg_view a) = MSGSTATUS_DONE" "src (msg_view a) = 0"
    "client_sendtestmsg_wt_buffer crc cc d = (1, a)"
    using client_sendtestmsg_wt_buffer_facts [OF d(1), of crc cc] d
    by (simp_all add: a_def cc_def client_sendtestmsg_wt_buffer_def Let_def)
  let ?R = "\<lambda>pc i out n st ak. reachable crc demo_ctx demo_problem (demo_sys pc i out n st ak)"
  let ?N = demo_node
  note defs = demo_sys_def demo_node_def init_node_def fun_eq_iff
  obtain hb where hb: "packet_ok hb" "msg_checkcrc crc hb = CRC_OK"
    and "?R (SWait 0) 0 0 (?N CBarrier [] [] WBarrier [] [hb]) [] []" using demo_booted by blast
  from this(3) have "?R (SWait 1) 0 0 (?N CBarrier [] [] WBarrier [] []) [] []"
    by (rule reachable_srv [OF _ sys_step.srv_wait [where i = 0 and c = 0 and p = hb and rest = "[]"]])
      (use hb in \<open>simp_all add: defs pop_up_def waitforall_recv_def\<close>)
  then have "?R (SSend 0 0) 0 0 (?N CBarrier [] [] WBarrier [] []) [] []"
    by (rule reachable_srv [OF _ sys_step.srv_ready [where c = 1]]) (simp_all add: defs)
  then have "?R (SSend 0 1) 0 1 (?N CBarrier [] [] WBarrier [t] []) [(0, 0)] []"
    by (rule reachable_srv [OF _ sys_step.srv_send [where i = 0 and j = 0]])
      (use sd t in \<open>simp_all add: defs sched_server_send_def Let_def\<close>)
  then have "?R (SSend 1 0) 0 1 (?N CBarrier [] [] WBarrier [t] []) [(0, 0)] []"
    by (rule reachable_srv [OF _ sys_step.srv_send [where i = 0 and j = 1]])
      (simp_all add: defs sched_server_send_def)
  then have "?R (SRecv 0) 0 1 (?N CBarrier [] [] WBarrier [t] []) [(0, 0)] []"
    by (rule reachable_srv [OF _ sys_step.srv_send [where i = 1 and j = 0]])
      (simp_all add: defs sched_server_send_def)
  then have "?R (SRecv 0) 0 1 (?N CLoop [] [] WIdle [t] []) [(0, 0)] []"
    by (rule reachable_node [where i = 0, OF _ _ node_step.barrier])
      (simp_all add: defs bar_all_release_def)
  then have "?R (SRecv 0) 0 1 (?N CLoop [t] [] WIdle [] []) [(0, 0)] []"
    by (rule reachable_node [where i = 0, OF _ _ node_step.recv [where p = t and rest = "[]"]])
      (use t in \<open>simp_all add: defs sched_client_recv_def\<close>)
  then have "?R (SRecv 0) 0 1 (?N CLoop [] [] (WBusy t) [] []) [(0, 0)] []"
    by (rule reachable_node [where i = 0, OF _ _ node_step.take [where j = 0]])
      (simp_all add: defs worker_take_def)
  then have "?R (SRecv 0) 0 1 (?N CLoop [] [d] WIdle [] []) [(0, 0)] []"
    by (rule reachable_node [where i = 0, OF _ _ node_step.finish [where j = 0 and p = t]])
      (simp_all add: defs worker_finish_def d_def)
  then have "?R (SRecv 0) 0 1 (?N CLoop [] [] WIdle [] [a]) [(0, 0)] []"
    by (rule reachable_node [where i = 0, OF _ _ node_step.poll])
      (use a(6) in \<open>simp_all add: defs sched_client_poll_def cc_def\<close>)
  then have "?R (SRecv 1) 1 1 (?N CLoop [] [] WIdle [] []) [(0, 0)] [(0, 0, MSGSTATUS_DONE)]"
    by (rule reachable_srv [OF _ sys_step.srv_recv [where i = 0 and k = 0 and p = a and rest = "[]"]])
      (use a in \<open>simp_all add: defs pop_up_def sched_server_recv_def Let_def\<close>)
  then show ?thesis by (intro exI conjI, assumption) (simp_all add: demo_sys_def)
qed

lemma sys_progress:
  assumes "reachable crc ctx pb s" and "0 < machines ctx" and "0 < thrdpm ctx"
    and "samples pb \<le> int MAX_SAMPLE"
  shows "\<exists>t. sys_step crc s t"
proof -
  from reachable_inv [OF assms(1) _ assms(4)] assms(2)
  have inv: "sys_inv crc s" and cfg: "mctx (sctx s) = ctx" by auto
  have T: "0 < nthr s" using cfg assms(3) by simp
  have moves: "\<exists>t. sys_step crc s t"
    if "i < nmach s" "cpc (nodes s i) \<noteq> CLoop \<or> inside (nthr s) (nodes s i) \<noteq> {#}" for i
  proof -
    from inv that(1) have "node_ok crc (nthr s) (int i) (nodes s i)" by (simp add: sys_inv_def)
    from node_progress [OF this T that(2)] show ?thesis using sys_step.node_moves that(1) by blast
  qed
  show ?thesis
  proof (cases "spc s")
    case (SWait c)
    show ?thesis
    proof (cases "c < machines (mctx (sctx s))")
      case True
      with inv SWait have "pending s \<noteq> 0" by (auto simp: sys_inv_def phase_ok_def)
      then obtain i where i: "i < nmach s" "heartbeats (nodes s i) \<noteq> 0"
        unfolding pending_def by (meson lessThan_iff sum.neutral)
      show ?thesis
      proof (cases "cpc (nodes s i) = CBoot")
        case True
        then show ?thesis using moves [OF i(1)] by simp
      next
        case False
        with i obtain p rest where "up (nodes s i) = p # rest"
          by (auto simp: heartbeats_def neq_Nil_conv)
        from sys_step.srv_wait [OF SWait True i(1) this] show ?thesis ..
      qed
    qed (use SWait in \<open>blast intro: sys_step.srv_ready\<close>)
  next
    case (SRecv k)
    show ?thesis
    proof (cases "k < nmach s * nthr s")
      case True
      with inv SRecv have "load s \<noteq> 0" by (auto simp: sys_inv_def phase_ok_def)
      then obtain i where i: "i < nmach s" "flight (nthr s) (nodes s i) \<noteq> {#}"
        by (auto simp: load_def)
      show ?thesis
      proof (cases "up (nodes s i)")
        case Nil
        with i moves [OF i(1)] show ?thesis by (simp add: flight_def)
      next
        case (Cons p rest)
        from sys_step.srv_recv [OF SRecv True i(1) this] show ?thesis ..
      qed
    qed (use SRecv in \<open>blast intro: sys_step.srv_round\<close>)
  qed (use inv in \<open>auto simp: sys_inv_def phase_ok_def intro: sys_step.srv_send\<close>)
qed

section \<open>What the system guarantees\<close>

text \<open>
  C1. In every reachable state of the running system no assertion has failed: not the checksum
  assertions of \<open>waitforall\<close>, \<open>sched_client\<close> and \<open>sched_server\<close>, not \<open>inmsg == outmsg\<close> at the
  end of a round. The counters are 32 bit and may wrap around.
\<close>

theorem assertions_hold:
  assumes "reachable crc ctx pb s" and "0 \<le> machines ctx" and "samples pb \<le> int MAX_SAMPLE"
  shows "(\<forall>e. spc s \<noteq> SFail e) \<and> (\<forall>i<nmach s. \<forall>e. cpc (nodes s i) \<noteq> CFail e) \<and>
    (\<forall>k. spc s = SRecv k \<longrightarrow> \<not> k < nmach s * nthr s \<longrightarrow> inmsg (sctx s) = outmsg (sctx s))"
proof -
  from reachable_inv [OF assms] have inv: "sys_inv crc s" ..
  then have "\<forall>i<nmach s. \<forall>e. cpc (nodes s i) \<noteq> CFail e"
    by (auto simp: sys_inv_def node_ok_def)
  moreover have "\<forall>e. spc s \<noteq> SFail e" using inv by (auto simp: sys_inv_def phase_ok_def)
  ultimately show ?thesis using round_over(2) [OF inv] by blast
qed

theorem assertions_hold_witness:
  "\<exists>s. reachable (\<lambda>_. 0) demo_ctx demo_problem s \<and> acked s = [(0, 0, MSGSTATUS_DONE)] \<and> (\<forall>e. spc s \<noteq> SFail e)"
proof -
  obtain s where s: "reachable (\<lambda>_. 0) demo_ctx demo_problem s" "acked s = [(0, 0, MSGSTATUS_DONE)]"
    using demo_round by blast
  from assertions_hold [OF s(1)] s show ?thesis by auto
qed

text \<open>
  C2. Every packet has its type: in every reachable state all packets on the MPI channels, in the task queues and in the
  hands of a worker are buffers of exactly \<open>MSGSIZE\<close> bytes, so that no access to a message or to the checksum
  is out of range; those on a channel carry a valid checksum, and every machine keeps its rank.
\<close>

theorem packets_well_formed:
  assumes "reachable crc ctx pb s" and "0 \<le> machines ctx" and "samples pb \<le> int MAX_SAMPLE" and "i < nmach s"
  shows "rank (cctx (nodes s i)) = int i \<and>
    (\<forall>p \<in> set (down (nodes s i)) \<union> set (up (nodes s i)). length p = MSGSIZE \<and> msg_checkcrc crc p = CRC_OK) \<and>
    (\<forall>p \<in> set (s2w (queues (nodes s i))) \<union> set (w2s (queues (nodes s i))). length p = MSGSIZE) \<and>
    (\<forall>j<nthr s. \<forall>p. workers (nodes s i) j = WBusy p \<longrightarrow> length p = MSGSIZE)"
proof -
  from reachable_inv [OF assms(1-3)] have "sys_inv crc s" ..
  then have ok: "node_ok crc (nthr s) (int i) (nodes s i)" using assms(4) by (simp add: sys_inv_def)
  have "length p = MSGSIZE" if "j < nthr s" "workers (nodes s i) j = WBusy p" for j p
    using busy_in_sum [OF that(1), of "workers (nodes s i)"] that(2) ok
    by (auto simp: node_ok_def flight_def inside_def packet_ok_def)
  with ok show ?thesis by (auto simp: node_ok_def flight_def inside_def packet_ok_def)
qed

theorem packets_well_formed_witness:
  "\<exists>s. reachable (\<lambda>_. 0) demo_ctx demo_problem s \<and>
     (\<exists>hb. up (nodes s 0) = [hb] \<and> length hb = MSGSIZE \<and> msg_checkcrc (\<lambda>_. 0) hb = CRC_OK)"
proof -
  let ?s = "\<lambda>hb. demo_sys (SWait 0) 0 0 (demo_node CBarrier [] [] WBarrier [] [hb]) [] []"
  obtain hb where r: "reachable (\<lambda>_. 0) demo_ctx demo_problem (?s hb)" using demo_booted by blast
  have up: "up (nodes (?s hb) 0) = [hb]" "0 < nmach (?s hb)" by (simp_all add: demo_sys_def demo_node_def)
  from packets_well_formed [OF r _ _ up(2)] up(1) have "length hb = MSGSIZE \<and> msg_checkcrc (\<lambda>_. 0) hb = CRC_OK"
    by simp
  with r up(1) show ?thesis by blast
qed

text \<open>
  C3. When the receive loop of a round is over, the acknowledgements received so far are exactly
  the tasks dispatched so far: each task (machine and sequence number) came back once, from the
  machine it was sent to, with the status set to done.
\<close>

theorem every_task_acknowledged:
  assumes "reachable crc ctx pb s" and "0 \<le> machines ctx" and "samples pb \<le> int MAX_SAMPLE"
    and "spc s = SRecv k" and "\<not> k < nmach s * nthr s"
  shows "mset (sent s) = image_mset (\<lambda>(from, sq, st). (from, sq)) (mset (acked s)) \<and>
    (\<forall>(from, sq, st) \<in> set (acked s). st = MSGSTATUS_DONE)"
proof -
  from reachable_inv [OF assms(1-3)] have inv: "sys_inv crc s" ..
  from round_over(3) [OF inv assms(4,5)] inv assms(4) show ?thesis
    by (auto simp: sys_inv_def tasks_ok_def)
qed

theorem every_task_acknowledged_witness:
  "\<exists>s. reachable (\<lambda>_. 0) demo_ctx demo_problem s \<and> sent s = [(0, 0)] \<and>
     mset (sent s) = image_mset (\<lambda>(from, sq, st). (from, sq)) (mset (acked s))"
proof -
  obtain s where s: "reachable (\<lambda>_. 0) demo_ctx demo_problem s" "spc s = SRecv 1"
    "nmach s = 1" "nthr s = 1" "sent s = [(0, 0)]"
    using demo_round [of "\<lambda>_. 0"] by blast
  then have "\<not> (1::nat) < nmach s * nthr s" by simp
  from every_task_acknowledged [OF s(1) _ _ s(2) this] s show ?thesis by auto
qed

text \<open>
  C9. The system never gets stuck: with at least one machine and one worker per machine, in every
  reachable state some thread can make a step that is not an idle turn of a polling loop.
\<close>

theorem system_never_stuck:
  assumes "reachable crc ctx pb s" and "0 < machines ctx" and "0 < thrdpm ctx"
    and "samples pb \<le> int MAX_SAMPLE"
  shows "\<exists>t. sys_step crc s t"
  using assms by (rule sys_progress)

theorem system_never_stuck_witness:
  "\<exists>t. sys_step (\<lambda>_. 0) (init_system demo_ctx demo_problem) t"
  using system_never_stuck [OF reachable.start [of "\<lambda>_. 0" demo_ctx demo_problem]] by simp

end
