(* ===== verification/Mpi_Rounds.thy ===== *)
theory Mpi_Rounds
  imports Mpi_System
begin

text \<open>
  The rounds of the scheduler end. The work left in the current round is a number: what the scheduler
  still has to send and receive, and how far each packet is from being acknowledged. Every step of
  every thread makes it smaller, until the round is over. So, whatever the interleaving, rounds follow
  one another for ever.
\<close>

section \<open>The work left\<close>

fun boot_work :: "client_pc \<Rightarrow> nat" where
  "boot_work CBoot = 2"
| "boot_work CBarrier = 1"
| "boot_work _ = 0"

definition node_work :: "nat \<Rightarrow> node \<Rightarrow> nat" where
  "node_work T n = boot_work (cpc n) + 4 * length (down n) + 3 * length (s2w (queues n))
     + 2 * (\<Sum>j<T. size (busy (workers n j))) + length (w2s (queues n))"

text \<open>Tasks that the dispatch loops have still to send from the indices \<open>i\<close>, \<open>j\<close> on.\<close>

definition to_send :: "nat \<Rightarrow> nat \<Rightarrow> nat \<Rightarrow> nat \<Rightarrow> nat" where
  "to_send M T i j = (if i < M then (M - i - 1) * T + (T - j) else 0)"

definition send_work :: "nat \<Rightarrow> nat \<Rightarrow> nat \<Rightarrow> nat \<Rightarrow> nat" where
  "send_work M T i j = 5 * to_send M T i j + (M - i) + 1 + M * T"

fun server_work :: "nat \<Rightarrow> nat \<Rightarrow> server_pc \<Rightarrow> nat" where
  "server_work M T (SWait c) = nat (int M - c) + 1 + send_work M T 0 0"
| "server_work M T (SSend i j) = send_work M T i j"
| "server_work M T (SRecv k) = M * T - k"
| "server_work M T (SFail e) = 0"

definition round_work :: "system \<Rightarrow> nat" where
  "round_work s = server_work (nmach s) (nthr s) (spc s) + (\<Sum>i<nmach s. node_work (nthr s) (nodes s i))"

definition round_done :: "system \<Rightarrow> bool" where
  "round_done s = (case spc s of SRecv k \<Rightarrow> \<not> k < nmach s * nthr s | _ \<Rightarrow> False)"

section \<open>Every step does some of the work\<close>

lemma node_step_works:
  assumes "node_step crc T n n'"
  shows "node_work T n' < node_work T n"
  using assms
proof cases
  case (barrier)
  then have "(\<Sum>j<T. size (busy (workers n j))) = 0" by simp
  with barrier show ?thesis by (simp add: node_work_def bar_all_release_def)
next
  case (take j)
  then obtain y ys where "s2w (queues n) = y # ys" by (auto simp: neq_Nil_conv)
  then show ?thesis
    using take sum_table_update [of j T "\<lambda>_ w. size (busy w)" "workers n" "WBusy y"]
    by (simp add: node_work_def worker_take_def)
next
  case (finish j p)
  then show ?thesis
    using sum_table_update [of j T "\<lambda>_ w. size (busy w)" "workers n" WIdle]
    by (auto simp: node_work_def worker_finish_def Let_def)
qed (auto simp: node_work_def sched_client_boot_def sched_client_recv_def sched_client_poll_def Let_def neq_Nil_conv
      split: prod.splits)

lemma to_send_step [simp]:
  "i < M \<Longrightarrow> j < T \<Longrightarrow> to_send M T i j = Suc (to_send M T i (Suc j))"
  "i < M \<Longrightarrow> \<not> j < T \<Longrightarrow> to_send M T (Suc i) 0 = to_send M T i j"
  by (auto simp: to_send_def dest: less_imp_Suc_add)

lemma send_work_step: "i < M \<Longrightarrow> j < T \<Longrightarrow> send_work M T i j = send_work M T i (Suc j) + 5"
  by (simp add: send_work_def)

lemma send_work_row: "i < M \<Longrightarrow> \<not> j < T \<Longrightarrow> send_work M T (Suc i) 0 < send_work M T i j"
  by (simp add: send_work_def del: Nat.add_diff_assoc Nat.add_diff_assoc2)

lemma send_work_rest: "M * T < send_work M T i j"
  by (simp add: send_work_def)

lemma server_sendtestmsg_dest:
  "server_sendtestmsg crc c d = (c', dest, p) \<Longrightarrow> dest = d \<and> mctx c' = mctx c"
  by (auto simp: server_sendtestmsg_def Let_def)

lemma send_step_works:
  assumes "spc s = SSend i j"
  shows "round_work (sched_server_send crc i j s) < round_work s"
proof (cases "i < nmach s \<and> j < nthr s")
  case True
  obtain c dest p where sd: "server_sendtestmsg crc (sctx s) (int i) = (c, dest, p)" by (metis prod_cases3)
  have "node_work (nthr s) ((nodes s i)\<lparr>down := down (nodes s i) @ [p]\<rparr>) = node_work (nthr s) (nodes s i) + 4"
    by (simp add: node_work_def)
  with True assms sd server_sendtestmsg_dest [OF sd]
    sum_table_update [of i "nmach s" "\<lambda>_. node_work (nthr s)" "nodes s" "(nodes s i)\<lparr>down := down (nodes s i) @ [p]\<rparr>"]
  show ?thesis by (auto simp: sched_server_send_def Let_def round_work_def send_work_step)
next
  case False
  with assms show ?thesis
    by (auto simp: sched_server_send_def round_work_def send_work_row send_work_rest)
qed

lemma pop_up_work:
  "(\<Sum>k<n. node_work T (nodes (pop_up i s) k)) = (\<Sum>k<n. node_work T (nodes s k))"
  by (rule sum.cong) (auto simp: pop_up_def node_work_def)

lemma pop_up_other [simp]:
  "spc (pop_up i s) = spc s" "sctx (pop_up i s) = sctx s"
  by (simp_all add: pop_up_def)

lemma sys_step_works:
  assumes "sys_step crc s t"
  shows "round_done s \<or> round_work t < round_work s"
  using assms
proof cases
  case (node_moves i n')
  from node_step_works [OF node_moves(3)] node_moves
    sum_table_update [of i "nmach s" "\<lambda>_. node_work (nthr s)" "nodes s" n']
  show ?thesis by (simp add: round_work_def)
next
  case (srv_wait c i p rest)
  then show ?thesis by (simp add: round_work_def waitforall_recv_def pop_up_work)
next
  case (srv_recv k i p rest)
  then show ?thesis
    by (auto simp: round_work_def sched_server_recv_def Let_def pop_up_work diff_less_mono2
        simp del: Nat.add_diff_assoc2)
next
  case (srv_send i j)
  then show ?thesis using send_step_works by blast
qed (auto simp: round_done_def round_work_def)

section \<open>Rounds follow one another for ever\<close>

text \<open>An infinite execution: any interleaving of the threads, one step after another.\<close>

definition execution :: "(byte list \<Rightarrow> u32) \<Rightarrow> context_t \<Rightarrow> problem \<Rightarrow> (nat \<Rightarrow> system) \<Rightarrow> bool" where
  "execution crc ctx pb f \<longleftrightarrow> f 0 = init_system ctx pb \<and> (\<forall>n. sys_step crc (f n) (f (Suc n)))"

lemma execution_reachable: "execution crc ctx pb f \<Longrightarrow> reachable crc ctx pb (f n)"
  by (induction n) (auto simp: execution_def intro: reachable.intros)

lemma execution_round:
  assumes "execution crc ctx pb f"
  shows "\<exists>m\<ge>n. round_done (f m)"
proof (induction "round_work (f n)" arbitrary: n rule: less_induct)
  case less
  from assms have "sys_step crc (f n) (f (Suc n))" by (simp add: execution_def)
  from sys_step_works [OF this] show ?case
    using less [of "Suc n"] by (metis Suc_leD order_refl)
qed

lemma execution_exists:
  assumes "0 < machines ctx" "0 < thrdpm ctx" "samples pb \<le> int MAX_SAMPLE"
  shows "\<exists>f. execution crc ctx pb f"
proof -
  have "\<exists>f. \<forall>n. (reachable crc ctx pb (f n) \<and> (n = 0 \<longrightarrow> f n = init_system ctx pb)) \<and>
      sys_step crc (f n) (f (Suc n))"
  proof (rule dependent_nat_choice)
    fix s and n :: nat
    assume "reachable crc ctx pb s \<and> (n = 0 \<longrightarrow> s = init_system ctx pb)"
    with sys_progress [OF _ assms] obtain t where "reachable crc ctx pb s" "sys_step crc s t" by blast
    then show "\<exists>t. (reachable crc ctx pb t \<and> (Suc n = 0 \<longrightarrow> t = init_system ctx pb)) \<and> sys_step crc s t"
      by (auto intro: reachable.step)
  qed (auto intro: reachable.start)
  then show ?thesis by (auto simp: execution_def)
qed

text \<open>
  C8. Every round ends. In every infinite execution of the system, whatever the interleaving of the
  scheduler, the communication threads and the workers, after every moment there is a later one at
  which the receive loop of a round is over, all tasks dispatched so far have come back done, and the
  scheduler goes on to the next round. Turns of a polling loop
  that find nothing are not steps.
\<close>

theorem rounds_complete:
  assumes "execution crc ctx pb f" and "0 \<le> machines ctx" and "samples pb \<le> int MAX_SAMPLE"
  shows "\<exists>m\<ge>n. spc (f m) = SRecv (nmach (f m) * nthr (f m)) \<and>
    sched_server_round (f m) = (f m)\<lparr>spc := SSend 0 0\<rparr> \<and>
    mset (sent (f m)) = image_mset (\<lambda>(from, sq, st). (from, sq)) (mset (acked (f m))) \<and>
    (\<forall>a \<in> set (acked (f m)). snd (snd a) = MSGSTATUS_DONE)"
proof -
  from execution_round [OF assms(1)] obtain m where m: "n \<le> m" "round_done (f m)" by blast
  then obtain k where k: "spc (f m) = SRecv k" "\<not> k < nmach (f m) * nthr (f m)"
    by (auto simp: round_done_def split: server_pc.splits)
  from reachable_inv [OF execution_reachable [OF assms(1)] assms(2,3)]
  have inv: "sys_inv crc (f m)" by blast
  note over = round_over [OF inv k]
  from inv k(1) over have "k = nmach (f m) * nthr (f m)" by (simp add: sys_inv_def phase_ok_def load_def)
  moreover have "sched_server_round (f m) = (f m)\<lparr>spc := SSend 0 0\<rparr>"
    using over(2) by (simp add: sched_server_round_def)
  ultimately show ?thesis using m(1) k(1) inv over(3)
    by (intro exI [of _ m]) (auto simp: sys_inv_def tasks_ok_def)
qed

theorem rounds_complete_witness:
  "\<exists>f. execution (\<lambda>_. 0) demo_ctx demo_problem f \<and> (\<exists>m\<ge>10. spc (f m) = SRecv (nmach (f m) * nthr (f m)))"
proof -
  obtain f where f: "execution (\<lambda>_. 0) demo_ctx demo_problem f"
    using execution_exists [of demo_ctx demo_problem] by (auto simp: demo_ctx_def demo_problem_def)
  from rounds_complete [OF f, of 10] show ?thesis using f by auto
qed

end
