(* ===== verification/Mpi_Graph.thy ===== *)
theory Mpi_Graph
  imports Mpi_Packet
begin

text \<open>
  The correlation graph and its search for weakly correlated variables (\<open>src/mpi/dgraph.cpp\<close>).
  The adjacency matrices are functions on indices below \<open>features\<close>; an entry 1000
  (\<open>DGINVALIDENTRY\<close>) means that the edge was taken out. \<open>getcorr_pair\<close> is not part of the
  repository and is an argument. Theorems: \<open>findset\<close> returns distinct variables that no earlier call
  returned, greedily minimal, exactly as many as asked for when they exist, and \<open>recoverdgraph\<close> undoes it.
\<close>

type_synonym adjmat = "nat \<Rightarrow> nat \<Rightarrow> double"

definition DGINVALIDENTRY :: double where [simp]: "DGINVALIDENTRY = 1000"
definition MAXVARLIST :: nat where "MAXVARLIST = 4096"

record dgraphctx =
  adj :: adjmat
  adjcopy :: adjmat
  dg_features :: nat
  workmem :: "nat \<Rightarrow> double"

definition upd :: "nat \<Rightarrow> nat \<Rightarrow> double \<Rightarrow> adjmat \<Rightarrow> adjmat" where
  "upd i j v a = a(i := (a i)(j := v))"

lemma upd_apply: "upd i j v a r c = (if r = i \<and> c = j then v else a r c)"
  by (simp add: upd_def)

section \<open>Building the graph\<close>

definition initdgraph :: "problem \<Rightarrow> dgraphctx" where
  "initdgraph cfg = \<lparr>adj = (\<lambda>_ _. DGINVALIDENTRY), adjcopy = (\<lambda>_ _. 0),
     dg_features = nat (features cfg), workmem = (\<lambda>_. 0)\<rparr>"

text \<open>The index pairs of the loops \<open>for(i=0; i<features-1; i++) for(j=i+1; j<features; j++)\<close>.\<close>

definition upper :: "nat \<Rightarrow> (nat \<times> nat) list" where
  "upper n = concat (map (\<lambda>i. map (Pair i) [i + 1..<n]) [0..<n - 1])"

lemma set_upper [simp]: "set (upper n) = {(i, j). i < j \<and> j < n}"
  by (force simp: upper_def)

definition copy_all :: "nat \<Rightarrow> adjmat \<Rightarrow> adjmat \<Rightarrow> adjmat" where
  "copy_all n from to = fold (\<lambda>(i, j) a. upd i j (from i j) a) (List.product [0..<n] [0..<n]) to"

definition getcorrinfo :: "(double list \<Rightarrow> double list \<Rightarrow> int \<Rightarrow> double) \<Rightarrow> problem \<Rightarrow> dgraphctx \<Rightarrow> dgraphctx" where
  "getcorrinfo getcorr_pair cfg dg =
     (let n = nat (features cfg);
          a = fold (\<lambda>(i, j) a. upd i j (getcorr_pair (cmX cfg ! i) (cmX cfg ! j) (samples cfg)) a)
                (upper n) (adj dg);
          a = fold (\<lambda>i a. upd i i DGINVALIDENTRY (fold (\<lambda>j a. upd j i (a i j) a) [i + 1..<n] a))
                [0..<n - 1] a
      in dg\<lparr>adj := a, adjcopy := copy_all n a (adjcopy dg)\<rparr>)"

definition recoverdgraph :: "problem \<Rightarrow> dgraphctx \<Rightarrow> dgraphctx" where
  "recoverdgraph cfg dg = dg\<lparr>adj := copy_all (nat (features cfg)) (adjcopy dg) (adj dg)\<rparr>"

definition diminishgraphcol :: "nat \<Rightarrow> nat \<Rightarrow> adjmat \<Rightarrow> adjmat" where
  "diminishgraphcol n col a = fold (\<lambda>row a. upd row col DGINVALIDENTRY a) [0..<n] a"

definition diminishgraphrow :: "nat \<Rightarrow> nat \<Rightarrow> adjmat \<Rightarrow> adjmat" where
  "diminishgraphrow n row a = fold (\<lambda>col a. upd row col DGINVALIDENTRY a) [0..<n] a"

section \<open>Choosing a set\<close>

text \<open>A loop that keeps the candidate with the least key; \<open>None\<close> is \<open>continue\<close>.\<close>

fun scan_min :: "('a \<Rightarrow> double option) \<Rightarrow> 'a list \<Rightarrow> 'a \<times> double \<Rightarrow> 'a \<times> double" where
  "scan_min key [] m = m"
| "scan_min key (x # xs) m =
     scan_min key xs (case key x of None \<Rightarrow> m | Some k \<Rightarrow> if k < snd m then (x, k) else m)"

definition min_pair :: "nat \<Rightarrow> adjmat \<Rightarrow> (nat \<times> nat) \<times> double" where
  "min_pair n a =
     scan_min (\<lambda>(i, j). if a i j = DGINVALIDENTRY then None else Some \<bar>a i j\<bar>) (upper n) ((0, 0), 1000)"

text \<open>The work memory for a pocket item \<open>t\<close>: the summed correlation of a column with the set.\<close>

definition fill_workmem :: "nat \<Rightarrow> adjmat \<Rightarrow> nat \<Rightarrow> nat list \<Rightarrow> nat \<Rightarrow> double" where
  "fill_workmem n a t vs j =
     (if a t j = DGINVALIDENTRY then 1000 else sum_list (map (\<lambda>v. \<bar>a v j\<bar>) vs))"

text \<open>
  The \<open>while\<close> loop: \<open>vs\<close> is the content of \<open>set->vlist\<close> up to \<open>set->num\<close>, \<open>p\<close> the value left in
  \<open>minp.i\<close>. The result is the depletion flag, the set and the graph.
\<close>

function findset_loop :: "nat \<Rightarrow> nat \<Rightarrow> nat list \<Rightarrow> nat \<Rightarrow> adjmat \<Rightarrow> (nat \<Rightarrow> double) \<Rightarrow>
    int \<times> nat list \<times> adjmat \<times> (nat \<Rightarrow> double)" where
  "findset_loop n m vs p a wm =
     (let t = vs ! 0;
          wm = (\<lambda>j. if j < n then fill_workmem n a t vs j else wm j);
          (p, corr) = scan_min (\<lambda>j. Some (wm j)) [0..<n] (p, 1000)
      in if corr = DGINVALIDENTRY then (-1, vs, a, wm)
         else
           let a = diminishgraphcol n p (upd t p DGINVALIDENTRY a);
               vs' = vs @ [p]
           in if m \<le> length vs' then (0, vs', a, wm) else findset_loop n m vs' p a wm)"
  by pat_completeness auto
termination
  by (relation "measure (\<lambda>(n, m, vs, p, a, wm). m - length vs)") auto

declare findset_loop.simps [simp del]

definition findset :: "int \<Rightarrow> problem \<Rightarrow> dgraphctx \<Rightarrow> (int \<times> nat list \<times> dgraphctx) outcome" where
  "findset m cfg dg =
     (let n = nat (features cfg) in
      if int MAXVARLIST < m then Inl (Exit 0)
      else
        let ((i, j), corr) = min_pair n (adj dg) in
        if corr = 1000 then Inr (-1, [], dg)
        else
          let a = diminishgraphcol n j (diminishgraphcol n i (adj dg));
              a = upd i j DGINVALIDENTRY a;
              (flag, vs, a, wm) =
                (if 0 < m then findset_loop n (nat m) [i, j] i a (workmem dg) else (0, [i, j], a, workmem dg));
              a = fold (\<lambda>v a. diminishgraphrow n v (diminishgraphcol n v a)) vs a
          in Inr (flag, vs, dg\<lparr>adj := a, workmem := wm\<rparr>))"

section \<open>Effect of the loops\<close>

lemma copy_all_apply: "copy_all n from to r c = (if r < n \<and> c < n then from r c else to r c)"
proof -
  have "fold (\<lambda>(i, j) a. upd i j (from i j) a) ps to r c = (if (r, c) \<in> set ps then from r c else to r c)" for ps
    by (induction ps arbitrary: to) (auto simp: upd_def split: if_splits)
  then show ?thesis by (auto simp: copy_all_def)
qed

lemma diminishgraphcol_apply:
  "diminishgraphcol n col a r c = (if r < n \<and> c = col then 1000 else a r c)"
proof -
  have "fold (\<lambda>row a. upd row col 1000 a) rs a r c = (if r \<in> set rs \<and> c = col then 1000 else a r c)" for rs
    by (induction rs arbitrary: a) (auto simp: upd_apply)
  then show ?thesis by (simp add: diminishgraphcol_def)
qed

lemma diminishgraphrow_apply:
  "diminishgraphrow n row a r c = (if r = row \<and> c < n then 1000 else a r c)"
proof -
  have "fold (\<lambda>col a. upd row col 1000 a) cs a r c = (if c \<in> set cs \<and> r = row then 1000 else a r c)" for cs
    by (induction cs arbitrary: a) (auto simp: upd_apply)
  then show ?thesis by (auto simp: diminishgraphrow_def)
qed

lemmas graph_apply = upd_apply diminishgraphcol_apply diminishgraphrow_apply copy_all_apply

lemma diminish_set_apply:
  "fold (\<lambda>v a. diminishgraphrow n v (diminishgraphcol n v a)) vs a r c =
     (if r < n \<and> c < n \<and> (r \<in> set vs \<or> c \<in> set vs) then 1000
      else if r < n \<and> c \<in> set vs \<or> r \<in> set vs \<and> c < n then 1000 else a r c)"
  by (induction vs arbitrary: a) (auto simp: graph_apply)

lemma scan_min_spec:
  assumes "scan_min key xs (b, v) = (b', v')"
  shows "v' \<le> v \<and> (\<forall>x \<in> set xs. \<forall>k. key x = Some k \<longrightarrow> v' \<le> k) \<and>
    (v' = v \<and> b' = b \<or> v' < v \<and> b' \<in> set xs \<and> key b' = Some v')"
  using assms
proof (induction xs arbitrary: b v)
  case Nil
  then show ?case by simp
next
  case (Cons x xs)
  show ?case
  proof (cases "key x")
    case None
    with Cons show ?thesis by auto
  next
    case (Some k)
    show ?thesis
    proof (cases "k < v")
      case True
      with Some Cons.prems have "scan_min key xs (x, k) = (b', v')" by simp
      from Cons.IH [OF this] Some True show ?thesis by fastforce
    next
      case False
      with Some Cons.prems have "scan_min key xs (b, v) = (b', v')" by simp
      from Cons.IH [OF this] Some False show ?thesis by fastforce
    qed
  qed
qed

section \<open>Correctness of the search\<close>

text \<open>\<open>C\<close> is the set of variables already taken out of the graph.\<close>

definition dg_inv :: "nat \<Rightarrow> nat set \<Rightarrow> adjmat \<Rightarrow> bool" where
  "dg_inv n C a \<longleftrightarrow> (\<forall>i<n. \<forall>j<n. (a i j = 1000 \<longleftrightarrow> i = j \<or> i \<in> C \<or> j \<in> C) \<and>
     (a i j \<noteq> 1000 \<longrightarrow> \<bar>a i j\<bar> \<le> 1))"

definition masked :: "nat \<Rightarrow> adjmat \<Rightarrow> nat list \<Rightarrow> adjmat \<Rightarrow> bool" where
  "masked n a0 vs a \<longleftrightarrow> (\<forall>i<n. \<forall>j<n. a i j = (if j \<in> set vs then 1000 else a0 i j))"

text \<open>The cost of adding a variable: its summed correlation with the variables chosen so far.\<close>

definition cost :: "adjmat \<Rightarrow> nat list \<Rightarrow> nat \<Rightarrow> double" where
  "cost a0 vs j = sum_list (map (\<lambda>v. \<bar>a0 v j\<bar>) vs)"

definition greedy :: "nat set \<Rightarrow> adjmat \<Rightarrow> nat \<Rightarrow> nat list \<Rightarrow> bool" where
  "greedy A a0 from us \<longleftrightarrow> (\<forall>k. from \<le> k \<and> k < length us \<longrightarrow>
     (\<forall>j \<in> A - set (take k us). cost a0 (take k us) (us ! k) \<le> cost a0 (take k us) j))"

text \<open>Variables are found only while their summed correlation is below the mark of invalid entries, which is 1000.\<close>

definition below_mark :: "adjmat \<Rightarrow> nat \<Rightarrow> nat list \<Rightarrow> bool" where
  "below_mark a0 from us \<longleftrightarrow> (\<forall>k. from \<le> k \<and> k < length us \<longrightarrow> cost a0 (take k us) (us ! k) < 1000)"

definition pick_ok :: "nat set \<Rightarrow> nat list \<Rightarrow> bool" where
  "pick_ok A vs \<longleftrightarrow> distinct vs \<and> set vs \<subseteq> A"

lemma cost_bound:
  assumes "dg_inv n C a0" "pick_ok ({..<n} - C) vs" "j < n" "j \<notin> C" "j \<notin> set vs"
  shows "cost a0 vs j \<le> real (length vs)"
  using assms(2,5)
proof (induction vs)
  case (Cons v vs)
  have "\<bar>a0 v j\<bar> \<le> 1"
    using assms(1,3,4) Cons.prems by (auto simp: dg_inv_def pick_ok_def)
  with Cons show ?case by (auto simp: cost_def pick_ok_def)
qed (simp add: cost_def)

lemma workmem_value:
  assumes inv: "dg_inv n C a0" and vs: "pick_ok ({..<n} - C) vs" "vs \<noteq> []" and mk: "masked n a0 vs a" and "j < n"
  shows "fill_workmem n a (vs ! 0) vs j = (if j \<in> C \<union> set vs then 1000 else cost a0 vs j)"
proof -
  have t: "vs ! 0 \<in> set vs" using vs(2) by simp
  with vs(1) have t': "vs ! 0 < n" "vs ! 0 \<notin> C" by (auto simp: pick_ok_def)
  have "a (vs ! 0) j = 1000 \<longleftrightarrow> j \<in> C \<union> set vs"
    using inv mk t t' \<open>j < n\<close> by (auto simp: dg_inv_def masked_def)
  moreover have "j \<notin> set vs \<Longrightarrow> sum_list (map (\<lambda>v. \<bar>a v j\<bar>) vs) = cost a0 vs j"
    unfolding cost_def using mk vs(1) \<open>j < n\<close>
    by (intro arg_cong [where f = sum_list] map_cong) (auto simp: masked_def pick_ok_def)
  ultimately show ?thesis by (simp add: fill_workmem_def)
qed

lemma pick_next:
  assumes inv: "dg_inv n C a0" and vs: "pick_ok ({..<n} - C) vs" "vs \<noteq> []" and mk: "masked n a0 vs a"
    and sc: "scan_min (\<lambda>j. Some (if j < n then fill_workmem n a (vs ! 0) vs j else wm j)) [0..<n] (p, 1000) = (q, corr)"
  shows "corr = 1000 \<Longrightarrow> \<forall>j \<in> {..<n} - C - set vs. 1000 \<le> cost a0 vs j"
    and "corr \<noteq> 1000 \<Longrightarrow> q \<in> {..<n} - C - set vs \<and> cost a0 vs q < 1000 \<and>
      (\<forall>j \<in> {..<n} - C - set vs. cost a0 vs q \<le> cost a0 vs j)"
proof -
  note wv = workmem_value [OF inv vs mk]
  note spec = scan_min_spec [OF sc]
  show "\<forall>j \<in> {..<n} - C - set vs. 1000 \<le> cost a0 vs j" if "corr = 1000"
    using spec that wv by force
  show "q \<in> {..<n} - C - set vs \<and> cost a0 vs q < 1000 \<and> (\<forall>j \<in> {..<n} - C - set vs. cost a0 vs q \<le> cost a0 vs j)"
    if c: "corr \<noteq> 1000"
  proof -
    have q: "q < n" "fill_workmem n a (vs ! 0) vs q = corr" "corr < 1000" using spec c by auto
    then have "q \<in> {..<n} - C - set vs" "cost a0 vs q = corr" using wv [OF q(1)] by (auto split: if_splits)
    moreover have "corr \<le> cost a0 vs j" if "j \<in> {..<n} - C - set vs" for j
      using spec that wv [of j] by force
    ultimately show ?thesis using q(3) by auto
  qed
qed

lemma masked_step:
  assumes "masked n a0 vs a" "vs ! 0 < n" "q < n"
  shows "masked n a0 (vs @ [q]) (diminishgraphcol n q (upd (vs ! 0) q DGINVALIDENTRY a))"
  using assms by (auto simp: masked_def graph_apply)

lemma findset_loop_unfold:
  assumes "wm1 = (\<lambda>j. if j < n then fill_workmem n a (vs ! 0) vs j else wm j)"
    and "scan_min (\<lambda>j. Some (wm1 j)) [0..<n] (p, 1000) = (q, corr)"
    and "a1 = diminishgraphcol n q (upd (vs ! 0) q DGINVALIDENTRY a)"
  shows "findset_loop n m vs p a wm =
    (if corr = 1000 then (-1, vs, a, wm1)
     else if m \<le> length (vs @ [q]) then (0, vs @ [q], a1, wm1)
     else findset_loop n m (vs @ [q]) q a1 wm1)"
  using assms(2) by (subst findset_loop.simps) (simp add: assms(1,3) Let_def)

lemma findset_loop_spec:
  assumes "findset_loop n m vs p a wm = (flag, us, a', wm')"
    and "dg_inv n C a0" "pick_ok ({..<n} - C) vs" "vs \<noteq> []" "masked n a0 vs a"
    and "greedy ({..<n} - C) a0 2 vs" "below_mark a0 2 vs"
  shows "pick_ok ({..<n} - C) us \<and> masked n a0 us a' \<and> greedy ({..<n} - C) a0 2 us \<and> below_mark a0 2 us \<and>
    (flag = 0 \<and> length us = max m (length vs + 1) \<or>
     flag = -1 \<and> length us < max m (length vs + 1) \<and> (\<forall>j \<in> {..<n} - C - set us. 1000 \<le> cost a0 us j)) \<and>
    (\<exists>ws. us = vs @ ws)"
  using assms
proof (induction "m - length vs" arbitrary: vs p a wm rule: less_induct)
  case less
  define wm1 where "wm1 = (\<lambda>j. if j < n then fill_workmem n a (vs ! 0) vs j else wm j)"
  obtain q corr where sc: "scan_min (\<lambda>j. Some (wm1 j)) [0..<n] (p, 1000) = (q, corr)" by fastforce
  define a1 where "a1 = diminishgraphcol n q (upd (vs ! 0) q DGINVALIDENTRY a)"
  note unf = findset_loop_unfold [OF wm1_def sc a1_def, of m]
  note pick = pick_next [OF less.prems(2-5) sc [unfolded wm1_def]]
  show ?case
  proof (cases "corr = 1000")
    case True
    with unf less.prems pick(1) [OF True] show ?thesis by simp
  next
    case False
    have q: "q < n" "q \<notin> C" "q \<notin> set vs" "cost a0 vs q < 1000" and best: "\<forall>j \<in> {..<n} - C - set vs. cost a0 vs q \<le> cost a0 vs j"
      using pick(2) [OF False] by auto
    have "vs ! 0 \<in> set vs" using less.prems(4) by simp
    then have "vs ! 0 < n" using less.prems(3) by (auto simp: pick_ok_def)
    from masked_step [OF less.prems(5) this q(1)] have mk: "masked n a0 (vs @ [q]) a1" by (simp add: a1_def)
    have ok: "pick_ok ({..<n} - C) (vs @ [q])" using less.prems(3) q by (auto simp: pick_ok_def)
    have gr: "greedy ({..<n} - C) a0 2 (vs @ [q])" "below_mark a0 2 (vs @ [q])"
      using less.prems(6,7) best q(4) by (auto simp: greedy_def below_mark_def nth_append less_Suc_eq)
    show ?thesis
    proof (cases "m \<le> length (vs @ [q])")
      case True
      with False unf less.prems(1) mk ok gr show ?thesis by auto
    next
      case again: False
      with False unf less.prems(1) have rec: "findset_loop n m (vs @ [q]) q a1 wm1 = (flag, us, a', wm')" by simp
      have "m - length (vs @ [q]) < m - length vs" using again by auto
      from less.hyps [OF this rec less.prems(2) ok _ mk gr] again show ?thesis by auto
    qed
  qed
qed

lemma min_pair_spec:
  assumes inv: "dg_inv n C a" and mp: "min_pair n a = ((i, j), corr)"
  shows "corr = 1000 \<Longrightarrow> card ({..<n} - C) < 2"
    and "corr \<noteq> 1000 \<Longrightarrow> i < j \<and> j < n \<and> i \<notin> C \<and> j \<notin> C \<and>
      (\<forall>k l. k < l \<and> l < n \<and> k \<notin> C \<and> l \<notin> C \<longrightarrow> \<bar>a i j\<bar> \<le> \<bar>a k l\<bar>)"
proof -
  note spec = scan_min_spec [OF mp [unfolded min_pair_def]]
  have valid: "a k l \<noteq> 1000" "\<bar>a k l\<bar> \<le> 1" if "k < l" "l < n" "k \<notin> C" "l \<notin> C" for k l
    using inv that by (auto simp: dg_inv_def)
  have le: "corr \<le> \<bar>a k l\<bar>" if "k < l" "l < n" "k \<notin> C" "l \<notin> C" for k l
    using spec valid [OF that] that by force
  show "card ({..<n} - C) < 2" if c: "corr = 1000"
  proof (rule ccontr)
    assume "\<not> card ({..<n} - C) < 2"
    then obtain x y where "x \<in> {..<n} - C" "y \<in> {..<n} - C" "x \<noteq> y"
      by (metis One_nat_def Suc_1 card_le_Suc0_iff_eq finite_Diff finite_lessThan less_Suc_eq_le not_le)
    then have "\<exists>k l. k < l \<and> l < n \<and> k \<notin> C \<and> l \<notin> C" by (metis DiffE lessThan_iff linorder_neqE_nat)
    with le valid c show False by fastforce
  qed
  show "i < j \<and> j < n \<and> i \<notin> C \<and> j \<notin> C \<and>
      (\<forall>k l. k < l \<and> l < n \<and> k \<notin> C \<and> l \<notin> C \<longrightarrow> \<bar>a i j\<bar> \<le> \<bar>a k l\<bar>)" if c: "corr \<noteq> 1000"
  proof -
    have ij: "i < j" "j < n" "a i j \<noteq> 1000" "corr = \<bar>a i j\<bar>" using spec c by (auto split: if_splits)
    then have "i \<notin> C" "j \<notin> C" using inv by (auto simp: dg_inv_def)
    with ij le show ?thesis by blast
  qed
qed

lemma final_inv:
  assumes inv: "dg_inv n C a0" and mk: "masked n a0 vs a" and vs: "set vs \<subseteq> {..<n}"
  shows "dg_inv n (C \<union> set vs) (fold (\<lambda>v a. diminishgraphrow n v (diminishgraphcol n v a)) vs a)"
  unfolding dg_inv_def diminish_set_apply using inv mk by (auto simp: dg_inv_def masked_def)

text \<open>How many variables are returned when enough are left: the loop body runs once even when two were asked for.\<close>

definition asked_for :: "int \<Rightarrow> nat" where
  "asked_for m = (if 0 < m then max 3 (nat m) else 2)"

lemma all_taken:
  assumes inv: "dg_inv n C a0" and vs: "pick_ok ({..<n} - C) vs" and small: "length vs < 1000 \<or> card ({..<n} - C) \<le> 1000"
    and rest: "\<forall>j \<in> {..<n} - C - set vs. 1000 \<le> cost a0 vs j"
  shows "set vs = {..<n} - C"
proof (rule ccontr)
  assume ne: "set vs \<noteq> {..<n} - C"
  with vs obtain j where j: "j \<in> {..<n} - C - set vs" by (auto simp: pick_ok_def)
  have "set vs \<subset> {..<n} - C" using vs ne by (auto simp: pick_ok_def)
  then have "card (set vs) < card ({..<n} - C)" by (intro psubset_card_mono) auto
  moreover have "card (set vs) = length vs" using vs by (simp add: pick_ok_def distinct_card)
  ultimately have "length vs < 1000" using small by linarith
  moreover have "cost a0 vs j \<le> real (length vs)" using cost_bound [OF inv vs] j by simp
  moreover have "1000 \<le> cost a0 vs j" using rest j by blast
  ultimately show False by linarith
qed

lemma findset_result:
  fixes cfg C dg m
  defines "n \<equiv> nat (features cfg)"
  defines "A \<equiv> {..<n} - C"
  assumes inv: "dg_inv n C (adj dg)" and f: "findset m cfg dg = Inr (flag, vs, dg')"
  shows "card A < 2 \<and> flag = -1 \<and> vs = [] \<and> dg' = dg \<or>
    (\<exists>a2. 2 \<le> card A \<and> pick_ok A vs \<and> masked n (adj dg) vs a2 \<and> greedy A (adj dg) 2 vs \<and> below_mark (adj dg) 2 vs \<and>
      (\<forall>k l. k < l \<and> k \<in> A \<and> l \<in> A \<longrightarrow> \<bar>adj dg (vs ! 0) (vs ! 1)\<bar> \<le> \<bar>adj dg k l\<bar>) \<and>
      (flag = 0 \<and> length vs = asked_for m \<or>
       flag = -1 \<and> length vs < asked_for m \<and> (\<forall>j \<in> A - set vs. 1000 \<le> cost (adj dg) vs j)) \<and>
      adj dg' = fold (\<lambda>v a. diminishgraphrow n v (diminishgraphcol n v a)) vs a2 \<and> adjcopy dg' = adjcopy dg)"
proof -
  obtain i j corr where mp: "min_pair n (adj dg) = ((i, j), corr)" by (metis prod_cases3 surj_pair)
  note pair = min_pair_spec [OF inv mp]
  have m: "\<not> int MAXVARLIST < m" using f by (auto simp: findset_def)
  show ?thesis
  proof (cases "corr = 1000")
    case True
    with f mp m pair(1) [OF True] show ?thesis by (simp add: findset_def n_def A_def)
  next
    case False
    define a1 where "a1 = upd i j DGINVALIDENTRY (diminishgraphcol n j (diminishgraphcol n i (adj dg)))"
    let ?loop = "if 0 < m then findset_loop n (nat m) [i, j] i a1 (workmem dg) else (0, [i, j], a1, workmem dg)"
    obtain flag' us a2 wm where lp': "?loop = (flag', us, a2, wm)" by (metis prod_cases4)
    have "Inr (flag, vs, dg') =
        (Inr (flag', us, dg\<lparr>adj := fold (\<lambda>v a. diminishgraphrow n v (diminishgraphcol n v a)) us a2, workmem := wm\<rparr>) ::
          (int \<times> nat list \<times> dgraphctx) outcome)"
      using f mp m False lp' [unfolded a1_def DGINVALIDENTRY_def] by (auto simp: findset_def n_def [symmetric] Let_def)
    then have lp: "?loop = (flag, us, a2, wm)"
      and res: "vs = us" "dg' = dg\<lparr>adj := fold (\<lambda>v a. diminishgraphrow n v (diminishgraphcol n v a)) us a2, workmem := wm\<rparr>"
      using lp' by simp_all
    note ij = pair(2) [OF False]
    have one: "pick_ok A [i, j]" "masked n (adj dg) [i, j] a1" "greedy A (adj dg) 2 [i, j]" "below_mark (adj dg) 2 [i, j]"
      using ij by (auto simp: pick_ok_def A_def masked_def a1_def graph_apply greedy_def below_mark_def)
    have spec: "pick_ok A us \<and> masked n (adj dg) us a2 \<and> greedy A (adj dg) 2 us \<and> below_mark (adj dg) 2 us \<and> (\<exists>ws. us = [i, j] @ ws) \<and>
      (flag = 0 \<and> length us = asked_for m \<or> flag = -1 \<and> length us < asked_for m \<and> (\<forall>j \<in> A - set us. 1000 \<le> cost (adj dg) us j))"
    proof (cases "0 < m")
      case True
      with lp have "findset_loop n (nat m) [i, j] i a1 (workmem dg) = (flag, us, a2, wm)" by simp
      from findset_loop_spec [OF this inv] one True show ?thesis
        by (simp add: A_def asked_for_def numeral_3_eq_3 max.commute)
    next
      case False
      with lp one show ?thesis by (auto simp: asked_for_def)
    qed
    then have us: "us ! 0 = i" "us ! 1 = j" by auto
    have "{i, j} \<subseteq> A" "i \<noteq> j" using ij by (auto simp: A_def)
    then have "2 \<le> card A" using card_mono [of A "{i, j}"] by (simp add: A_def)
    moreover have "\<forall>k l. k < l \<and> k \<in> A \<and> l \<in> A \<longrightarrow> \<bar>adj dg (us ! 0) (us ! 1)\<bar> \<le> \<bar>adj dg k l\<bar>"
      using ij us by (auto simp: A_def)
    ultimately show ?thesis using spec unfolding res(1) by (intro disjI2 exI [of _ a2]) (simp add: res(2))
  qed
qed

lemma findset_spec:
  fixes cfg C dg m
  defines "n \<equiv> nat (features cfg)"
  defines "A \<equiv> {..<n} - C"
  assumes inv: "dg_inv n C (adj dg)" and f: "findset m cfg dg = Inr (flag, vs, dg')"
  shows "distinct vs \<and> set vs \<subseteq> A \<and> dg_inv n (C \<union> set vs) (adj dg') \<and> adjcopy dg' = adjcopy dg \<and>
    (if card A < 2 then flag = -1 \<and> vs = []
     else (\<forall>k l. k < l \<and> k \<in> A \<and> l \<in> A \<longrightarrow> \<bar>adj dg (vs ! 0) (vs ! 1)\<bar> \<le> \<bar>adj dg k l\<bar>) \<and>
       greedy A (adj dg) 2 vs \<and> below_mark (adj dg) 2 vs \<and>
       (flag = 0 \<and> length vs = asked_for m \<or>
        flag = -1 \<and> length vs < asked_for m \<and> (\<forall>j \<in> A - set vs. 1000 \<le> cost (adj dg) vs j)) \<and>
       (m \<le> 1000 \<or> card A \<le> 1000 \<longrightarrow> (if asked_for m \<le> card A then flag = 0 else flag = -1 \<and> set vs = A)))"
proof (cases "card A < 2")
  case True
  with findset_result [OF inv [unfolded n_def] f, folded n_def, folded A_def] inv show ?thesis by auto
next
  case False
  with findset_result [OF inv [unfolded n_def] f, folded n_def, folded A_def] obtain a2 where r: "2 \<le> card A" "pick_ok A vs" "masked n (adj dg) vs a2"
    and d: "flag = 0 \<and> length vs = asked_for m \<or>
      flag = -1 \<and> length vs < asked_for m \<and> (\<forall>j \<in> A - set vs. 1000 \<le> cost (adj dg) vs j)"
    and dg': "adj dg' = fold (\<lambda>v a. diminishgraphrow n v (diminishgraphcol n v a)) vs a2" "adjcopy dg' = adjcopy dg"
    and best: "greedy A (adj dg) 2 vs" "below_mark (adj dg) 2 vs"
      "\<forall>k l. k < l \<and> k \<in> A \<and> l \<in> A \<longrightarrow> \<bar>adj dg (vs ! 0) (vs ! 1)\<bar> \<le> \<bar>adj dg k l\<bar>"
    by blast
  have vs: "distinct vs" "set vs \<subseteq> A" using r(2) by (auto simp: pick_ok_def)
  have "dg_inv n (C \<union> set vs) (adj dg')"
    using final_inv [OF inv r(3)] vs(2) by (auto simp: dg' A_def)
  moreover have "card (set vs) = length vs" "card (set vs) \<le> card A"
    using vs distinct_card card_mono [of A "set vs"] by (auto simp: A_def)
  then have "if asked_for m \<le> card A then flag = 0 else flag = -1 \<and> set vs = A" if "m \<le> 1000 \<or> card A \<le> 1000"
  proof -
    have "set vs = A" if "flag = -1"
    proof -
      have "m \<le> 1000 \<Longrightarrow> asked_for m \<le> 1000" by (simp add: asked_for_def nat_le_iff)
      then have "length vs < 1000 \<or> card A \<le> 1000" using d that \<open>m \<le> 1000 \<or> card A \<le> 1000\<close> by auto
      from all_taken [OF inv r(2) [unfolded A_def] this [unfolded A_def]] d that show ?thesis by (simp add: A_def)
    qed
    with d \<open>card (set vs) = length vs\<close> \<open>card (set vs) \<le> card A\<close> show ?thesis by auto
  qed
  ultimately show ?thesis using r(1) vs best d dg'(2) by auto
qed

text \<open>
  C7. \<open>findset\<close> on a graph whose valid entries are correlations, for every size it accepts: it returns distinct variables that
  were still in the graph and takes them out; the first two have the least correlation of all
  pairs and every further one the least summed correlation with those chosen before. It returns as many as asked for (at
  least three, since the loop body runs once even when two were asked for, and two for a size that is not positive), or it reports
  depletion; then every variable left has a summed correlation with the set of at least 1000, the mark of invalid entries, since only smaller sums are found. If
  at most 1000 are asked for, or at most 1000 are left, it reports depletion exactly when too few are left, and returns all that were left, or none if
  fewer than two were left.
\<close>

theorem findset_correct:
  fixes cfg C dg m
  defines "n \<equiv> nat (features cfg)"
  defines "A \<equiv> {..<n} - C"
  assumes "dg_inv n C (adj dg)" and "findset m cfg dg = Inr (flag, vs, dg')"
  shows "distinct vs \<and> set vs \<subseteq> A \<and> dg_inv n (C \<union> set vs) (adj dg') \<and> adjcopy dg' = adjcopy dg \<and>
    (if card A < 2 then flag = -1 \<and> vs = []
     else (\<forall>k l. k < l \<and> k \<in> A \<and> l \<in> A \<longrightarrow> \<bar>adj dg (vs ! 0) (vs ! 1)\<bar> \<le> \<bar>adj dg k l\<bar>) \<and>
       greedy A (adj dg) 2 vs \<and> below_mark (adj dg) 2 vs \<and>
       (flag = 0 \<and> length vs = asked_for m \<or>
        flag = -1 \<and> length vs < asked_for m \<and> (\<forall>j \<in> A - set vs. 1000 \<le> cost (adj dg) vs j)) \<and>
       (m \<le> 1000 \<or> card A \<le> 1000 \<longrightarrow> (if asked_for m \<le> card A then flag = 0 else flag = -1 \<and> set vs = A)))"
  unfolding n_def A_def by (rule findset_spec [OF assms(3,4) [unfolded n_def]])

text \<open>
  Beyond 1000 the report can be false: on a graph in which all correlations are 1, no more than 1000 variables are ever returned, and depletion is
  reported although the others are left.
\<close>

lemma findset_false_depletion:
  fixes cfg dg m
  defines "n \<equiv> nat (features cfg)"
  assumes one: "\<forall>i<n. \<forall>j<n. adj dg i j = (if i = j then 1000 else 1)" and "1000 < m" "1000 < n"
    and f: "findset m cfg dg = Inr (flag, vs, dg')"
  shows "flag = -1 \<and> length vs \<le> 1000 \<and> set vs \<noteq> {..<n}"
proof -
  have inv: "dg_inv (nat (features cfg)) {} (adj dg)" using one by (simp add: dg_inv_def n_def)
  have "\<not> card ({..<nat (features cfg)} - {}) < 2" using \<open>1000 < n\<close> by (simp add: n_def)
  with findset_spec [OF inv f]
  have s: "distinct vs" "set vs \<subseteq> {..<n}" "below_mark (adj dg) 2 vs" "flag = 0 \<and> length vs = asked_for m \<or> flag = -1"
    by (auto simp: n_def)
  have cost: "cost (adj dg) (take k vs) (vs ! k) = real k" if "k < length vs" for k
  proof -
    have "cost (adj dg) us j = real (length us)" if "set us \<subseteq> {..<n}" "j < n" "j \<notin> set us" for us j
      using that one by (induction us) (auto simp: cost_def)
    moreover have "vs ! k \<notin> set (take k vs)" using s(1) that by (simp add: distinct_conv_nth in_set_conv_nth)
    moreover have "set (take k vs) \<subseteq> {..<n}" "vs ! k < n" using s(2) set_take_subset [of k vs] nth_mem [OF that] by (auto simp del: nth_mem)
    ultimately show ?thesis using that by simp
  qed
  have "real k < 1000" if "2 \<le> k" "k < length vs" for k
    using s(3) that cost [of k] by (auto simp: below_mark_def)
  from this [of 1000] have len: "length vs \<le> 1000" by linarith
  have "card (set vs) < card {..<n}" using len \<open>1000 < n\<close> card_length [of vs] by simp
  then have "set vs \<noteq> {..<n}" by (metis less_irrefl)
  moreover have "flag = -1" using s(4) len \<open>1000 < m\<close> by (auto simp: asked_for_def)
  ultimately show ?thesis using len by simp
qed

definition demo_graph :: dgraphctx where
  "demo_graph = \<lparr>adj = (\<lambda>i j. if i = j then 1000 else 1 / (1 + real (i + j))), adjcopy = (\<lambda>_ _. 0),
     dg_features = 4, workmem = (\<lambda>_. 0)\<rparr>"

definition demo_graph_cfg :: problem where
  "demo_graph_cfg = \<lparr>X = [], Y = [], features = 4, samples = 0, xfile = None, yfile = None, cmX = []\<rparr>"

lemma demo_graph_inv: "dg_inv (nat (features demo_graph_cfg)) {} (adj demo_graph)"
proof -
  have "1 / (1 + real (i + j)) \<le> 1" for i j :: nat by simp
  moreover have "1 / (1 + real (i + j)) \<noteq> 1000" for i j :: nat
    using \<open>1 / (1 + real (i + j)) \<le> 1\<close> by linarith
  ultimately show ?thesis by (auto simp: dg_inv_def demo_graph_def)
qed

lemma findset_returns: "m \<le> 4096 \<Longrightarrow> \<exists>flag vs dg'. findset m cfg dg = Inr (flag, vs, dg')"
  by (simp add: findset_def MAXVARLIST_def Let_def split: prod.splits)

theorem findset_correct_witness:
  "\<exists>vs dg'. findset 3 demo_graph_cfg demo_graph = Inr (0, vs, dg') \<and> distinct vs \<and> length vs = 3"
proof -
  obtain flag vs dg' where f: "findset 3 demo_graph_cfg demo_graph = Inr (flag, vs, dg')"
    using findset_returns [of 3 demo_graph_cfg demo_graph] by auto
  have "card ({..<nat (features demo_graph_cfg)} - {}) = 4" by (simp add: demo_graph_cfg_def)
  with findset_correct [OF demo_graph_inv f] f show ?thesis by (auto simp: asked_for_def)
qed

text \<open>
  C30. Until the graph is recovered no variable is handed out twice: two successive calls return
  disjoint sets. \<open>recoverdgraph\<close> then restores the saved graph.
\<close>

theorem findset_disjoint_recover:
  assumes "dg_inv (nat (features cfg)) C (adj dg)"
    and "findset m cfg dg = Inr (flag, vs, dg')" and "findset m' cfg dg' = Inr (flag', vs', dg'')"
  shows "set vs \<inter> set vs' = {} \<and>
    (\<forall>i<nat (features cfg). \<forall>j<nat (features cfg). adj (recoverdgraph cfg dg'') i j = adjcopy dg i j)"
proof -
  from findset_spec [OF assms(1,2)]
  have one: "dg_inv (nat (features cfg)) (C \<union> set vs) (adj dg')" "adjcopy dg' = adjcopy dg" by auto
  from findset_spec [OF one(1) assms(3)]
  have "set vs' \<subseteq> {..<nat (features cfg)} - (C \<union> set vs)" "adjcopy dg'' = adjcopy dg'" by auto
  with one(2) show ?thesis by (auto simp: recoverdgraph_def copy_all_apply)
qed

theorem findset_disjoint_recover_witness:
  "\<exists>f vs dg' f' vs' dg''. findset 1 demo_graph_cfg demo_graph = Inr (f, vs, dg') \<and>
     findset 1 demo_graph_cfg dg' = Inr (f', vs', dg'') \<and> set vs \<inter> set vs' = {}"
proof -
  obtain f vs dg' where a: "findset 1 demo_graph_cfg demo_graph = Inr (f, vs, dg')"
    using findset_returns [of 1 demo_graph_cfg demo_graph] by auto
  obtain f' vs' dg'' where b: "findset 1 demo_graph_cfg dg' = Inr (f', vs', dg'')"
    using findset_returns [of 1 demo_graph_cfg dg'] by auto
  from findset_disjoint_recover [OF demo_graph_inv a b] a b show ?thesis by auto
qed

section \<open>The graph that is searched\<close>

lemma fill_upper:
  "fold (\<lambda>(i, j) a. upd i j (c i j) a) ps a r s = (if (r, s) \<in> set ps then c r s else a r s)"
  by (induction ps arbitrary: a) (auto simp: upd_def split: if_splits)

lemma mirror_row:
  "fold (\<lambda>j a. upd j i (a i j) a) js a r s = (if s = i \<and> r \<in> set js then a i r else a r s)" if "i \<notin> set js"
  using that
proof (induction js arbitrary: a)
  case (Cons j js)
  then show ?case by (auto simp: upd_def)
qed simp

lemma mirror_step:
  "upd i i 1000 (fold (\<lambda>j a. upd j i (a i j) a) [i + 1..<n] a) r s =
     (if r = i \<and> s = i then 1000 else if s = i \<and> i < r \<and> r < n then a i r else a r s)"
proof -
  have "fold (\<lambda>j a. upd j i (a i j) a) [i + 1..<n] a r s = (if s = i \<and> r \<in> set [i + 1..<n] then a i r else a r s)"
    by (rule mirror_row) simp
  then show ?thesis by (subst upd_apply) (auto simp: Suc_le_eq)
qed

lemma mirror_all:
  assumes "k \<le> n - 1" "\<forall>i<n. a i i = 1000"
  shows "r < n \<Longrightarrow> s < n \<Longrightarrow>
    fold (\<lambda>i a. upd i i DGINVALIDENTRY (fold (\<lambda>j a. upd j i (a i j) a) [i + 1..<n] a)) [0..<k] a r s =
      (if r = s then 1000 else if s < r \<and> s < k then a s r else a r s)"
  using assms(1)
proof (induction k arbitrary: r s)
  case 0
  then show ?case using assms(2) by simp
next
  case (Suc k)
  let ?f = "\<lambda>i a. upd i i DGINVALIDENTRY (fold (\<lambda>j a. upd j i (a i j) a) [i + 1..<n] a)"
  define b where "b = fold ?f [0..<k] a"
  have IH: "b r s = (if r = s then 1000 else if s < r \<and> s < k then a s r else a r s)"
    if "r < n" "s < n" for r s using Suc that by (simp add: b_def)
  have "fold ?f [0..<Suc k] a r s = ?f k b r s" by (simp add: b_def)
  also have "\<dots> = (if r = k \<and> s = k then 1000 else if s = k \<and> k < r \<and> r < n then b k r else b r s)"
    unfolding DGINVALIDENTRY_def by (rule mirror_step)
  also have "\<dots> = (if r = s then 1000 else if s < r \<and> s < Suc k then a s r else a r s)"
    using Suc.prems IH [of r s] IH [of k r] by auto
  finally show ?case .
qed

text \<open>
  C32. After \<open>initdgraph\<close> and \<open>getcorrinfo\<close> the graph is symmetric, holds the correlation of every pair
  of columns, has an invalid diagonal, equals its recovery copy, and is one \<open>findset\<close> can work on.
\<close>

theorem getcorrinfo_builds_graph:
  fixes cfg gc
  defines "n \<equiv> nat (features cfg)" and "dg \<equiv> getcorrinfo gc cfg (initdgraph cfg)"
    and "c \<equiv> \<lambda>i j. gc (cmX cfg ! i) (cmX cfg ! j) (samples cfg)"
  assumes "\<forall>i<n. \<forall>j<n. \<bar>c i j\<bar> \<le> 1"
  shows "(\<forall>i<n. \<forall>j<n. adj dg i j = (if i = j then 1000 else if i < j then c i j else c j i) \<and>
      adjcopy dg i j = adj dg i j) \<and> dg_inv n {} (adj dg)"
proof -
  let ?a = "fold (\<lambda>(i, j) a. upd i j (c i j) a) (upper n) (\<lambda>_ _. 1000)"
  have up: "?a r s = (if r < s \<and> s < n then c r s else 1000)" for r s
    by (simp add: fill_upper)
  have "adj dg = fold (\<lambda>i a. upd i i DGINVALIDENTRY (fold (\<lambda>j a. upd j i (a i j) a) [i + 1..<n] a)) [0..<n - 1] ?a"
    and cp: "adjcopy dg = copy_all n (adj dg) (\<lambda>_ _. 0)"
    by (simp_all add: dg_def getcorrinfo_def initdgraph_def n_def c_def Let_def)
  then have "adj dg r s = (if r = s then 1000 else if s < r \<and> s < n - 1 then ?a s r else ?a r s)"
    if "r < n" "s < n" for r s
    using mirror_all [of "n - 1" n ?a r s] that up by simp
  then have vals: "adj dg i j = (if i = j then 1000 else if i < j then c i j else c j i)" if "i < n" "j < n" for i j
    using that up by auto
  have "c i j \<noteq> 1000" if "i < n" "j < n" for i j using assms(4) that by fastforce
  then have "dg_inv n {} (adj dg)" using vals assms(4) by (auto simp: dg_inv_def)
  with vals cp show ?thesis by (simp add: copy_all_apply)
qed

theorem getcorrinfo_builds_graph_witness:
  "dg_inv 4 {} (adj (getcorrinfo (\<lambda>_ _ _. 1 / 2) demo_graph_cfg (initdgraph demo_graph_cfg)))"
  using getcorrinfo_builds_graph [of demo_graph_cfg "\<lambda>_ _ _. 1 / 2"] by (simp add: demo_graph_cfg_def)

end
