(* ===== verification/Mpi_Input.thy ===== *)
theory Mpi_Input
  imports Mpi_Packet
begin

text \<open>
  Loading and standardising the input (\<open>src/mpi/getinput.cpp\<close>). A file is its text; \<open>fgets\<close> and
  \<open>strtok\<close> are modelled as the C library defines them, \<open>sscanf\<close> with format \<open>%lf\<close> is the argument
  \<open>scan_lf\<close> (\<open>None\<close> when it assigns nothing). A \<open>double\<close> is a real number, rounding is not
  modelled; \<open>None\<close> among the observations is a NaN. Theorems: what a loaded problem looks like,
  standardised columns have sum 0 and sum of squares 1, and \<open>makecm\<close> transposes.
\<close>

section \<open>Lines and tokens\<close>

definition LINEMAX :: nat where "LINEMAX = 2000000 * 20"

definition DELIM2 :: string where "DELIM2 = [CHR '' '', CHR 0x09, CHR 0x0A, CHR '','']"

text \<open>\<open>fgets(buf, size, fd)\<close>: at most \<open>size - 1\<close> characters, up to and including a newline.\<close>

fun fgets_chars :: "nat \<Rightarrow> string \<Rightarrow> string \<times> string" where
  "fgets_chars 0 cs = ([], cs)"
| "fgets_chars (Suc k) [] = ([], [])"
| "fgets_chars (Suc k) (c # cs) =
     (if c = CHR 0x0A then ([c], cs) else (case fgets_chars k cs of (l, r) \<Rightarrow> (c # l, r)))"

definition fgets :: "nat \<Rightarrow> string \<Rightarrow> (string \<times> string) option" where
  "fgets n file = (if file = [] then None else Some (fgets_chars (n - 1) file))"

text \<open>The successive results of \<open>strtok\<close> on one line.\<close>

fun strtok_all :: "string \<Rightarrow> string \<Rightarrow> string \<Rightarrow> string list" where
  "strtok_all delim cur [] = (if cur = [] then [] else [cur])"
| "strtok_all delim cur (c # cs) =
     (if c \<in> set delim then (if cur = [] then strtok_all delim [] cs else cur # strtok_all delim [] cs)
      else strtok_all delim (cur @ [c]) cs)"

definition tokens :: "string \<Rightarrow> string list" where
  "tokens line = strtok_all DELIM2 [] line"

text \<open>All the lines a loop \<open>while(fgets(...))\<close> sees.\<close>

lemma fgets_chars_shorter:
  "0 < k \<Longrightarrow> cs \<noteq> [] \<Longrightarrow> length (snd (fgets_chars k cs)) < length cs"
proof (induction k cs rule: fgets_chars.induct)
  case (3 k c cs)
  show ?case
  proof (cases "k = 0 \<or> cs = []")
    case True
    then show ?thesis by (cases k; cases cs) auto
  next
    case False
    with 3 show ?thesis by (auto split: prod.splits)
  qed
qed auto

function lines_of :: "string \<Rightarrow> string list" where
  "lines_of file = (case fgets LINEMAX file of None \<Rightarrow> [] | Some (l, rest) \<Rightarrow> l # lines_of rest)"
  by pat_completeness auto
termination
proof (relation "measure length")
  fix cs x l rest
  assume "fgets LINEMAX cs = Some x" "(l, rest) = x"
  then show "(rest, cs) \<in> measure length"
    using fgets_chars_shorter [of "LINEMAX - 1" cs]
    by (auto simp: fgets_def LINEMAX_def split: if_splits)
qed simp

declare lines_of.simps [simp del]

section \<open>Reading the files\<close>

definition featurecount :: "string option \<Rightarrow> (int \<times> int) outcome" where
  "featurecount file =
     (case file of
        None \<Rightarrow> Inl (Exit 0)
      | Some text \<Rightarrow>
          (case lines_of text of
             [] \<Rightarrow> Inr (0, 0)
           | l # ls \<Rightarrow> Inr (1 + int (length ls), int (length (tokens l)))))"

text \<open>One row of \<open>X\<close>: entry \<open>j\<close> keeps its zero when \<open>sscanf\<close> assigns nothing.\<close>

fun read_row :: "(string \<Rightarrow> double option) \<Rightarrow> nat \<Rightarrow> nat \<Rightarrow> string list \<Rightarrow> double list \<Rightarrow> double list outcome" where
  "read_row scan_lf ftr j [] row = Inr row"
| "read_row scan_lf ftr j (ptr # ptrs) row =
     (if ftr \<le> j then Inl (Exit 0)
      else read_row scan_lf ftr (j + 1) ptrs
             (case scan_lf ptr of None \<Rightarrow> row | Some v \<Rightarrow> row[j := v]))"

fun read_X :: "(string \<Rightarrow> double option) \<Rightarrow> nat \<Rightarrow> nat \<Rightarrow> nat \<Rightarrow> string list \<Rightarrow> double list list \<Rightarrow> double list list outcome" where
  "read_X scan_lf smp ftr i [] tmpx = Inr tmpx"
| "read_X scan_lf smp ftr i (line # lines) tmpx =
     (if smp \<le> i then Inl (Exit 0)
      else andthen (read_row scan_lf ftr 0 (tokens line) (tmpx ! i))
             (\<lambda>row. read_X scan_lf smp ftr (i + 1) lines (tmpx[i := row])))"

fun read_Y :: "(string \<Rightarrow> double option) \<Rightarrow> nat \<Rightarrow> string list \<Rightarrow> double list outcome" where
  "read_Y scan_lf 0 lines = Inr []"
| "read_Y scan_lf (Suc k) [] = Inl (Exit 0)"
| "read_Y scan_lf (Suc k) (line # lines) =
     (case tokens line of
        [] \<Rightarrow> Inl Undefined
      | ptr # _ \<Rightarrow>
          andthen (read_Y scan_lf k lines)
            (\<lambda>ys. Inr ((case scan_lf ptr of None \<Rightarrow> 0 | Some v \<Rightarrow> v) # ys)))"

section \<open>Standardising\<close>

definition col_avg :: "double list list \<Rightarrow> nat \<Rightarrow> nat \<Rightarrow> double" where
  "col_avg MX n i = (\<Sum>j<n. MX ! j ! i) / real n"

definition col_dev :: "double list list \<Rightarrow> nat \<Rightarrow> nat \<Rightarrow> double" where
  "col_dev MX n i = (\<Sum>j<n. ((MX ! j ! i - col_avg MX n i) * (MX ! j ! i - col_avg MX n i)) / real n)"

definition standardize_col :: "nat \<Rightarrow> nat \<Rightarrow> double list list \<Rightarrow> double list list outcome" where
  "standardize_col n i MX =
     (let avg = col_avg MX n i; stdev = sqrt (col_dev MX n i) in
      if stdev = 0 then
        (if \<exists>row<n. MX ! row ! i \<noteq> 0 then Inl (Exit 0) else Inr MX)
      else Inr (map (\<lambda>row. row[i := ((row ! i - avg) / stdev) / sqrt (real n)]) MX))"

fun standardize_cols :: "nat \<Rightarrow> nat list \<Rightarrow> double list list \<Rightarrow> double list list outcome" where
  "standardize_cols n [] MX = Inr MX"
| "standardize_cols n (i # is) MX = andthen (standardize_col n i MX) (standardize_cols n is)"

text \<open>
  The observations are divided by their deviation without a test: when it is zero every entry
  is the quotient 0/0.
\<close>

definition standardize_Y :: "nat \<Rightarrow> double list \<Rightarrow> double option list" where
  "standardize_Y n MY =
     (let avg = (\<Sum>i<n. MY ! i) / real n;
          dev = (\<Sum>i<n. ((MY ! i - avg) * (MY ! i - avg)) / real n);
          stdev = sqrt dev
      in map (\<lambda>y. if stdev = 0 then None else Some (((y - avg) / stdev) / sqrt (real n))) MY)"

definition standardizeInput :: "double list list \<Rightarrow> double list \<Rightarrow> nat \<Rightarrow> nat \<Rightarrow> (double list list \<times> double option list) outcome" where
  "standardizeInput MX MY n p =
     andthen (standardize_cols n [0..<p] MX) (\<lambda>MX'. Inr (MX', standardize_Y n MY))"

text \<open>\<open>fs\<close> is the file system: the text of each readable file.\<close>

definition getinput :: "(string \<Rightarrow> double option) \<Rightarrow> (string \<rightharpoonup> string) \<Rightarrow> problem \<Rightarrow> problem outcome" where
  "getinput scan_lf fs pcfg =
     (case (Option.bind (xfile pcfg) fs, Option.bind (yfile pcfg) fs) of
        (Some xtext, Some ytext) \<Rightarrow>
          andthen (featurecount (Some xtext)) (\<lambda>(smp, ftr).
          andthen (read_X scan_lf (nat smp) (nat ftr) 0 (lines_of xtext)
                     (replicate (nat smp) (replicate (nat ftr) 0))) (\<lambda>tmpx.
          andthen (read_Y scan_lf (nat smp) (lines_of ytext)) (\<lambda>tmpy.
          andthen (standardizeInput tmpx tmpy (nat smp) (nat ftr)) (\<lambda>(MX, MY).
            Inr (pcfg\<lparr>samples := smp, features := ftr, X := MX, Y := MY\<rparr>)))))
      | _ \<Rightarrow> Inl (Exit 0))"

text \<open>The column major copy: every entry is written once, at its transposed place.\<close>

definition makecm :: "problem \<Rightarrow> problem" where
  "makecm cfg =
     cfg\<lparr>cmX := fold (\<lambda>(row, col) m. m[col := (m ! col)[row := X cfg ! row ! col]])
                  (List.product [0..<nat (samples cfg)] [0..<nat (features cfg)])
                  (replicate (nat (features cfg)) (replicate (nat (samples cfg)) 0))\<rparr>"

section \<open>Shape of a loaded problem\<close>

definition matrix :: "nat \<Rightarrow> nat \<Rightarrow> double list list \<Rightarrow> bool" where
  "matrix n p M \<longleftrightarrow> length M = n \<and> (\<forall>row \<in> set M. length row = p)"

lemma matrix_update: "matrix n p M \<Longrightarrow> length row = p \<Longrightarrow> matrix n p (M[i := row])"
  by (auto simp: matrix_def dest!: subsetD [OF set_update_subset_insert])

lemma read_row_length: "read_row scan_lf ftr j ptrs row = Inr row' \<Longrightarrow> length row' = length row"
  by (induction scan_lf ftr j ptrs row rule: read_row.induct) (auto split: if_splits option.splits)

lemma read_X_matrix:
  "read_X scan_lf smp ftr i ls M = Inr M' \<Longrightarrow> matrix smp ftr M \<Longrightarrow> matrix smp ftr M'"
proof (induction scan_lf smp ftr i ls M rule: read_X.induct)
  case (2 scan_lf smp ftr i l ls M)
  from "2.prems"(1) obtain row where i: "\<not> smp \<le> i"
    and row: "read_row scan_lf ftr 0 (tokens l) (M ! i) = Inr row"
    and rec: "read_X scan_lf smp ftr (i + 1) ls (M[i := row]) = Inr M'"
    by (auto simp: andthen_eq_Inr_iff split: if_splits)
  have "length row = ftr"
    using read_row_length [OF row] i "2.prems"(2) by (simp add: matrix_def)
  then show ?case using "2.IH" [OF i rec] matrix_update [OF "2.prems"(2)] by blast
qed simp

lemma read_Y_length: "read_Y scan_lf n ls = Inr ys \<Longrightarrow> length ys = n"
  by (induction scan_lf n ls arbitrary: ys rule: read_Y.induct)
    (auto simp: andthen_eq_Inr_iff split: list.splits)

section \<open>Standardised data\<close>

lemma standardize_sums:
  fixes v :: "nat \<Rightarrow> real" and n :: nat
  defines "a \<equiv> (\<Sum>j<n. v j) / real n"
  defines "d \<equiv> (\<Sum>j<n. ((v j - a) * (v j - a)) / real n)"
  assumes s: "sqrt d \<noteq> 0"
  shows "(\<Sum>j<n. ((v j - a) / sqrt d) / sqrt (real n)) = 0"
    and "(\<Sum>j<n. (((v j - a) / sqrt d) / sqrt (real n))\<^sup>2) = 1"
    and "0 < 1 / (sqrt d * sqrt (real n))"
proof -
  have n: "0 < real n" using s by (cases n) (auto simp: d_def)
  have "0 \<le> d" unfolding d_def using n by (intro sum_nonneg) simp
  with s have d: "0 < d" by (simp add: order_less_le)
  with n show "0 < 1 / (sqrt d * sqrt (real n))" by simp
  have "(\<Sum>j<n. v j - a) = 0" using n by (simp add: sum_subtractf a_def)
  then show "(\<Sum>j<n. ((v j - a) / sqrt d) / sqrt (real n)) = 0"
    by (simp flip: sum_divide_distrib)
  have "(\<Sum>j<n. (((v j - a) / sqrt d) / sqrt (real n))\<^sup>2) = (\<Sum>j<n. ((v j - a) * (v j - a)) / real n) / d"
    using n d by (simp add: power_divide sum_divide_distrib power2_eq_square field_simps)
  then show "(\<Sum>j<n. (((v j - a) / sqrt d) / sqrt (real n))\<^sup>2) = 1" using d by (simp add: d_def)
qed

definition col_std :: "nat \<Rightarrow> double list list \<Rightarrow> double list list \<Rightarrow> nat \<Rightarrow> bool" where
  "col_std n MX MX' i \<longleftrightarrow>
     (\<Sum>j<n. MX' ! j ! i) = 0 \<and>
     (if \<exists>j<n. MX ! j ! i \<noteq> 0
      then (\<Sum>j<n. (MX' ! j ! i)\<^sup>2) = 1 \<and> (\<exists>k>0. \<forall>j<n. MX' ! j ! i = k * (MX ! j ! i - col_avg MX n i))
      else \<forall>j<n. MX' ! j ! i = 0)"

lemma standardize_col_spec:
  assumes m: "matrix n p MX" and i: "i < p" and r: "standardize_col n i MX = Inr MX'"
  shows "matrix n p MX'" "\<forall>j<n. \<forall>k<p. k \<noteq> i \<longrightarrow> MX' ! j ! k = MX ! j ! k" "col_std n MX MX' i"
proof -
  let ?s = "sqrt (col_dev MX n i)"
  let ?f = "\<lambda>row. row[i := ((row ! i - col_avg MX n i) / ?s) / sqrt (real n)]"
  have "matrix n p MX' \<and> (\<forall>j<n. \<forall>k<p. k \<noteq> i \<longrightarrow> MX' ! j ! k = MX ! j ! k) \<and> col_std n MX MX' i"
  proof (cases "?s = 0")
    case True
    with r have "MX' = MX" "\<not> (\<exists>row<n. MX ! row ! i \<noteq> 0)"
      by (auto simp: standardize_col_def Let_def split: if_splits)
    with m show ?thesis by (simp add: col_std_def)
  next
    case False
    with r have MX': "MX' = map ?f MX" by (simp add: standardize_col_def Let_def)
    have len: "length (MX ! j) = p" "j < length MX" if "j < n" for j
      using m that by (simp_all add: matrix_def)
    have at: "MX' ! j ! i = ((MX ! j ! i - col_avg MX n i) / ?s) / sqrt (real n)" if "j < n" for j
      using len [OF that] i by (simp add: MX')
    note st = standardize_sums [where n = n and v = "\<lambda>j. MX ! j ! i", folded col_avg_def, folded col_dev_def, OF False]
    have "(\<Sum>j<n. MX' ! j ! i) = 0" "(\<Sum>j<n. (MX' ! j ! i)\<^sup>2) = 1"
      using st(1,2) at by simp_all
    moreover have "\<exists>k>0. \<forall>j<n. MX' ! j ! i = k * (MX ! j ! i - col_avg MX n i)"
      using st(3) at by (intro exI [of _ "1 / (?s * sqrt (real n))"]) simp
    moreover have "\<exists>j<n. MX ! j ! i \<noteq> 0"
    proof (rule ccontr)
      assume "\<not> (\<exists>j<n. MX ! j ! i \<noteq> 0)"
      then have "col_dev MX n i = 0" by (simp add: col_dev_def col_avg_def)
      with False show False by simp
    qed
    ultimately have "col_std n MX MX' i" by (simp add: col_std_def)
    moreover have "matrix n p MX'" using m by (auto simp: MX' matrix_def)
    ultimately show ?thesis using len by (simp add: MX')
  qed
  then show "matrix n p MX'" "\<forall>j<n. \<forall>k<p. k \<noteq> i \<longrightarrow> MX' ! j ! k = MX ! j ! k" "col_std n MX MX' i"
    by blast+
qed

lemma col_std_cong:
  assumes "\<forall>j<n. A ! j ! i = A' ! j ! i" "\<forall>j<n. B ! j ! i = B' ! j ! i"
  shows "col_std n A B i = col_std n A' B' i"
proof -
  have "col_avg A n i = col_avg A' n i" using assms(1) by (simp add: col_avg_def)
  then show ?thesis using assms by (auto simp: col_std_def)
qed

lemma standardize_cols_spec:
  assumes "matrix n p MX" "set is \<subseteq> {..<p}" "distinct is" "standardize_cols n is MX = Inr MX'"
  shows "matrix n p MX' \<and> (\<forall>i \<in> set is. col_std n MX MX' i) \<and>
    (\<forall>j<n. \<forall>k<p. k \<notin> set is \<longrightarrow> MX' ! j ! k = MX ! j ! k)"
  using assms
proof (induction "is" arbitrary: MX)
  case Nil
  then show ?case by simp
next
  case (Cons i js)
  then obtain M where M: "standardize_col n i MX = Inr M" "standardize_cols n js M = Inr MX'"
    by (auto simp: andthen_eq_Inr_iff)
  have i: "i < p" "i \<notin> set js" using Cons.prems by auto
  note col = standardize_col_spec [OF Cons.prems(1) i(1) M(1)]
  have IH: "matrix n p MX'" "\<forall>i \<in> set js. col_std n M MX' i"
    "\<forall>j<n. \<forall>k<p. k \<notin> set js \<longrightarrow> MX' ! j ! k = M ! j ! k"
    using Cons.IH [OF col(1) _ _ M(2)] Cons.prems by auto
  have "col_std n MX MX' i" using col(3) col_std_cong [of n MX i MX M MX'] IH(3) i by auto
  moreover have "col_std n MX MX' k" if "k \<in> set js" for k
    using that IH(2) col(2) i Cons.prems(2) col_std_cong [of n M k MX MX' MX'] by auto
  ultimately show ?case using IH col(2) by auto
qed

lemma deviation_zero:
  fixes v :: "nat \<Rightarrow> real"
  assumes "(\<Sum>j<n. ((v j - a) * (v j - a)) / real n) = 0" "i < n"
  shows "v i = a"
proof -
  have "\<forall>j \<in> {..<n}. ((v j - a) * (v j - a)) / real n = 0"
    using assms(1) by (subst (asm) sum_nonneg_eq_0_iff) auto
  then show ?thesis using assms(2) by auto
qed

lemma standardize_Y_spec:
  assumes len: "length MY = n"
  shows "if \<exists>v. set MY \<subseteq> {v} then set (standardize_Y n MY) \<subseteq> {None}
    else \<exists>ys. standardize_Y n MY = map Some ys \<and> (\<Sum>i<n. ys ! i) = 0 \<and> (\<Sum>i<n. (ys ! i)\<^sup>2) = 1 \<and>
      (\<exists>k>0. \<forall>i<n. ys ! i = k * (MY ! i - (\<Sum>i<n. MY ! i) / real n))"
proof -
  define a where "a = (\<Sum>i<n. MY ! i) / real n"
  define d where "d = (\<Sum>i<n. ((MY ! i - a) * (MY ! i - a)) / real n)"
  have eq: "standardize_Y n MY = map (\<lambda>y. if sqrt d = 0 then None else Some (((y - a) / sqrt d) / sqrt (real n))) MY"
    by (simp add: standardize_Y_def Let_def a_def d_def)
  have const: "sqrt d = 0 \<longleftrightarrow> (\<exists>v. set MY \<subseteq> {v})"
  proof
    assume "sqrt d = 0"
    then have "MY ! i = a" if "i < n" for i using deviation_zero [where n = n and v = "\<lambda>i. MY ! i" and a = a and i = i] that by (simp add: d_def)
    then have "set MY \<subseteq> {a}" using len by (auto simp: in_set_conv_nth)
    then show "\<exists>v. set MY \<subseteq> {v}" by blast
  next
    assume "\<exists>v. set MY \<subseteq> {v}"
    then obtain v where v: "\<forall>i<n. MY ! i = v" using len by (metis nth_mem singletonD subsetD)
    then have "n = 0 \<or> a = v" by (simp add: a_def)
    then show "sqrt d = 0" using v by (auto simp: d_def)
  qed
  show ?thesis
  proof (cases "sqrt d = 0")
    case True
    then have "set (standardize_Y n MY) \<subseteq> {None}" by (auto simp: eq)
    with True const show ?thesis by simp
  next
    case False
    let ?ys = "map (\<lambda>y. ((y - a) / sqrt d) / sqrt (real n)) MY"
    note st = standardize_sums [where n = n and v = "\<lambda>i. MY ! i", folded a_def, folded d_def, OF False]
    have "(\<Sum>i<n. ?ys ! i) = 0" "(\<Sum>i<n. (?ys ! i)\<^sup>2) = 1" using st(1,2) len by simp_all
    moreover have "\<exists>k>0. \<forall>i<n. ?ys ! i = k * (MY ! i - a)"
      using st(3) len by (intro exI [of _ "1 / (sqrt d * sqrt (real n))"]) simp
    moreover have "standardize_Y n MY = map Some ?ys" using False by (simp add: eq)
    ultimately have "\<exists>ys. standardize_Y n MY = map Some ys \<and> (\<Sum>i<n. ys ! i) = 0 \<and> (\<Sum>i<n. (ys ! i)\<^sup>2) = 1 \<and>
      (\<exists>k>0. \<forall>i<n. ys ! i = k * (MY ! i - a))" by blast
    with False const show ?thesis by (simp add: a_def)
  qed
qed

lemma length_standardize_Y [simp]: "length (standardize_Y n MY) = length MY"
  by (simp add: standardize_Y_def Let_def)

text \<open>
  C24. A successful \<open>getinput\<close> yields a matrix with \<open>samples\<close> rows and \<open>features\<close> columns and as
  many observations as rows. Let \<open>M\<close> and \<open>MY\<close> be the numbers read from the two files. A column of \<open>M\<close> that is zero stays zero; every other one becomes
  the positive multiple of its deviations from its mean that has sum of squares 1 (and sum 0); a column that is constant and not zero makes \<open>getinput\<close> exit. The
  observations are turned into the positive multiple of their deviations with sum of squares 1 in the same way if they are not all equal; if they are, every one
  of them becomes NaN.
\<close>

theorem getinput_standardized:
  assumes "getinput scan_lf fs pcfg = Inr q"
  shows "\<exists>xtext ytext M MY. Option.bind (xfile pcfg) fs = Some xtext \<and> Option.bind (yfile pcfg) fs = Some ytext \<and>
    read_X scan_lf (nat (samples q)) (nat (features q)) 0 (lines_of xtext)
      (replicate (nat (samples q)) (replicate (nat (features q)) 0)) = Inr M \<and>
    read_Y scan_lf (nat (samples q)) (lines_of ytext) = Inr MY \<and>
    matrix (nat (samples q)) (nat (features q)) (X q) \<and> length (Y q) = nat (samples q) \<and>
    (\<forall>i<nat (features q). (\<Sum>j<nat (samples q). X q ! j ! i) = 0 \<and>
       (if \<exists>j<nat (samples q). M ! j ! i \<noteq> 0
        then (\<Sum>j<nat (samples q). (X q ! j ! i)\<^sup>2) = 1 \<and>
          (\<exists>k>0. \<forall>j<nat (samples q). X q ! j ! i = k * (M ! j ! i - col_avg M (nat (samples q)) i))
        else \<forall>j<nat (samples q). X q ! j ! i = 0)) \<and>
    (if \<exists>v. set MY \<subseteq> {v} then set (Y q) \<subseteq> {None}
     else \<exists>ys. Y q = map Some ys \<and> (\<Sum>i<nat (samples q). ys ! i) = 0 \<and> (\<Sum>i<nat (samples q). (ys ! i)\<^sup>2) = 1 \<and>
       (\<exists>k>0. \<forall>i<nat (samples q). ys ! i = k * (MY ! i - (\<Sum>i<nat (samples q). MY ! i) / real (nat (samples q)))))"
proof -
  from assms obtain xt yt smp ftr M MY MX where
    f: "Option.bind (xfile pcfg) fs = Some xt" "Option.bind (yfile pcfg) fs = Some yt"
    and M: "read_X scan_lf (nat smp) (nat ftr) 0 (lines_of xt) (replicate (nat smp) (replicate (nat ftr) 0)) = Inr M"
    and MY: "read_Y scan_lf (nat smp) (lines_of yt) = Inr MY"
    and MX: "standardize_cols (nat smp) [0..<nat ftr] M = Inr MX"
    and q: "q = pcfg\<lparr>samples := smp, features := ftr, X := MX, Y := standardize_Y (nat smp) MY\<rparr>"
    by (fastforce simp: getinput_def andthen_eq_Inr_iff standardizeInput_def split: option.splits prod.splits)
  have "matrix (nat smp) (nat ftr) M" by (rule read_X_matrix [OF M]) (simp add: matrix_def)
  from standardize_cols_spec [OF this _ _ MX]
  have "matrix (nat smp) (nat ftr) MX" "\<forall>i<nat ftr. col_std (nat smp) M MX i"
    by (auto simp: atLeast0LessThan)
  moreover have qs: "samples q = smp" "features q = ftr" "X q = MX" "Y q = standardize_Y (nat smp) MY" by (simp_all add: q)
  moreover have "length (standardize_Y (nat smp) MY) = nat smp" using read_Y_length [OF MY] by simp
  ultimately show ?thesis
    using f M MY standardize_Y_spec [OF read_Y_length [OF MY]] unfolding qs col_std_def by blast
qed

definition demo_files :: "string \<rightharpoonup> string" where
  "demo_files = [''x'' \<mapsto> [CHR ''1'', CHR 0x0A, CHR ''3'', CHR 0x0A], ''y'' \<mapsto> [CHR ''1'', CHR 0x0A, CHR ''3'', CHR 0x0A]]"

definition demo_scan :: "string \<Rightarrow> double option" where
  "demo_scan t = (if t = ''1'' then Some 1 else if t = ''3'' then Some 3 else None)"

lemma demo_input:
  "getinput demo_scan demo_files
     \<lparr>X = [], Y = [], features = 0, samples = 0, xfile = Some ''x'', yfile = Some ''y'', cmX = []\<rparr> =
   Inr \<lparr>X = [[-1 / sqrt 2], [1 / sqrt 2]], Y = [Some (-1 / sqrt 2), Some (1 / sqrt 2)],
     features = 1, samples = 2, xfile = Some ''x'', yfile = Some ''y'', cmX = []\<rparr>"
proof -
  have k: "LINEMAX - Suc 0 = Suc (Suc (LINEMAX - 3))" by (simp add: LINEMAX_def)
  have l: "lines_of [CHR ''1'', CHR 0x0A, CHR ''3'', CHR 0x0A] = [[CHR ''1'', CHR 0x0A], [CHR ''3'', CHR 0x0A]]"
    unfolding lines_of.simps [of "[CHR ''1'', CHR 0x0A, CHR ''3'', CHR 0x0A]"]
    by (simp add: lines_of.simps fgets_def k)
  show ?thesis
    by (simp add: getinput_def demo_files_def featurecount_def l tokens_def DELIM2_def demo_scan_def
      standardizeInput_def standardize_col_def standardize_Y_def col_avg_def col_dev_def
      numeral_2_eq_2 Let_def)
qed

theorem getinput_standardized_witness:
  "\<exists>q. getinput demo_scan demo_files
     \<lparr>X = [], Y = [], features = 0, samples = 0, xfile = Some ''x'', yfile = Some ''y'', cmX = []\<rparr> = Inr q \<and>
     matrix 2 1 (X q) \<and> (\<exists>ys. Y q = map Some ys \<and> (\<Sum>i<2. (ys ! i)\<^sup>2) = 1)"
proof -
  obtain q where q: "getinput demo_scan demo_files
     \<lparr>X = [], Y = [], features = 0, samples = 0, xfile = Some ''x'', yfile = Some ''y'', cmX = []\<rparr> = Inr q"
    "samples q = 2" "features q = 1"
    using demo_input by simp
  have "\<not> (\<forall>y \<in> set (Y q). y = None)" "Y q \<noteq> []" using q(1) demo_input by auto
  then have "\<not> set (Y q) \<subseteq> {None}" by auto
  with getinput_standardized [OF q(1)] q show ?thesis by (auto split: if_splits)
qed

text \<open>
  Observations that are all equal are not rejected: \<open>standardizeInput\<close> divides by a zero
  deviation and every observation becomes NaN, while an equal column of \<open>X\<close> is tested for.
\<close>

lemma constant_observations_nan:
  assumes "0 < n" and "MY = replicate n y"
  shows "standardize_Y n MY = replicate n None"
proof -
  have "(\<Sum>i<n. MY ! i) = real n * y" using assms(2) by simp
  then have "(\<Sum>i<n. MY ! i) / real n = y" using assms(1) by simp
  then show ?thesis using assms by (simp add: standardize_Y_def Let_def)
qed

lemma constant_observations_nan_witness:
  "standardize_Y 2 (replicate 2 7) = replicate 2 None"
  using constant_observations_nan [of 2 "replicate 2 7" 7] by simp

section \<open>Column major copy\<close>

lemma transpose_fold:
  fixes XM :: "double list list"
  assumes "\<forall>(r, c) \<in> set ps. c < p \<and> r < n" and "length m = p" "\<forall>c<p. length (m ! c) = n"
  defines "F \<equiv> fold (\<lambda>(row, col) m. m[col := (m ! col)[row := XM ! row ! col]])"
  shows "length (F ps m) = p \<and> (\<forall>c<p. length (F ps m ! c) = n) \<and>
    (\<forall>c<p. \<forall>r<n. F ps m ! c ! r = (if (r, c) \<in> set ps then XM ! r ! c else m ! c ! r))"
  using assms(1-3)
proof (induction ps arbitrary: m)
  case Nil
  then show ?case by (simp add: F_def)
next
  case (Cons rc ps)
  obtain r c where rc: "rc = (r, c)" by (cases rc)
  let ?m = "m[c := (m ! c)[r := XM ! r ! c]]"
  have b: "c < p" "r < n" using Cons.prems rc by auto
  have "length ?m = p" "\<forall>k<p. length (?m ! k) = n"
    using Cons.prems b by (simp_all add: nth_list_update)
  with Cons.IH [of ?m] Cons.prems
  have IH: "length (F ps ?m) = p" "\<forall>c<p. length (F ps ?m ! c) = n"
    "\<forall>k<p. \<forall>l<n. F ps ?m ! k ! l = (if (l, k) \<in> set ps then XM ! l ! k else ?m ! k ! l)" by auto
  have "F (rc # ps) m = F ps ?m" by (simp add: F_def rc)
  moreover have "?m ! k ! l = (if k = c \<and> l = r then XM ! r ! c else m ! k ! l)" if "k < p" "l < n" for k l
    using that b Cons.prems by (auto simp: nth_list_update)
  ultimately show ?case using IH by (auto simp: rc)
qed

text \<open>
  C37. \<open>makecm\<close> stores the transpose of the design matrix and changes nothing else.
\<close>

theorem makecm_transposes:
  assumes "r < nat (samples cfg)" and "c < nat (features cfg)"
  shows "cmX (makecm cfg) ! c ! r = X cfg ! r ! c \<and> length (cmX (makecm cfg)) = nat (features cfg) \<and>
    length (cmX (makecm cfg) ! c) = nat (samples cfg) \<and> (makecm cfg)\<lparr>cmX := cmX cfg\<rparr> = cfg"
  using transpose_fold [of "List.product [0..<nat (samples cfg)] [0..<nat (features cfg)]"
      "nat (features cfg)" "nat (samples cfg)"
      "replicate (nat (features cfg)) (replicate (nat (samples cfg)) 0)" "X cfg"] assms
  by (auto simp: makecm_def)

theorem makecm_transposes_witness:
  "cmX (makecm \<lparr>X = [[1, 2, 3], [4, 5, 6]], Y = [], features = 3, samples = 2, xfile = None,
     yfile = None, cmX = []\<rparr>) ! 2 ! 1 = 6"
  using makecm_transposes [of 1 "\<lparr>X = [[1, 2, 3], [4, 5, 6]], Y = [], features = 3, samples = 2,
      xfile = None, yfile = None, cmX = []\<rparr>" 2] by simp

end
