(* ===== verification/Mpi_Snapshot.thy ===== *)
theory Mpi_Snapshot
  imports Mpi_Graph Mpi_Input
begin

text \<open>
  Snapshots of the correlation graph (\<open>snapshotdbgraph\<close> and \<open>loadsnapshot\<close> of \<open>src/mpi/dgraph.cpp\<close>): the
  adjacency matrix is written to the file \<open><xfile>.corr\<close>, one line per row, and read back. The conversions
  \<open>%2.20lf\<close> of \<open>fprintf\<close> and \<open>atof\<close> are arguments; the locale \<open>lf_text\<close> states what they
  promise, and decimal printing and parsing is an interpretation of it. Theorems: a graph that was
  stored is loaded again up to the 20th decimal, without an edge lost or gained, and the snapshot of
  a graph of another size is not accepted.
\<close>

section \<open>Storing and loading\<close>

definition DELIM :: string where "DELIM = [CHR '' '', CHR 0x0A, CHR '','', CHR ''{'', CHR ''}'']"

definition corr_file :: "string \<Rightarrow> string" where "corr_file x = x @ ''.corr''"

definition row_text :: "(double \<Rightarrow> string) \<Rightarrow> nat \<Rightarrow> adjmat \<Rightarrow> nat \<Rightarrow> string" where
  "row_text pr n a row = concat (map (\<lambda>col. '' '' @ pr (a row col) @ '' '') [0..<n]) @ [CHR 0x0A]"

text \<open>\<open>can_write\<close> tells whether \<open>fopen\<close> for writing succeeds; \<open>fs\<close> is the text of each file.\<close>

definition snapshotdbgraph :: "(double \<Rightarrow> string) \<Rightarrow> (string \<Rightarrow> bool) \<Rightarrow> problem \<Rightarrow> dgraphctx \<Rightarrow> (string \<rightharpoonup> string) \<Rightarrow>
    (string \<rightharpoonup> string) outcome" where
  "snapshotdbgraph pr can_write cfg dg fs =
     (case xfile cfg of
        None \<Rightarrow> Inl Undefined
      | Some x \<Rightarrow>
          let n = nat (features cfg) in
          if \<not> can_write (corr_file x) then Inl Abort
          else Inr (fs(corr_file x \<mapsto> concat (map (row_text pr n (adj dg)) [0..<n]))))"

text \<open>
  The tokens of one line go to row \<open>row\<close> from column \<open>col\<close> on; the matrix has \<open>n\<close> rows and columns, and the
  code writes before it compares the number of columns.
\<close>

fun load_row :: "(string \<Rightarrow> double) \<Rightarrow> nat \<Rightarrow> nat \<Rightarrow> nat \<Rightarrow> string list \<Rightarrow> adjmat \<Rightarrow> (nat \<times> adjmat) outcome" where
  "load_row atof n row col [] a = Inr (col, a)"
| "load_row atof n row col (ptr # ptrs) a =
     (if n \<le> row \<or> n \<le> col then Inl Undefined
      else load_row atof n row (col + 1) ptrs (upd row col (atof ptr) a))"

fun load_rows :: "(string \<Rightarrow> double) \<Rightarrow> int \<Rightarrow> nat \<Rightarrow> string list \<Rightarrow> adjmat \<Rightarrow> (nat \<times> adjmat) outcome" where
  "load_rows atof ftr row [] a = Inr (row, a)"
| "load_rows atof ftr row (line # lines) a =
     andthen (load_row atof (nat ftr) row 0 (strtok_all DELIM [] line) a)
       (\<lambda>(col, a). if int col \<noteq> ftr then Inl Abort else load_rows atof ftr (row + 1) lines a)"

definition loadsnapshot :: "(string \<Rightarrow> double) \<Rightarrow> problem \<Rightarrow> (string \<rightharpoonup> string) \<Rightarrow> dgraphctx \<Rightarrow> dgraphctx outcome" where
  "loadsnapshot atof cfg fs dg =
     (let n = nat (features cfg);
          a = fold (\<lambda>row a. diminishgraphrow n row a) [0..<n] (adj dg)
      in case xfile cfg of
           None \<Rightarrow> Inl Undefined
         | Some x \<Rightarrow>
             (case fs (corr_file x) of
                None \<Rightarrow> Inl Abort
              | Some file \<Rightarrow>
                  andthen (load_rows atof (features cfg) 0 (lines_of file) a) (\<lambda>(row, a).
                    if int row \<noteq> features cfg then Inl Abort
                    else Inr (dg\<lparr>adj := a, adjcopy := copy_all n a (adjcopy dg)\<rparr>))))"

section \<open>Lines and tokens of a snapshot\<close>

lemma fgets_line:
  "CHR 0x0A \<notin> set l \<Longrightarrow> length l < k \<Longrightarrow> fgets_chars k (l @ CHR 0x0A # rest) = (l @ [CHR 0x0A], rest)"
proof (induction l arbitrary: k)
  case Nil
  then show ?case by (cases k) auto
next
  case (Cons c l)
  then show ?case by (cases k) auto
qed

definition is_line :: "string \<Rightarrow> bool" where
  "is_line s \<longleftrightarrow> (\<exists>l. s = l @ [CHR 0x0A] \<and> CHR 0x0A \<notin> set l) \<and> length s < LINEMAX"

lemma lines_of_lines: "\<forall>l \<in> set ls. is_line l \<Longrightarrow> lines_of (concat ls) = ls"
proof (induction ls)
  case Nil
  then show ?case by (subst lines_of.simps) (simp add: fgets_def)
next
  case (Cons s ls)
  then obtain l where l: "s = l @ [CHR 0x0A]" "CHR 0x0A \<notin> set l" "length l < LINEMAX - 1"
    by (auto simp: is_line_def)
  from fgets_line [OF l(2,3)] have "fgets LINEMAX (s @ concat ls) = Some (s, concat ls)"
    using l(1) by (simp add: fgets_def)
  with Cons show ?case by (subst lines_of.simps) simp
qed

lemma strtok_skip: "set t \<inter> set d = {} \<Longrightarrow> strtok_all d cur (t @ r) = strtok_all d (cur @ t) r"
  by (induction t arbitrary: cur) auto

lemma strtok_padded:
  assumes "b \<in> set d" "b' \<in> set d" "\<forall>t \<in> set ts. t \<noteq> [] \<and> set t \<inter> set d = {}"
  shows "strtok_all d [] (concat (map (\<lambda>t. [b] @ t @ [b']) ts) @ r) = ts @ strtok_all d [] r"
  using assms(3) by (induction ts) (use assms(1,2) in \<open>auto simp: strtok_skip\<close>)

definition row_set :: "nat \<Rightarrow> nat \<Rightarrow> double list \<Rightarrow> adjmat \<Rightarrow> adjmat" where
  "row_set row col vs a = (\<lambda>r c. if r = row \<and> col \<le> c \<and> c < col + length vs then vs ! (c - col) else a r c)"

lemma row_set_Cons: "row_set row (Suc col) vs (upd row col v a) = row_set row col (v # vs) a"
  by (auto simp: row_set_def upd_apply fun_eq_iff nth_Cons')

lemma load_row_tokens:
  "row < n \<Longrightarrow> col + length ts \<le> n \<Longrightarrow>
     load_row atof n row col ts a = Inr (col + length ts, row_set row col (map atof ts) a)"
  by (induction ts arbitrary: col a) (auto simp: row_set_Cons, auto simp: row_set_def fun_eq_iff)

lemma load_row_overflow:
  "ts \<noteq> [] \<Longrightarrow> n \<le> row \<or> n < col + length ts \<Longrightarrow> load_row atof n row col ts a = Inl Undefined"
proof (induction ts arbitrary: col a)
  case (Cons t ts)
  then show ?case by (cases "ts = []") auto
qed simp

lemma diminish_all_apply:
  "fold (diminishgraphrow n) [0..<m] a r c = (if r < m \<and> c < n then DGINVALIDENTRY else a r c)"
proof (induction m)
  case (Suc m)
  then show ?case by (auto simp: diminishgraphrow_apply)
qed simp

section \<open>Text of floating point numbers\<close>

text \<open>
  What the program relies on: a printed number is a non-empty text of digits, point and sign, read back
  within half a unit of the 20th decimal, and exactly when it is a whole number.
\<close>

definition is_dig :: "char \<Rightarrow> bool" where "is_dig c \<longleftrightarrow> 48 \<le> (of_char c :: nat) \<and> (of_char c :: nat) \<le> 57"

definition lf_char :: "char \<Rightarrow> bool" where "lf_char c \<longleftrightarrow> is_dig c \<or> c = CHR ''.'' \<or> c = CHR ''-''"

locale lf_text =
  fixes pr :: "double \<Rightarrow> string" and rd :: "string \<Rightarrow> double"
  assumes pr_nonempty: "pr x \<noteq> []"
    and pr_chars: "\<forall>c \<in> set (pr x). lf_char c"
    and rd_pr_close: "\<bar>rd (pr x) - x\<bar> \<le> 1 / (2 * 10 ^ 20)"
    and rd_pr_int: "x \<in> \<int> \<Longrightarrow> rd (pr x) = x"
begin

lemma pr_separate: "set (pr x) \<inter> set DELIM = {}"
proof -
  have "\<forall>c \<in> set DELIM. \<not> lf_char c" by (simp add: DELIM_def lf_char_def is_dig_def)
  then show ?thesis using pr_chars by blast
qed

lemma row_tokens: "strtok_all DELIM [] (row_text pr n a row) = map (\<lambda>col. pr (a row col)) [0..<n]"
proof -
  have "row_text pr n a row =
      concat (map (\<lambda>t. [CHR '' ''] @ t @ [CHR '' '']) (map (\<lambda>col. pr (a row col)) [0..<n])) @ [CHR 0x0A]"
    by (simp add: row_text_def comp_def)
  moreover have "strtok_all DELIM [] \<dots> = map (\<lambda>col. pr (a row col)) [0..<n] @ strtok_all DELIM [] [CHR 0x0A]"
    by (rule strtok_padded) (use pr_nonempty pr_separate in \<open>auto simp: DELIM_def\<close>)
  ultimately show ?thesis by (simp add: DELIM_def)
qed

lemma row_is_line: "length (row_text pr n a row) < LINEMAX \<Longrightarrow> is_line (row_text pr n a row)"
proof -
  have "CHR 0x0A \<notin> set (pr x)" for x using pr_separate [of x] by (auto simp: DELIM_def)
  then show "length (row_text pr n a row) < LINEMAX \<Longrightarrow> ?thesis"
    by (auto simp: is_line_def row_text_def)
qed

lemma load_rows_text:
  "i \<le> n \<Longrightarrow> load_rows rd (int n) i (map (row_text pr n a) [i..<n]) b =
     Inr (n, \<lambda>r c. if i \<le> r \<and> r < n \<and> c < n then rd (pr (a r c)) else b r c)"
proof (induction "n - i" arbitrary: i b)
  case 0
  then have "n = i" by simp
  then show ?case by (auto simp: fun_eq_iff)
next
  case (Suc k)
  then have i: "i < n" "k = n - Suc i" "Suc i \<le> n" by auto
  define b' where "b' = row_set i 0 (map (\<lambda>col. rd (pr (a i col))) [0..<n]) b"
  have "load_row rd n i 0 (map (\<lambda>col. pr (a i col)) [0..<n]) b = Inr (n, b')"
    using load_row_tokens [OF i(1), of 0] by (simp add: b'_def comp_def)
  then have "load_rows rd (int n) i (map (row_text pr n a) [i..<n]) b =
      load_rows rd (int n) (Suc i) (map (row_text pr n a) [Suc i..<n]) b'"
    using upt_conv_Cons [OF i(1)] by (simp add: row_tokens)
  moreover have "b' r c = (if r = i \<and> c < n then rd (pr (a r c)) else b r c)" for r c
    by (simp add: b'_def row_set_def)
  ultimately show ?case using Suc.hyps(1) [OF i(2,3), of b'] i(1)
    by (auto simp: fun_eq_iff Suc_le_eq order_le_less)
qed

lemma load_rows_other_size:
  assumes "m \<noteq> n" "0 < n"
  shows "\<exists>e. load_rows rd (int m) 0 (map (row_text pr n a) [0..<n]) b = Inl e"
proof (cases "m < n")
  case True
  then have "load_row rd m 0 0 (map (\<lambda>col. pr (a 0 col)) [0..<n]) b = Inl Undefined"
    by (intro load_row_overflow) auto
  then show ?thesis using assms by (simp add: upt_conv_Cons row_tokens)
next
  case False
  with assms have "load_row rd m 0 0 (map (\<lambda>col. pr (a 0 col)) [0..<n]) b =
      Inr (n, row_set 0 0 (map rd (map (\<lambda>col. pr (a 0 col)) [0..<n])) b)"
    by (subst load_row_tokens) auto
  then show ?thesis using assms by (simp add: upt_conv_Cons row_tokens)
qed

end

section \<open>Decimal numbers\<close>

definition dig :: "nat \<Rightarrow> char" where "dig d = char_of (48 + d)"

definition dec_value :: "string \<Rightarrow> nat" where
  "dec_value s = foldl (\<lambda>v c. 10 * v + (of_char c - 48)) 0 s"

fun dec_text :: "nat \<Rightarrow> string" where
  "dec_text n = (if n < 10 then [dig n] else dec_text (n div 10) @ [dig (n mod 10)])"

declare dec_text.simps [simp del]

fun dec_pad :: "nat \<Rightarrow> nat \<Rightarrow> string" where
  "dec_pad 0 n = []"
| "dec_pad (Suc k) n = dec_pad k (n div 10) @ [dig (n mod 10)]"

text \<open>\<open>%2.20lf\<close>: sign, whole part, point and 20 decimals, rounded.\<close>

definition print_lf :: "double \<Rightarrow> string" where
  "print_lf x =
     (let k = nat (round (\<bar>x\<bar> * 10 ^ 20)) in
      (if x < 0 then ''-'' else []) @ dec_text (k div 10 ^ 20) @ ''.'' @ dec_pad 20 (k mod 10 ^ 20))"

text \<open>The decimal notation without exponent, as far as \<open>atof\<close> meets it in a snapshot.\<close>

definition parse_lf :: "string \<Rightarrow> double" where
  "parse_lf s =
     (let neg = (s \<noteq> [] \<and> hd s = CHR ''-''); t = (if neg then tl s else s);
          w = takeWhile is_dig t; r = dropWhile is_dig t;
          f = (if r \<noteq> [] \<and> hd r = CHR ''.'' then takeWhile is_dig (tl r) else []);
          v = real (dec_value w) + real (dec_value f) / 10 ^ length f
      in if neg then - v else v)"

lemma dig_props:
  assumes "d < 10"
  shows "is_dig (dig d)" "of_char (dig d) - (48 :: nat) = d"
proof -
  have "(of_char (dig d) :: nat) = 48 + d" using assms by (simp add: dig_def take_bit_nat_eq_self)
  then show "is_dig (dig d)" "of_char (dig d) - (48 :: nat) = d" using assms by (simp_all add: is_dig_def)
qed

lemma dec_value_snoc: "d < 10 \<Longrightarrow> dec_value (s @ [dig d]) = 10 * dec_value s + d"
  by (simp add: dec_value_def dig_props)

lemma dec_text_props: "dec_text n \<noteq> [] \<and> (\<forall>c \<in> set (dec_text n). is_dig c) \<and> dec_value (dec_text n) = n"
proof (induction n rule: dec_text.induct)
  case (1 n)
  show ?case
  proof (cases "n < 10")
    case True
    then show ?thesis using dec_value_snoc [of n "[]"] by (subst (1 2 3) dec_text.simps) (simp add: dig_props dec_value_def)
  next
    case False
    then show ?thesis using 1 by (subst (1 2 3) dec_text.simps) (simp add: dig_props dec_value_snoc)
  qed
qed

lemma dec_pad_props: "length (dec_pad k n) = k \<and> (\<forall>c \<in> set (dec_pad k n). is_dig c) \<and> dec_value (dec_pad k n) = n mod 10 ^ k"
proof (induction k arbitrary: n)
  case (Suc k)
  have "10 * (n div 10 mod 10 ^ k) + n mod 10 = n mod 10 ^ Suc k"
    by (simp add: mod_mult2_eq)
  with Suc show ?case by (simp add: dig_props dec_value_snoc)
qed (simp add: dec_value_def)

lemma nat_div_mod_real: "0 < m \<Longrightarrow> real (k div m) + real (k mod m) / real m = real k / real m"
proof -
  assume "0 < m"
  moreover have "real k = real (k div m) * real m + real (k mod m)"
    by (subst (1) div_mult_mod_eq [of k m, symmetric]) (simp only: of_nat_add of_nat_mult)
  ultimately show ?thesis by (simp add: field_simps)
qed

lemma parse_print_lf:
  "parse_lf (print_lf x) = (if x < 0 then -1 else 1) * real (nat (round (\<bar>x\<bar> * 10 ^ 20))) / 10 ^ 20"
proof -
  define k where "k = nat (round (\<bar>x\<bar> * 10 ^ 20))"
  define w where "w = dec_text (k div 10 ^ 20)"
  define f where "f = dec_pad 20 (k mod 10 ^ 20)"
  have w: "w \<noteq> []" "\<forall>c \<in> set w. is_dig c" "dec_value w = k div 10 ^ 20" using dec_text_props by (simp_all add: w_def)
  have f: "length f = 20" "\<forall>c \<in> set f. is_dig c" "dec_value f = k mod 10 ^ 20" using dec_pad_props by (simp_all add: f_def)
  have nd: "\<not> is_dig (CHR ''.'')" "\<not> is_dig (CHR ''-'')" by (simp_all add: is_dig_def)
  have tw: "takeWhile is_dig (w @ ''.'' @ f) = w" "dropWhile is_dig (w @ ''.'' @ f) = ''.'' @ f" "takeWhile is_dig f = f"
    using w(2) f(2) nd by simp_all
  have hd: "hd (w @ ''.'' @ f) \<noteq> CHR ''-''" using w(1,2) nd(2) by (cases w) auto
  have "real (k div 10 ^ 20) + real (k mod 10 ^ 20) / 10 ^ 20 = real k / 10 ^ 20"
    using nat_div_mod_real [of "10 ^ 20" k] by (simp only: of_nat_power of_nat_numeral zero_less_power zero_less_numeral)
  moreover have "print_lf x = (if x < 0 then ''-'' else []) @ w @ ''.'' @ f"
    by (simp only: print_lf_def k_def w_def f_def Let_def)
  moreover have "parse_lf ((if x < 0 then ''-'' else []) @ w @ ''.'' @ f) =
      (if x < 0 then -1 else 1) * (real (dec_value w) + real (dec_value f) / 10 ^ length f)"
    using tw hd w(1) by (auto simp: parse_lf_def Let_def simp del: takeWhile_eq_all_conv)
  ultimately show ?thesis using w(3) f(1,3) by (simp only: k_def [symmetric] times_divide_eq_right)
qed

lemma near_scaled: "\<bar>y - z * d\<bar> \<le> 1 / 2 \<Longrightarrow> 0 < d \<Longrightarrow> \<bar>y / d - z\<bar> \<le> 1 / (2 * d)" for y z d :: real
proof -
  assume h: "\<bar>y - z * d\<bar> \<le> 1 / 2" "0 < d"
  then have "\<bar>y / d - z\<bar> = \<bar>y - z * d\<bar> / d" by (simp add: diff_divide_distrib [symmetric] field_simps abs_divide [symmetric])
  also have "\<dots> \<le> 1 / 2 / d" using h by (intro divide_right_mono) simp_all
  finally show ?thesis by simp
qed

lemma near_sign: "\<bar>y / d - \<bar>x\<bar>\<bar> \<le> e \<Longrightarrow> \<bar>(if x < 0 then -1 else 1) * y / d - x\<bar> \<le> e" for x y d e :: real
  by (auto split: if_splits)

interpretation decimal: lf_text print_lf parse_lf
proof
  fix x
  show "print_lf x \<noteq> []" by (simp add: print_lf_def Let_def)
  show "\<forall>c \<in> set (print_lf x). lf_char c"
    using dec_text_props dec_pad_props by (auto simp: print_lf_def Let_def lf_char_def)
  have k: "real (nat (round (\<bar>x\<bar> * 10 ^ 20))) = of_int (round (\<bar>x\<bar> * 10 ^ 20))"
    by (simp add: round_def)
  have "\<bar>of_int (round (\<bar>x\<bar> * 10 ^ 20)) - \<bar>x\<bar> * 10 ^ 20\<bar> \<le> 1 / 2" by (rule of_int_round_abs_le)
  from near_scaled [OF this] have "\<bar>of_int (round (\<bar>x\<bar> * 10 ^ 20)) / 10 ^ 20 - \<bar>x\<bar>\<bar> \<le> 1 / (2 * 10 ^ 20)"
    by (simp only: zero_less_power zero_less_numeral)
  from near_sign [OF this] show "\<bar>parse_lf (print_lf x) - x\<bar> \<le> 1 / (2 * 10 ^ 20)"
    unfolding parse_print_lf k .
  assume "x \<in> \<int>"
  then obtain i where "x = of_int i" by (auto elim: Ints_cases)
  then have "\<bar>x\<bar> * 10 ^ 20 = of_int (\<bar>i\<bar> * 10 ^ 20)" by simp
  then have "round (\<bar>x\<bar> * 10 ^ 20) = \<bar>i\<bar> * 10 ^ 20" by (metis round_of_int)
  then show "parse_lf (print_lf x) = x" unfolding parse_print_lf k using \<open>x = of_int i\<close> by simp
qed

section \<open>What a snapshot keeps\<close>

lemma small_not_invalid:
  fixes x y :: double
  assumes "x = DGINVALIDENTRY \<or> \<bar>x\<bar> \<le> 1" "\<bar>y - x\<bar> \<le> 1 / (2 * 10 ^ 20)" "x = DGINVALIDENTRY \<Longrightarrow> y = x"
  shows "y = DGINVALIDENTRY \<longleftrightarrow> x = DGINVALIDENTRY"
proof -
  have "1 / (2 * 10 ^ 20) \<le> (1 :: real)" by simp
  with assms show ?thesis by (auto simp: abs_if split: if_splits)
qed

text \<open>Two variables with correlation 1/3, for the witnesses.\<close>

definition snap_cfg :: "int \<Rightarrow> problem" where
  "snap_cfg n = \<lparr>X = [], Y = [], features = n, samples = 0, xfile = Some ''x'', yfile = None, cmX = []\<rparr>"

definition demo_snap :: dgraphctx where
  "demo_snap = \<lparr>adj = (\<lambda>r c. if r = c then 1000 else 1 / 3), adjcopy = (\<lambda>_ _. 0), dg_features = 2, workmem = (\<lambda>_. 0)\<rparr>"

lemma dec_text_length: "length (dec_text n) \<le> n + 1"
proof (induction n rule: dec_text.induct)
  case (1 n)
  then show ?case by (cases "n < 10"; subst dec_text.simps) auto
qed

lemma print_lf_length:
  assumes "\<bar>x\<bar> \<le> 1000"
  shows "length (print_lf x) \<le> 1100"
proof -
  define D :: nat where "D = 10 ^ 20"
  have "\<bar>x\<bar> * 10 ^ 20 \<le> of_int (int (1000 * D))" using assms by (simp add: D_def)
  then have "round (\<bar>x\<bar> * 10 ^ 20) \<le> int (1000 * D)" using round_mono by (metis round_of_int)
  then have "nat (round (\<bar>x\<bar> * 10 ^ 20)) div D \<le> 1000 * D div D" by (intro div_le_mono) linarith
  then have "nat (round (\<bar>x\<bar> * 10 ^ 20)) div D \<le> 1000" by (simp add: D_def)
  then have "length (dec_text (nat (round (\<bar>x\<bar> * 10 ^ 20)) div D)) \<le> 1001"
    using dec_text_length [of "nat (round (\<bar>x\<bar> * 10 ^ 20)) div D"] by linarith
  then show ?thesis using dec_pad_props [of 20] by (auto simp: print_lf_def Let_def D_def)
qed

lemma demo_lines: "\<forall>r<2. length (row_text print_lf 2 (adj demo_snap) r) < LINEMAX"
proof -
  have "length (print_lf (adj demo_snap r c)) \<le> 1100" for r c by (rule print_lf_length) (simp add: demo_snap_def)
  then have "length (print_lf (adj demo_snap r 0)) + length (print_lf (adj demo_snap r (Suc 0))) \<le> 2200" for r
    by (metis add_mono mult_2 numeral_Bit0 one_add_one)
  then have "length (print_lf (adj demo_snap r 0)) + length (print_lf (adj demo_snap r (Suc 0))) < 39999995" for r
    by (rule order_le_less_trans) simp
  then show ?thesis by (simp add: row_text_def upt_rec LINEMAX_def)
qed

text \<open>
  C27. A graph stored by \<open>snapshotdbgraph\<close> is loaded by \<open>loadsnapshot\<close>, into any graph of the same
  size: every entry comes back within half a unit of the 20th decimal, exactly when it is a whole number,
  and the edges taken out (entry 1000) are the same as before; the recovery copy equals
  the loaded matrix and the rest of the graph is unchanged. Entries are correlations or
  invalid, and a line must fit the line buffer.
\<close>

theorem snapshot_roundtrip:
  assumes "lf_text pr atof" and "xfile cfg = Some x" and "can_write (corr_file x)" and "features cfg = int n"
    and "\<forall>r<n. length (row_text pr n (adj dg) r) < LINEMAX"
    and "\<forall>r<n. \<forall>c<n. adj dg r c = DGINVALIDENTRY \<or> \<bar>adj dg r c\<bar> \<le> 1"
  shows "\<exists>fs' dg'. snapshotdbgraph pr can_write cfg dg fs = Inr fs' \<and> loadsnapshot atof cfg fs' dg0 = Inr dg' \<and>
    (\<forall>r<n. \<forall>c<n. \<bar>adj dg' r c - adj dg r c\<bar> \<le> 1 / (2 * 10 ^ 20) \<and> (adj dg r c \<in> \<int> \<longrightarrow> adj dg' r c = adj dg r c) \<and>
       (adj dg' r c = DGINVALIDENTRY \<longleftrightarrow> adj dg r c = DGINVALIDENTRY) \<and> adjcopy dg' r c = adj dg' r c) \<and>
    dg_features dg' = dg_features dg0 \<and> workmem dg' = workmem dg0"
proof -
  let ?a = "\<lambda>r c. if r < n \<and> c < n then atof (pr (adj dg r c)) else adj dg0 r c"
  let ?text = "concat (map (row_text pr n (adj dg)) [0..<n])"
  note lf = lf_text.rd_pr_close [OF assms(1)] lf_text.rd_pr_int [OF assms(1)]
  have "lines_of ?text = map (row_text pr n (adj dg)) [0..<n]"
    using assms(5) lf_text.row_is_line [OF assms(1)] by (intro lines_of_lines) auto
  then have "loadsnapshot atof cfg (fs(corr_file x \<mapsto> ?text)) dg0 =
      Inr (dg0\<lparr>adj := ?a, adjcopy := copy_all n ?a (adjcopy dg0)\<rparr>)"
    using assms(2,4) lf_text.load_rows_text [OF assms(1), of 0 n]
    by (simp add: loadsnapshot_def Let_def diminish_all_apply cong: if_cong)
  moreover have "snapshotdbgraph pr can_write cfg dg fs = Inr (fs(corr_file x \<mapsto> ?text))"
    using assms(2-4) by (simp add: snapshotdbgraph_def)
  moreover have "?a r c = DGINVALIDENTRY \<longleftrightarrow> adj dg r c = DGINVALIDENTRY" if "r < n" "c < n" for r c
    using that assms(6) lf by (simp only: if_True simp_thms) (rule small_not_invalid, auto)
  ultimately show ?thesis using lf
    by (intro exI [of _ "fs(corr_file x \<mapsto> ?text)"]
        exI [of _ "dg0\<lparr>adj := ?a, adjcopy := copy_all n ?a (adjcopy dg0)\<rparr>"] conjI) (auto simp: copy_all_apply)
qed

theorem snapshot_roundtrip_witness:
  "\<exists>fs' dg'. snapshotdbgraph print_lf (\<lambda>_. True) (snap_cfg 2) demo_snap Map.empty = Inr fs' \<and>
     loadsnapshot parse_lf (snap_cfg 2) fs' (initdgraph (snap_cfg 2)) = Inr dg' \<and>
     adj dg' 1 1 = 1000 \<and> adj dg' 0 1 \<noteq> 1000 \<and> \<bar>adj dg' 0 1 - 1 / 3\<bar> \<le> 1 / (2 * 10 ^ 20)"
proof -
  have c: "xfile (snap_cfg 2) = Some ''x''" "features (snap_cfg 2) = int 2" by (simp_all add: snap_cfg_def)
  have g: "\<forall>r<2. \<forall>c<2. adj demo_snap r c = DGINVALIDENTRY \<or> \<bar>adj demo_snap r c\<bar> \<le> 1" by (simp add: demo_snap_def)
  from snapshot_roundtrip [OF decimal.lf_text_axioms c(1) TrueI c(2) demo_lines g, of Map.empty "initdgraph (snap_cfg 2)"]
  obtain fs' dg' where h: "snapshotdbgraph print_lf (\<lambda>_. True) (snap_cfg 2) demo_snap Map.empty = Inr fs'"
    "loadsnapshot parse_lf (snap_cfg 2) fs' (initdgraph (snap_cfg 2)) = Inr dg'"
    "\<forall>r<2. \<forall>c<2. \<bar>adj dg' r c - adj demo_snap r c\<bar> \<le> 1 / (2 * 10 ^ 20) \<and> (adj dg' r c = DGINVALIDENTRY \<longleftrightarrow> adj demo_snap r c = DGINVALIDENTRY)"
    by blast
  from h(3) [rule_format, of 1 1] h(3) [rule_format, of 0 1]
  have "adj dg' 1 1 = 1000 \<and> adj dg' 0 1 \<noteq> 1000 \<and> \<bar>adj dg' 0 1 - 1 / 3\<bar> \<le> 1 / (2 * 10 ^ 20)"
    by (simp add: demo_snap_def)
  with h(1,2) show ?thesis by blast
qed

text \<open>
  The snapshot of a graph of another size is never accepted: \<open>loadsnapshot\<close> stops with a failed
  assertion, or writes outside the matrix when the file has more columns.
\<close>

lemma snapshot_other_size_rejected:
  assumes "lf_text pr atof" and "xfile cfg = Some x" and "features cfg = int n" and "0 < n"
    and "\<forall>r<n. length (row_text pr n (adj dg) r) < LINEMAX"
    and "snapshotdbgraph pr can_write cfg dg fs = Inr fs'"
    and "xfile cfg' = Some x" and "features cfg' = int m" and "m \<noteq> n"
  shows "\<exists>e. loadsnapshot atof cfg' fs' dg0 = Inl e"
proof -
  let ?text = "concat (map (row_text pr n (adj dg)) [0..<n])"
  have "lines_of ?text = map (row_text pr n (adj dg)) [0..<n]"
    using assms(5) lf_text.row_is_line [OF assms(1)] by (intro lines_of_lines) auto
  moreover have "fs' (corr_file x) = Some ?text"
    using assms(2,3,6) by (auto simp: snapshotdbgraph_def Let_def split: if_splits)
  moreover obtain e where "load_rows atof (int m) 0 (map (row_text pr n (adj dg)) [0..<n])
      (fold (\<lambda>row a. diminishgraphrow m row a) [0..<m] (adj dg0)) = Inl e"
    using lf_text.load_rows_other_size [OF assms(1,9,4)] by blast
  ultimately show ?thesis using assms(7,8) by (auto simp: loadsnapshot_def)
qed

lemma snapshot_other_size_rejected_witness:
  "\<exists>fs' e. snapshotdbgraph print_lf (\<lambda>_. True) (snap_cfg 2) demo_snap Map.empty = Inr fs' \<and>
     loadsnapshot parse_lf (snap_cfg 3) fs' (initdgraph (snap_cfg 3)) = Inl e"
proof -
  have c: "xfile (snap_cfg 2) = Some ''x''" "features (snap_cfg 2) = int 2" "(0::nat) < 2"
    "xfile (snap_cfg 3) = Some ''x''" "features (snap_cfg 3) = int 3" "(3::nat) \<noteq> 2"
    by (simp_all add: snap_cfg_def)
  obtain fs' where f: "snapshotdbgraph print_lf (\<lambda>_. True) (snap_cfg 2) demo_snap Map.empty = Inr fs'"
    by (simp add: snapshotdbgraph_def c(1) Let_def)
  from snapshot_other_size_rejected [OF decimal.lf_text_axioms c(1-3) demo_lines f c(4-6)] f show ?thesis by blast
qed

end
