(* ===== verification/Mpi_Main.thy ===== *)
theory Mpi_Main
  imports Mpi_Input Mpi_System
begin

text \<open>
  Start-up of the MPI test: the command line (\<open>src/mpi/options.cpp\<close>) and the set-up of the process
  (\<open>main\<close> and \<open>create_threadcxt\<close> of \<open>src/mpi/dynamic.cpp\<close>). \<open>getopt\<close> and \<open>strtol\<close> are modelled as the C
  library defines them; \<open>strtod\<close> is an argument. Theorems: what accepted options guarantee, the
  options that cannot be used, the roles and thread numbers of the processes.
\<close>

section \<open>The C library's part\<close>

text \<open>Whether \<open>optstring\<close> knows an option, and whether the option takes an argument.\<close>

fun opt_kind :: "string \<Rightarrow> char \<Rightarrow> bool option" where
  "opt_kind [] c = None"
| "opt_kind (x # xs) c =
     (if x = c \<and> c \<noteq> CHR '':'' then Some (xs \<noteq> [] \<and> hd xs = CHR '':'') else opt_kind xs c)"

text \<open>
  The results of repeated calls of \<open>getopt\<close>: the option character and \<open>optarg\<close>. \<open>cur\<close> is the
  rest of the argument being scanned; an argument that is not an option is skipped.
\<close>

function getopt_scan :: "string \<Rightarrow> string \<Rightarrow> string list \<Rightarrow> (char \<times> string option) list" where
  "getopt_scan opts [] [] = []"
| "getopt_scan opts [] (a # args) =
     (if a = ''--'' then []
      else if a \<noteq> [] \<and> hd a = CHR ''-'' \<and> tl a \<noteq> [] then getopt_scan opts (tl a) args
      else getopt_scan opts [] args)"
| "getopt_scan opts (c # cs) args =
     (case opt_kind opts c of
        None \<Rightarrow> (CHR ''?'', None) # getopt_scan opts cs args
      | Some False \<Rightarrow> (c, None) # getopt_scan opts cs args
      | Some True \<Rightarrow>
          if cs \<noteq> [] then (c, Some cs) # getopt_scan opts [] args
          else (case args of
                  [] \<Rightarrow> [(CHR ''?'', None)]
                | a # as \<Rightarrow> (c, Some a) # getopt_scan opts [] as))"
  by pat_completeness auto
termination
  by (relation "measure (\<lambda>(opts, cur, args). length cur + sum_list (map (\<lambda>a. Suc (length a)) args))")
    (auto simp: less_Suc_eq_le)

declare getopt_scan.simps [simp del]

definition isspace :: "char \<Rightarrow> bool" where
  "isspace c \<longleftrightarrow> c \<in> {CHR '' '', CHR 0x09, CHR 0x0A, CHR 0x0B, CHR 0x0C, CHR 0x0D}"

definition digit_val :: "char \<Rightarrow> int" where
  "digit_val c = int (of_char c) - 48"

definition isdigit :: "char \<Rightarrow> bool" where
  "isdigit c \<longleftrightarrow> 0 \<le> digit_val c \<and> digit_val c \<le> 9"

definition strtol :: "string \<Rightarrow> int" where
  "strtol s =
     (let s = dropWhile isspace s;
          neg = (s \<noteq> [] \<and> hd s = CHR ''-'');
          s = (if s \<noteq> [] \<and> (hd s = CHR ''-'' \<or> hd s = CHR ''+'') then tl s else s);
          v = foldl (\<lambda>a c. 10 * a + digit_val c) 0 (takeWhile isdigit s);
          v = (if neg then - v else v)
      in max (- (2 ^ 63)) (min (2 ^ 63 - 1) v))"

text \<open>Conversion of a \<open>long\<close> to an \<open>int\<close>.\<close>

definition to_int :: "int \<Rightarrow> int" where
  "to_int v = signed_take_bit 31 v"

lemma to_int_id: "- (2 ^ 31) \<le> v \<Longrightarrow> v < 2 ^ 31 \<Longrightarrow> to_int v = v"
  by (simp add: to_int_def signed_take_bit_int_eq_self)

section \<open>Options\<close>

definition DEFAULT_MAX_ITER :: int where "DEFAULT_MAX_ITER = 10000000"
definition DEFAULT_MAX_TIME_SEC :: int where "DEFAULT_MAX_TIME_SEC = 10000000"
definition optstring :: string where "optstring = ''V?hd:o:m:t:l:ie''"

record opt_state =
  o_pcfg :: problem
  o_ctx :: context_t
  o_expt :: experiments
  o_err :: int

text \<open>One turn of the option loop. Reading a null \<open>optarg\<close> is undefined.\<close>

definition option_step :: "(string \<Rightarrow> double) \<Rightarrow> char \<times> string option \<Rightarrow> opt_state \<Rightarrow> opt_state outcome" where
  "option_step strtod ev st =
     (let c = fst ev; optarg = snd ev in
      if c = CHR ''h'' \<or> c = CHR ''?'' then Inl (Exit 0)
      else if c = CHR ''d'' then
        (case optarg of None \<Rightarrow> Inl Undefined
         | Some a \<Rightarrow> Inr (st\<lparr>o_pcfg := (o_pcfg st)\<lparr>xfile := Some a\<rparr>\<rparr>))
      else if c = CHR ''o'' then
        (case optarg of None \<Rightarrow> Inl Undefined
         | Some a \<Rightarrow> Inr (st\<lparr>o_pcfg := (o_pcfg st)\<lparr>yfile := Some a\<rparr>\<rparr>))
      else if c = CHR ''m'' then
        (case optarg of None \<Rightarrow> Inl Undefined
         | Some a \<Rightarrow> let v = to_int (strtol a) in
             Inr (st\<lparr>o_ctx := (o_ctx st)\<lparr>machines := v\<rparr>, o_err := (if v < 1 then 1 else o_err st)\<rparr>))
      else if c = CHR ''t'' then
        (case optarg of None \<Rightarrow> Inl Undefined
         | Some a \<Rightarrow> let v = to_int (strtol a) in
             Inr (st\<lparr>o_ctx := (o_ctx st)\<lparr>thrdpm := v\<rparr>, o_err := (if v < 1 then 1 else o_err st)\<rparr>))
      else if c = CHR ''l'' then
        (case optarg of None \<Rightarrow> Inl Undefined
         | Some a \<Rightarrow> let v = strtod a in
             Inr (st\<lparr>o_ctx := (o_ctx st)\<lparr>lamda := v\<rparr>, o_err := (if v \<le> 0 then 1 else o_err st)\<rparr>))
      else if c = CHR ''i'' then
        (case optarg of None \<Rightarrow> Inl Undefined
         | Some a \<Rightarrow> let v = to_int (strtol a) in
             Inr (st\<lparr>o_expt := (o_expt st)\<lparr>maxiter := v\<rparr>, o_err := (if v < 1 then 1 else o_err st)\<rparr>))
      else if c = CHR ''e'' then
        (case optarg of None \<Rightarrow> Inl Undefined
         | Some a \<Rightarrow> let v = to_int (strtol a) in
             Inr (st\<lparr>o_expt := (o_expt st)\<lparr>timelimit := v\<rparr>, o_err := (if v < 1 then 1 else o_err st)\<rparr>))
      else Inr (st\<lparr>o_err := -1\<rparr>))"

fun option_loop :: "(string \<Rightarrow> double) \<Rightarrow> (char \<times> string option) list \<Rightarrow> opt_state \<Rightarrow> opt_state outcome" where
  "option_loop strtod [] st = Inr st"
| "option_loop strtod (ev # evs) st = andthen (option_step strtod ev st) (option_loop strtod evs)"

definition get_options :: "(string \<Rightarrow> double) \<Rightarrow> string list \<Rightarrow> problem \<Rightarrow> context_t \<Rightarrow> experiments \<Rightarrow>
    (problem \<times> context_t \<times> experiments) outcome" where
  "get_options strtod args pcfg ctx expt0 =
     (let ex = expt0\<lparr>maxiter := DEFAULT_MAX_ITER, timelimit := DEFAULT_MAX_TIME_SEC\<rparr> in
      andthen (option_loop strtod (getopt_scan optstring [] args)
                 \<lparr>o_pcfg = pcfg, o_ctx = ctx, o_expt = ex, o_err = 0\<rparr>) (\<lambda>st.
        let c = (o_ctx st)\<lparr>thrds := to_int (machines (o_ctx st) * thrdpm (o_ctx st))\<rparr> in
        if o_err st \<noteq> 0 then Inl (Exit 1) else Inr (o_pcfg st, c, o_expt st)))"

section \<open>Process set-up\<close>

record thrctx =
  t_lid :: int
  t_gid :: int
  t_rank :: int
  t_mctx :: context_t
  t_pbcfg :: problem

definition create_threadcxt :: "context_t \<Rightarrow> problem \<Rightarrow> int \<Rightarrow> thrctx list \<times> schedctx \<times> schedctx" where
  "create_threadcxt ctx cfg r =
     (map (\<lambda>i. \<lparr>t_lid = int i, t_gid = to_int (r * thrdpm ctx + int i), t_rank = r,
                t_mctx = ctx, t_pbcfg = cfg\<rparr>) [0..<nat (thrdpm ctx)],
      \<lparr>rank = r, inmsg = 0, outmsg = 0, mctx = ctx\<rparr>,
      \<lparr>rank = r, inmsg = 0, outmsg = 0, mctx = ctx\<rparr>)"

text \<open>The threads a process starts: workers and \<open>sched_client\<close>, or \<open>sched_server\<close>.\<close>

datatype role = Client "thrctx list" schedctx problem | Server schedctx problem

definition zero_problem :: problem where
  "zero_problem = \<lparr>X = [], Y = [], features = 0, samples = 0, xfile = None, yfile = None, cmX = []\<rparr>"

definition zero_ctx :: context_t where
  "zero_ctx = \<lparr>machines = 0, thrdpm = 0, thrds = 0, lamda = 0, mpi_size = 0, schedrank = 0,
     expt = \<lparr>maxiter = 0, timelimit = 0\<rparr>\<rparr>"

text \<open>
  \<open>prc r\<close> are the results of the \<open>pthread\<close> calls of rank \<open>r\<close>, in order: of \<open>pthread_attr_init\<close>, then of each \<open>pthread_create\<close>. Each is asserted to be 0.
\<close>

definition dynamic_main :: "(string \<Rightarrow> double) \<Rightarrow> (string \<Rightarrow> double option) \<Rightarrow> (string \<rightharpoonup> string) \<Rightarrow>
    (int \<Rightarrow> nat \<Rightarrow> int) \<Rightarrow> string list \<Rightarrow> int \<Rightarrow> int \<Rightarrow> role outcome" where
  "dynamic_main strtod scan_lf fs prc args sz r =
     (if prc r 0 \<noteq> 0 then Inl Abort else
     andthen (get_options strtod args zero_problem zero_ctx \<lparr>maxiter = 0, timelimit = 0\<rparr>) (\<lambda>(pcfg, ctx, ex).
     let ctx = ctx\<lparr>mpi_size := sz, schedrank := sz - 1\<rparr> in
     if sz \<noteq> machines ctx + 1 then Inl Abort
     else
       let ctx = ctx\<lparr>expt := ex\<rparr> in
       andthen (getinput scan_lf fs pcfg) (\<lambda>pcfg.
       let pcfg = makecm pcfg; (thctx, scheds, schedc) = create_threadcxt ctx pcfg r in
       if r < machines ctx then
         if \<exists>k<nat (thrdpm ctx) + 1. prc r (k + 1) \<noteq> 0 then Inl Abort else Inr (Client thctx schedc pcfg)
       else if prc r 1 \<noteq> 0 then Inl Abort else Inr (Server scheds pcfg))))"

section \<open>What the options guarantee\<close>

lemma getopt_no_arg:
  "(c, a) \<in> set (getopt_scan opts cur args) \<Longrightarrow> opt_kind opts c = Some False \<Longrightarrow> a = None"
proof (induction opts cur args rule: getopt_scan.induct)
  case (2 opts x args)
  then show ?case by (simp add: getopt_scan.simps(2) split: if_split_asm)
next
  case (3 opts x cs args)
  note eq = getopt_scan.simps(3) [of opts x cs args]
  note prem = "3.prems"(1) [unfolded eq]
  show ?case
  proof (cases "opt_kind opts x")
    case None
    with 3 show ?thesis by (auto simp: eq)
  next
    case (Some b)
    show ?thesis
    proof (cases b)
      case False
      with Some 3 show ?thesis by (auto simp: eq)
    next
      case True
      show ?thesis
      proof (cases "cs = []")
        case True
        with \<open>b\<close> Some "3.prems"(2) prem "3.IH"(3) show ?thesis by (auto split: list.splits)
      next
        case False
        with \<open>b\<close> Some "3.prems"(2) prem have "(c, a) \<in> set (getopt_scan opts [] args)" by auto
        with \<open>b\<close> Some False "3.prems"(2) "3.IH"(2) show ?thesis by blast
      qed
    qed
  qed
qed (simp add: getopt_scan.simps(1))

lemma option_step_ok:
  assumes "option_step strtod ev st = Inr st'" and "o_err st' = 0"
  shows "o_err st = 0"
    "fst ev = CHR ''m'' \<Longrightarrow> 1 \<le> machines (o_ctx st')"
    "fst ev \<noteq> CHR ''m'' \<Longrightarrow> machines (o_ctx st') = machines (o_ctx st)"
    "fst ev = CHR ''t'' \<Longrightarrow> 1 \<le> thrdpm (o_ctx st')"
    "fst ev \<noteq> CHR ''t'' \<Longrightarrow> thrdpm (o_ctx st') = thrdpm (o_ctx st)"
    "fst ev \<notin> {CHR ''i'', CHR ''e''} \<Longrightarrow> o_expt st' = o_expt st"
  using assms
  by (auto simp: option_step_def Let_def split: if_splits option.splits)

lemma option_loop_ok:
  assumes "option_loop strtod evs st = Inr st'" and "o_err st' = 0"
  shows "o_err st = 0 \<and>
    (CHR ''m'' \<in> fst ` set evs \<or> 1 \<le> machines (o_ctx st) \<longrightarrow> 1 \<le> machines (o_ctx st')) \<and>
    (CHR ''t'' \<in> fst ` set evs \<or> 1 \<le> thrdpm (o_ctx st) \<longrightarrow> 1 \<le> thrdpm (o_ctx st')) \<and>
    (fst ` set evs \<inter> {CHR ''i'', CHR ''e''} = {} \<longrightarrow> o_expt st' = o_expt st)"
  using assms
proof (induction evs arbitrary: st)
  case Nil
  then show ?case by simp
next
  case (Cons ev evs)
  from Cons.prems(1) obtain u where u: "option_step strtod ev st = Inr u" "option_loop strtod evs u = Inr st'"
    by (auto simp: andthen_eq_Inr_iff)
  note IH = Cons.IH [OF u(2) Cons.prems(2)]
  note ok = option_step_ok [OF u(1)]
  show ?case using IH ok
    by (cases "fst ev = CHR ''m''"; cases "fst ev = CHR ''t''") auto
qed

lemma option_ie_undefined:
  assumes "\<forall>ev \<in> set evs. fst ev \<notin> {CHR ''h'', CHR ''?''}"
    and "(c, None) \<in> set evs" and "c \<in> {CHR ''i'', CHR ''e''}"
  shows "option_loop strtod evs st = Inl Undefined"
  using assms
proof (induction evs arbitrary: st)
  case (Cons ev evs)
  show ?case
  proof (cases "ev = (c, None)")
    case True
    with Cons.prems(3) show ?thesis by (auto simp: option_step_def)
  next
    case False
    with Cons have IH: "\<And>st. option_loop strtod evs st = Inl Undefined" by auto
    have "fst ev \<noteq> CHR ''h''" "fst ev \<noteq> CHR ''?''" using Cons.prems(1) by auto
    then have "(\<exists>u. option_step strtod ev st = Inr u) \<or> option_step strtod ev st = Inl Undefined"
      by (auto simp: option_step_def Let_def split: option.splits)
    with IH show ?thesis by auto
  qed
qed simp

lemma option_loop_no_help:
  "option_loop strtod evs st = Inr st' \<Longrightarrow> \<forall>ev \<in> set evs. fst ev \<notin> {CHR ''h'', CHR ''?''}"
proof (induction evs arbitrary: st)
  case (Cons ev evs)
  then obtain u where "option_step strtod ev st = Inr u" "option_loop strtod evs u = Inr st'"
    by (auto simp: andthen_eq_Inr_iff)
  with Cons.IH show ?case by (auto simp: option_step_def Let_def split: if_splits)
qed simp

text \<open>
  C36. Accepted command lines: when \<open>get_options\<close> returns, a machine count and a thread count that
  were given are at least 1, \<open>thrds\<close> is their product as an \<open>int\<close>, and the experiment limits are
  the defaults.
\<close>

theorem get_options_sound:
  assumes "get_options strtod args p0 c0 e0 = Inr (pcfg, ctx, ex)"
  shows "(CHR ''m'' \<in> fst ` set (getopt_scan optstring [] args) \<longrightarrow> 1 \<le> machines ctx) \<and>
    (CHR ''t'' \<in> fst ` set (getopt_scan optstring [] args) \<longrightarrow> 1 \<le> thrdpm ctx) \<and>
    thrds ctx = to_int (machines ctx * thrdpm ctx) \<and>
    maxiter ex = DEFAULT_MAX_ITER \<and> timelimit ex = DEFAULT_MAX_TIME_SEC"
proof -
  let ?evs = "getopt_scan optstring [] args"
  from assms obtain st where st: "option_loop strtod ?evs
      \<lparr>o_pcfg = p0, o_ctx = c0, o_expt = e0\<lparr>maxiter := DEFAULT_MAX_ITER, timelimit := DEFAULT_MAX_TIME_SEC\<rparr>, o_err = 0\<rparr> = Inr st"
    and e: "o_err st = 0" and c: "ctx = (o_ctx st)\<lparr>thrds := to_int (machines (o_ctx st) * thrdpm (o_ctx st))\<rparr>"
    and x: "ex = o_expt st"
    by (auto simp: get_options_def Let_def andthen_eq_Inr_iff split: if_splits)
  have hq: "\<forall>ev \<in> set ?evs. fst ev \<notin> {CHR ''h'', CHR ''?''}"
    using st by (rule option_loop_no_help)
  have "fst ` set ?evs \<inter> {CHR ''i'', CHR ''e''} = {}"
  proof (rule ccontr)
    assume "fst ` set ?evs \<inter> {CHR ''i'', CHR ''e''} \<noteq> {}"
    then obtain ch a where ch: "(ch, a) \<in> set ?evs" "ch \<in> {CHR ''i'', CHR ''e''}" by auto
    then have "opt_kind optstring ch = Some False" by (auto simp: optstring_def)
    with ch getopt_no_arg have "(ch, None) \<in> set ?evs" by metis
    from option_ie_undefined [OF hq this ch(2)] st show False by simp
  qed
  with option_loop_ok [OF st e] show ?thesis by (simp add: c x)
qed

definition run_py_args :: "string list" where
  "run_py_args = [''-d./tmpdata/human_X.txt.463.4000'', ''-o./tmpdata/human_Y.txt'', ''-m2'', ''-t7'']"

lemma run_py_events:
  "getopt_scan optstring [] run_py_args =
     [(CHR ''d'', Some ''./tmpdata/human_X.txt.463.4000''), (CHR ''o'', Some ''./tmpdata/human_Y.txt''),
      (CHR ''m'', Some ''2''), (CHR ''t'', Some ''7'')]"
  by (simp add: run_py_args_def optstring_def getopt_scan.simps)

lemma run_py_strtol: "to_int (strtol ''2'') = 2" "to_int (strtol ''7'') = 7"
  by (simp_all add: strtol_def isspace_def isdigit_def digit_val_def of_char_def to_int_id)

lemma run_py_options:
  "get_options strtod run_py_args zero_problem zero_ctx e0 =
     Inr (zero_problem\<lparr>xfile := Some ''./tmpdata/human_X.txt.463.4000'', yfile := Some ''./tmpdata/human_Y.txt''\<rparr>,
       zero_ctx\<lparr>machines := 2, thrdpm := 7, thrds := 14\<rparr>,
       e0\<lparr>maxiter := DEFAULT_MAX_ITER, timelimit := DEFAULT_MAX_TIME_SEC\<rparr>)"
  by (simp add: get_options_def run_py_events option_step_def run_py_strtol to_int_id Let_def)

theorem get_options_sound_witness:
  "\<exists>p c e. get_options (\<lambda>_. 0) run_py_args zero_problem zero_ctx \<lparr>maxiter = 0, timelimit = 0\<rparr> = Inr (p, c, e) \<and>
     1 \<le> machines c \<and> 1 \<le> thrdpm c \<and> thrds c = to_int (machines c * thrdpm c)"
  using get_options_sound [OF run_py_options [of "\<lambda>_. 0" "\<lparr>maxiter = 0, timelimit = 0\<rparr>"]]
  by (simp add: run_py_options run_py_events)

text \<open>
  The options \<open>-i\<close> and \<open>-e\<close> cannot be used: the option string gives them no argument, so
  \<open>strtol\<close> reads a null pointer whenever one of them is reached.
\<close>

lemma limits_options_crash:
  assumes "c \<in> {CHR ''i'', CHR ''e''}" and "c \<in> fst ` set (getopt_scan optstring [] args)"
    and "fst ` set (getopt_scan optstring [] args) \<inter> {CHR ''h'', CHR ''?''} = {}"
  shows "get_options strtod args p0 c0 e0 = Inl Undefined"
proof -
  from assms(2) obtain a where a: "(c, a) \<in> set (getopt_scan optstring [] args)" by auto
  moreover have "opt_kind optstring c = Some False" using assms(1) by (auto simp: optstring_def)
  ultimately have "(c, None) \<in> set (getopt_scan optstring [] args)" using getopt_no_arg by metis
  then have u: "option_loop strtod (getopt_scan optstring [] args) st = Inl Undefined" if
    "\<forall>ev \<in> set (getopt_scan optstring [] args). fst ev \<notin> {CHR ''h'', CHR ''?''}" for st
    using option_ie_undefined [OF that _ assms(1)] by blast
  have "\<forall>ev \<in> set (getopt_scan optstring [] args). fst ev \<notin> {CHR ''h'', CHR ''?''}"
    using assms(3) by blast
  from u [OF this] show ?thesis by (simp add: get_options_def Let_def)
qed

lemma limits_options_crash_witness:
  "get_options (\<lambda>_. 0) [''-i'', ''100''] zero_problem zero_ctx \<lparr>maxiter = 0, timelimit = 0\<rparr> = Inl Undefined"
  by (rule limits_options_crash [of "CHR ''i''"]) (simp_all add: optstring_def getopt_scan.simps)

section \<open>Roles and thread numbers\<close>

text \<open>
  With one process more than machines, exactly the last rank becomes the scheduler and every
  other rank a client with \<open>thrdpm\<close> workers; each knows the scheduler's rank.
\<close>

lemma process_roles:
  assumes "dynamic_main strtod scan_lf fs prc args sz r = Inr ro" and "0 \<le> r" and "r < sz"
  shows "case ro of
      Server ctx pb \<Rightarrow> r = sz - 1 \<and> rank ctx = schedrank (mctx ctx) \<and> schedrank (mctx ctx) = machines (mctx ctx)
    | Client ths ctx pb \<Rightarrow> r < sz - 1 \<and> rank ctx = r \<and> schedrank (mctx ctx) = machines (mctx ctx) \<and>
        length ths = nat (thrdpm (mctx ctx))"
  using assms
  by (auto simp: dynamic_main_def andthen_eq_Inr_iff Let_def create_threadcxt_def split: if_split_asm)

lemma demo_main:
  "\<exists>ths ctx pb. dynamic_main (\<lambda>_. 0) demo_scan demo_files (\<lambda>_ _. 0) [''-dx'', ''-oy'', ''-m2'', ''-t7''] 3 1 =
     Inr (Client ths ctx pb)"
proof -
  have "getopt_scan optstring [] [''-dx'', ''-oy'', ''-m2'', ''-t7''] =
      [(CHR ''d'', Some ''x''), (CHR ''o'', Some ''y''), (CHR ''m'', Some ''2''), (CHR ''t'', Some ''7'')]"
    by (simp add: optstring_def getopt_scan.simps)
  then show ?thesis
    using demo_input
    by (simp add: dynamic_main_def get_options_def option_step_def run_py_strtol zero_problem_def
        zero_ctx_def create_threadcxt_def Let_def)
qed

lemma process_roles_witness:
  "\<exists>ths ctx pb. dynamic_main (\<lambda>_. 0) demo_scan demo_files (\<lambda>_ _. 0) [''-dx'', ''-oy'', ''-m2'', ''-t7''] 3 1 =
     Inr (Client ths ctx pb) \<and> rank ctx = 1 \<and> schedrank (mctx ctx) = machines (mctx ctx)"
proof -
  obtain ths ctx pb where d: "dynamic_main (\<lambda>_. 0) demo_scan demo_files (\<lambda>_ _. 0)
      [''-dx'', ''-oy'', ''-m2'', ''-t7''] 3 1 = Inr (Client ths ctx pb)"
    using demo_main by blast
  from process_roles [OF d] d show ?thesis by auto
qed

text \<open>
  The global thread numbers of all machines together are 0, 1, ... up to the number of
  threads, each used once, as long as that number fits an \<open>int\<close>.
\<close>

lemma thread_ids_bijective:
  assumes "0 \<le> machines ctx" and "0 \<le> thrdpm ctx" and "machines ctx * thrdpm ctx < 2 ^ 31"
  shows "bij_betw (\<lambda>(r, i). t_gid (fst (create_threadcxt ctx cfg (int r)) ! i))
    ({..<nat (machines ctx)} \<times> {..<nat (thrdpm ctx)}) {0..<machines ctx * thrdpm ctx}"
proof -
  obtain M T where MT: "machines ctx = int M" "thrdpm ctx = int T"
    using assms(1,2) zero_le_imp_eq_int by metis
  have bound: "r * T + i < M * T" if "r < M" "i < T" for r i :: nat
  proof -
    have "r * T + i < Suc r * T" using that by simp
    also have "\<dots> \<le> M * T" using that by (intro mult_le_mono1) simp
    finally show ?thesis .
  qed
  have big: "int (M * T) < 2 ^ 31" using assms(3) by (simp add: MT)
  have gid: "t_gid (fst (create_threadcxt ctx cfg (int r)) ! i) = int (r * T + i)" if "r < M" "i < T" for r i
  proof -
    have "int (r * T + i) < 2 ^ 31" using bound [OF that] big by linarith
    moreover have "- (2 ^ 31) \<le> int (r * T + i)" by (rule order_trans [of _ 0]) simp_all
    ultimately have "to_int (int (r * T + i)) = int (r * T + i)" using to_int_id by blast
    then show ?thesis using that by (simp add: create_threadcxt_def MT)
  qed
  have "bij_betw (\<lambda>(r, i). int (r * T + i)) ({..<M} \<times> {..<T}) {0..<int (M * T)}"
  proof (rule bij_betw_byWitness [where f' = "\<lambda>z. (nat z div T, nat z mod T)"])
    show "\<forall>z \<in> {0..<int (M * T)}. (\<lambda>(r, i). int (r * T + i)) (nat z div T, nat z mod T) = z"
      by (simp del: of_nat_add of_nat_mult)
    show "(\<lambda>(r, i). int (r * T + i)) ` ({..<M} \<times> {..<T}) \<subseteq> {0..<int (M * T)}"
      using bound by (auto simp del: of_nat_add of_nat_mult)
    show "(\<lambda>z. (nat z div T, nat z mod T)) ` {0..<int (M * T)} \<subseteq> {..<M} \<times> {..<T}"
    proof clarsimp
      fix z assume z: "0 \<le> z" "z < int M * int T"
      then have "0 < T" by (cases T) auto
      with z show "nat z div T < M \<and> nat z mod T < T"
        by (simp add: less_mult_imp_div_less nat_less_iff)
    qed
  qed (auto simp del: of_nat_add of_nat_mult)
  then show ?thesis using gid by (subst bij_betw_cong [where g = "\<lambda>(r, i). int (r * T + i)"]) (auto simp: MT)
qed

lemma thread_ids_bijective_witness:
  "bij_betw (\<lambda>(r, i). t_gid (fst (create_threadcxt (zero_ctx\<lparr>machines := 2, thrdpm := 7\<rparr>) zero_problem (int r)) ! i))
     ({..<2} \<times> {..<7}) {0..<14}"
  using thread_ids_bijective [of "zero_ctx\<lparr>machines := 2, thrdpm := 7\<rparr>" zero_problem] by simp

text \<open>The contexts the system model starts from are those \<open>create_threadcxt\<close> builds.\<close>

lemma init_contexts:
  "cctx (init_node ctx i) = snd (snd (create_threadcxt ctx cfg (int i)))"
  "sctx (init_system ctx pb) = fst (snd (create_threadcxt ctx cfg (schedrank ctx)))"
  by (simp_all add: init_node_def init_system_def create_threadcxt_def)

end
