(* ===== verification/Mpi_Buffer.thy ===== *)
theory Mpi_Buffer
  imports Mpi_System
begin

text \<open>
  The buffer of the sends (\<open>initcomm\<close> and the calls of \<open>MPI_Bsend\<close> in \<open>src/mpi/scheduler.cpp\<close>). \<open>MPI_Bsend\<close> needs
  room in the attached buffer for the message and \<open>MPI_BSEND_OVERHEAD\<close> bytes (\<open>ov\<close>) until the message is received; without room
  it returns an error and sends nothing, and the code does not look at the result. The system of theory
  \<open>Mpi_System\<close> has no such bound. Theorems: with the buffer attached and not too many threads both systems have the same
  behaviour; without the buffer no task arrives anywhere.
\<close>

section \<open>Sends with a buffer\<close>

definition MPIBUFSIZE :: nat where "MPIBUFSIZE = 1024 * 1024 * 256"

text \<open>The bytes attached. \<open>attached\<close> tells whether \<open>MPI_Buffer_attach\<close> succeeded; an error is only printed.\<close>

definition initcomm :: "bool \<Rightarrow> nat" where
  "initcomm attached = (if attached then MPIBUFSIZE else 0)"

text \<open>Is there room for one more message beside \<open>k\<close> messages that are not yet received?\<close>

definition bsend_fits :: "nat \<Rightarrow> nat \<Rightarrow> nat \<Rightarrow> bool" where
  "bsend_fits ov cap k \<longleftrightarrow> (k + 1) * (MSGSIZE + ov) \<le> cap"

definition outgoing :: "system \<Rightarrow> nat" where
  "outgoing s = (\<Sum>i<nmach s. length (down (nodes s i)))"

text \<open>A send that finds no room leaves the channel as it is; everything else happens as usual.\<close>

definition bsched_server_send :: "nat \<Rightarrow> nat \<Rightarrow> (byte list \<Rightarrow> u32) \<Rightarrow> nat \<Rightarrow> nat \<Rightarrow> system \<Rightarrow> system" where
  "bsched_server_send ov cap crc i j s =
     (let t = sched_server_send crc i j s in if bsend_fits ov cap (outgoing s) then t else t\<lparr>nodes := nodes s\<rparr>)"

definition bsched_client_poll :: "nat \<Rightarrow> nat \<Rightarrow> (byte list \<Rightarrow> u32) \<Rightarrow> node \<Rightarrow> node" where
  "bsched_client_poll ov cap crc n =
     (let n' = sched_client_poll crc n in if bsend_fits ov cap (length (up n)) then n' else n'\<lparr>up := up n\<rparr>)"

inductive bnode_step :: "nat \<Rightarrow> nat \<Rightarrow> (byte list \<Rightarrow> u32) \<Rightarrow> nat \<Rightarrow> node \<Rightarrow> node \<Rightarrow> bool"
  for ov cap :: nat and crc :: "byte list \<Rightarrow> u32" and T :: nat where
  boot: "cpc n = CBoot \<Longrightarrow> bnode_step ov cap crc T n (sched_client_boot crc n)"
| barrier: "cpc n = CBarrier \<Longrightarrow> \<forall>j<T. workers n j = WBarrier \<Longrightarrow> bnode_step ov cap crc T n (bar_all_release T n)"
| recv: "cpc n = CLoop \<Longrightarrow> down n = p # rest \<Longrightarrow> bnode_step ov cap crc T n (sched_client_recv crc p rest n)"
| poll: "cpc n = CLoop \<Longrightarrow> w2s (queues n) \<noteq> [] \<Longrightarrow> bnode_step ov cap crc T n (bsched_client_poll ov cap crc n)"
| take: "j < T \<Longrightarrow> workers n j = WIdle \<Longrightarrow> s2w (queues n) \<noteq> [] \<Longrightarrow> bnode_step ov cap crc T n (worker_take j n)"
| finish: "j < T \<Longrightarrow> workers n j = WBusy p \<Longrightarrow> bnode_step ov cap crc T n (worker_finish j p n)"

inductive bsys_step :: "nat \<Rightarrow> nat \<Rightarrow> (byte list \<Rightarrow> u32) \<Rightarrow> system \<Rightarrow> system \<Rightarrow> bool"
  for ov cap :: nat and crc :: "byte list \<Rightarrow> u32" where
  srv_wait: "spc s = SWait c \<Longrightarrow> c < machines (mctx (sctx s)) \<Longrightarrow> i < nmach s \<Longrightarrow>
     up (nodes s i) = p # rest \<Longrightarrow> bsys_step ov cap crc s ((pop_up i s)\<lparr>spc := waitforall_recv crc c p\<rparr>)"
| srv_ready: "spc s = SWait c \<Longrightarrow> \<not> c < machines (mctx (sctx s)) \<Longrightarrow> bsys_step ov cap crc s (s\<lparr>spc := SSend 0 0\<rparr>)"
| srv_send: "spc s = SSend i j \<Longrightarrow> bsys_step ov cap crc s (bsched_server_send ov cap crc i j s)"
| srv_recv: "spc s = SRecv k \<Longrightarrow> k < nmach s * nthr s \<Longrightarrow> i < nmach s \<Longrightarrow>
     up (nodes s i) = p # rest \<Longrightarrow> bsys_step ov cap crc s (sched_server_recv crc k p (pop_up i s))"
| srv_round: "spc s = SRecv k \<Longrightarrow> \<not> k < nmach s * nthr s \<Longrightarrow> bsys_step ov cap crc s (sched_server_round s)"
| node_moves: "i < nmach s \<Longrightarrow> bnode_step ov cap crc (nthr s) (nodes s i) n' \<Longrightarrow>
     bsys_step ov cap crc s (s\<lparr>nodes := (nodes s)(i := n')\<rparr>)"

inductive breachable :: "nat \<Rightarrow> nat \<Rightarrow> (byte list \<Rightarrow> u32) \<Rightarrow> context_t \<Rightarrow> problem \<Rightarrow> system \<Rightarrow> bool"
  for ov cap :: nat and crc :: "byte list \<Rightarrow> u32" and ctx :: context_t and pb :: problem where
  start: "breachable ov cap crc ctx pb (init_system ctx pb)"
| step: "breachable ov cap crc ctx pb s \<Longrightarrow> bsys_step ov cap crc s t \<Longrightarrow> breachable ov cap crc ctx pb t"

section \<open>The buffer is large enough\<close>

text \<open>Never more packets on the way than the cluster has threads.\<close>

lemma load_bound:
  assumes inv: "sys_inv crc s" and w: "\<And>c. spc s \<noteq> SWait c"
  shows "load s \<le> nmach s * nthr s" and "spc s = SSend i j \<Longrightarrow> i < nmach s \<Longrightarrow> j < nthr s \<Longrightarrow> load s < nmach s * nthr s"
proof -
  have *: "i * nthr s + j \<le> nmach s * nthr s" if "i < nmach s \<and> j \<le> nthr s \<or> i = nmach s \<and> j = 0" for i j
  proof (cases "i < nmach s")
    case True
    with that have "i * nthr s + j \<le> Suc i * nthr s" by simp
    also have "\<dots> \<le> nmach s * nthr s" using True by (intro mult_le_mono1) simp
    finally show ?thesis .
  qed (use that in auto)
  with inv w show "load s \<le> nmach s * nthr s"
    by (auto simp: sys_inv_def phase_ok_def split: server_pc.splits)
  show "load s < nmach s * nthr s" if "spc s = SSend i j" "i < nmach s" "j < nthr s"
    using inv that * [of i "j + 1"] by (simp add: sys_inv_def phase_ok_def)
qed

lemma down_load: "outgoing s \<le> load s"
  unfolding outgoing_def load_def by (rule sum_mono) (simp add: flight_def inside_def)

lemma up_load:
  assumes "i < nmach s" "w2s (queues (nodes s i)) \<noteq> []"
  shows "length (up (nodes s i)) < load s"
proof -
  have "length (up (nodes s i)) < size (flight (nthr s) (nodes s i))"
    using assms(2) by (cases "w2s (queues (nodes s i))") (simp_all add: flight_def inside_def)
  also have "\<dots> \<le> load s" unfolding load_def using assms(1) by (intro member_le_sum) simp_all
  finally show ?thesis .
qed

lemma fits_bound: "k < M \<Longrightarrow> M * (MSGSIZE + ov) \<le> cap \<Longrightarrow> bsend_fits ov cap k"
  unfolding bsend_fits_def using mult_le_mono1 [of "k + 1" M "MSGSIZE + ov"] by simp

lemma bsend_same:
  assumes inv: "sys_inv crc s" and pc: "spc s = SSend i j" and cap: "nmach s * nthr s * (MSGSIZE + ov) \<le> cap"
  shows "bsched_server_send ov cap crc i j s = sched_server_send crc i j s"
proof (cases "i < nmach s \<and> j < nthr s")
  case True
  with load_bound(2) [OF inv] pc down_load [of s] have "outgoing s < nmach s * nthr s" by fastforce
  with cap fits_bound show ?thesis by (simp add: bsched_server_send_def)
next
  case False
  then have "nodes (sched_server_send crc i j s) = nodes s" by (auto simp: sched_server_send_def)
  then show ?thesis by (auto simp: bsched_server_send_def Let_def)
qed

lemma bpoll_same:
  assumes inv: "sys_inv crc s" and i: "i < nmach s" "w2s (queues (nodes s i)) \<noteq> []"
    and cap: "nmach s * nthr s * (MSGSIZE + ov) \<le> cap"
  shows "bsched_client_poll ov cap crc (nodes s i) = sched_client_poll crc (nodes s i)"
proof -
  have "spc s \<noteq> SWait c" for c
    using inv i by (cases "w2s (queues (nodes s i))") (auto simp: sys_inv_def phase_ok_def inside_def)
  with load_bound(1) [OF inv] up_load [OF i] have "length (up (nodes s i)) < nmach s * nthr s" by fastforce
  with cap fits_bound show ?thesis by (simp add: bsched_client_poll_def)
qed

lemma bsys_step_iff:
  assumes inv: "sys_inv crc s" and cap: "nmach s * nthr s * (MSGSIZE + ov) \<le> cap"
  shows "bsys_step ov cap crc s t \<longleftrightarrow> sys_step crc s t"
proof
  assume "bsys_step ov cap crc s t"
  then show "sys_step crc s t"
  proof cases
    case (srv_send i j)
    then show ?thesis using bsend_same [OF inv _ cap] sys_step.srv_send by metis
  next
    case (node_moves i n')
    from node_moves(3) have "node_step crc (nthr s) (nodes s i) n'"
      by cases (auto simp: bpoll_same [OF inv node_moves(2) _ cap] intro: node_step.intros)
    with node_moves show ?thesis by (auto intro: sys_step.node_moves)
  qed (auto intro: sys_step.intros)
next
  assume "sys_step crc s t"
  then show "bsys_step ov cap crc s t"
  proof cases
    case (srv_send i j)
    then show ?thesis using bsend_same [OF inv _ cap] bsys_step.srv_send by metis
  next
    case (node_moves i n')
    from node_moves(3) have "bnode_step ov cap crc (nthr s) (nodes s i) n'"
    proof cases
      case poll
      then show ?thesis using bpoll_same [OF inv node_moves(2) _ cap] bnode_step.poll by metis
    qed (auto intro: bnode_step.intros)
    with node_moves show ?thesis by (auto intro: bsys_step.node_moves)
  qed (auto intro: bsys_step.intros)
qed

lemma breachable_iff:
  assumes "0 \<le> machines ctx" "samples pb \<le> int MAX_SAMPLE"
    and cap: "nat (machines ctx) * nat (thrdpm ctx) * (MSGSIZE + ov) \<le> cap"
  shows "breachable ov cap crc ctx pb s \<longleftrightarrow> reachable crc ctx pb s"
proof
  assume "breachable ov cap crc ctx pb s"
  then show "reachable crc ctx pb s"
  proof induction
    case (step s t)
    from reachable_inv [OF step.IH assms(1,2)] cap have "sys_inv crc s" "nmach s * nthr s * (MSGSIZE + ov) \<le> cap" by auto
    with step bsys_step_iff show ?case by (blast intro: reachable.step)
  qed (rule reachable.start)
next
  assume "reachable crc ctx pb s"
  then show "breachable ov cap crc ctx pb s"
  proof induction
    case (step s t)
    from reachable_inv [OF step.hyps(1) assms(1,2)] cap have "sys_inv crc s" "nmach s * nthr s * (MSGSIZE + ov) \<le> cap" by auto
    with step bsys_step_iff show ?case by (blast intro: breachable.step)
  qed (rule breachable.start)
qed

section \<open>The buffer overflows\<close>

text \<open>The scheduler can run ahead of all machines: first through the heartbeats, then through its dispatch loops.\<close>

definition waiting_sys :: "context_t \<Rightarrow> problem \<Rightarrow> nat \<Rightarrow> system" where
  "waiting_sys ctx pb i = (init_system ctx pb)\<lparr>spc := SWait (int i),
     nodes := (\<lambda>j. if j < i then (init_node ctx j)\<lparr>cpc := CBarrier\<rparr> else init_node ctx j)\<rparr>"

lemma waiting_reached:
  assumes "samples pb \<le> int MAX_SAMPLE" "int i \<le> machines ctx"
  shows "breachable ov cap crc ctx pb (waiting_sys ctx pb i)"
  using assms(2)
proof (induction i)
  case 0
  have "waiting_sys ctx pb 0 = init_system ctx pb"
    using sched_server_boot_ok [OF assms(1)] by (simp add: waiting_sys_def init_system_def)
  then show ?case using breachable.start by metis
next
  case (Suc i)
  let ?s = "waiting_sys ctx pb i" and ?n = "init_node ctx i"
  obtain d hb where hb: "sendheartbeat crc (cctx ?n) = (d, hb)" by fastforce
  have ok: "packet_ok hb" "msg_checkcrc crc hb = CRC_OK" using sendheartbeat_facts [of crc "cctx ?n"] hb by auto
  let ?t = "?s\<lparr>nodes := (nodes ?s)(i := sched_client_boot crc ?n)\<rparr>"
  have i: "i < nmach ?s" "nodes ?s i = ?n" "cpc ?n = CBoot" using Suc.prems
    by (auto simp: waiting_sys_def init_system_def init_node_def)
  have "bsys_step ov cap crc ?s ?t" using bsys_step.node_moves [OF i(1)] bnode_step.boot [OF i(3)] i(2) by metis
  moreover have "bsys_step ov cap crc ?t ((pop_up i ?t)\<lparr>spc := waitforall_recv crc (int i) hb\<rparr>)"
    using Suc.prems i hb by (intro bsys_step.srv_wait [where rest = "[]"])
      (auto simp: waiting_sys_def init_system_def init_node_def sched_client_boot_def)
  moreover have "(pop_up i ?t)\<lparr>spc := waitforall_recv crc (int i) hb\<rparr> = waiting_sys ctx pb (Suc i)"
    using ok hb by (auto simp: waiting_sys_def pop_up_def waitforall_recv_def sched_client_boot_def init_node_def less_Suc_eq fun_eq_iff)
  ultimately have step: "bsys_step ov cap crc ?s ?t" "bsys_step ov cap crc ?t (waiting_sys ctx pb (Suc i))" by simp_all
  have "breachable ov cap crc ctx pb ?s" using Suc by simp
  then show ?case by (rule breachable.step [OF breachable.step, OF _ step])
qed

definition dispatching :: "nat \<Rightarrow> nat \<Rightarrow> (byte list \<Rightarrow> u32) \<Rightarrow> context_t \<Rightarrow> problem \<Rightarrow> nat \<Rightarrow> system \<Rightarrow> nat \<Rightarrow> nat \<Rightarrow> bool" where
  "dispatching ov cap crc ctx pb k s i j \<longleftrightarrow> breachable ov cap crc ctx pb s \<and> mctx (sctx s) = ctx \<and> spc s = SSend i j \<and>
     i < nmach s \<and> j < nthr s \<and> k = i * nthr s + j \<and> outgoing s = k"

lemma dispatching_starts:
  assumes "samples pb \<le> int MAX_SAMPLE" "0 < nat (machines ctx)" "0 < nat (thrdpm ctx)"
  shows "\<exists>s i j. dispatching ov cap crc ctx pb 0 s i j"
proof -
  let ?s = "waiting_sys ctx pb (nat (machines ctx))"
  have "breachable ov cap crc ctx pb ?s" using waiting_reached [OF assms(1)] assms(2) by simp
  moreover have "bsys_step ov cap crc ?s (?s\<lparr>spc := SSend 0 0\<rparr>)"
    by (rule bsys_step.srv_ready [where c = "machines ctx"]) (use assms(2) in \<open>auto simp: waiting_sys_def init_system_def\<close>)
  ultimately have "breachable ov cap crc ctx pb (?s\<lparr>spc := SSend 0 0\<rparr>)" by (rule breachable.step)
  moreover have "outgoing (?s\<lparr>spc := SSend 0 0\<rparr>) = 0" by (simp add: outgoing_def waiting_sys_def init_node_def)
  ultimately show ?thesis using assms(2,3)
    by (intro exI [of _ "?s\<lparr>spc := SSend 0 0\<rparr>"] exI [of _ 0]) (simp add: dispatching_def waiting_sys_def init_system_def)
qed

lemma send_outgoing:
  assumes "i < nmach s" "j < nthr s"
  shows "outgoing (sched_server_send crc i j s) = outgoing s + 1" "spc (sched_server_send crc i j s) = SSend i (j + 1)"
    "mctx (sctx (sched_server_send crc i j s)) = mctx (sctx s)"
proof -
  obtain ctx p where sd: "server_sendtestmsg crc (sctx s) (int i) = (ctx, int i, p)"
    by (metis prod_cases3 server_sendtestmsg_facts(7))
  note t = server_sendtestmsg_facts [OF sd]
  show "outgoing (sched_server_send crc i j s) = outgoing s + 1"
    using sum_table_update [OF assms(1), of "\<lambda>_ n. length (down n)" "nodes s" "(nodes s i)\<lparr>down := down (nodes s i) @ [p]\<rparr>"]
      assms sd t(8) by (simp add: sched_server_send_def outgoing_def Let_def)
  show "spc (sched_server_send crc i j s) = SSend i (j + 1)" "mctx (sctx (sched_server_send crc i j s)) = mctx (sctx s)"
    using assms sd t(8) by (simp_all add: sched_server_send_def Let_def)
qed

lemma dispatching_next:
  assumes d: "dispatching ov cap crc ctx pb k s i j" and fits: "bsend_fits ov cap k"
    and k: "Suc k < nat (machines ctx) * nat (thrdpm ctx)"
  shows "\<exists>s i j. dispatching ov cap crc ctx pb (Suc k) s i j"
proof -
  let ?t = "sched_server_send crc i j s"
  from d have s: "breachable ov cap crc ctx pb s" "mctx (sctx s) = ctx" "spc s = SSend i j" "i < nmach s" "j < nthr s"
    "k = i * nthr s + j" "outgoing s = k" by (auto simp: dispatching_def)
  note t = send_outgoing [OF s(4,5), of crc]
  have "bsched_server_send ov cap crc i j s = ?t" using fits s(7) by (simp add: bsched_server_send_def)
  then have rt: "breachable ov cap crc ctx pb ?t" using breachable.step [OF s(1)] bsys_step.srv_send [OF s(3)] by metis
  show ?thesis
  proof (cases "j + 1 < nthr s")
    case True
    with rt t s show ?thesis by (intro exI [of _ ?t] exI [of _ i] exI [of _ "j + 1"]) (simp add: dispatching_def)
  next
    case False
    then have j: "j + 1 = nthr s" using s(5) by simp
    then have "Suc k = (i + 1) * nthr s" using s(6) by simp
    with k s(2) have i: "i + 1 < nmach s" by (metis mult_less_cancel2)
    let ?u = "?t\<lparr>spc := SSend (i + 1) 0\<rparr>"
    have "sched_server_send crc i (j + 1) ?t = ?u" "nodes ?u = nodes ?t" using t s j by (simp_all add: sched_server_send_def)
    then have "bsched_server_send ov cap crc i (j + 1) ?t = ?u" by (cases ?t) (simp add: bsched_server_send_def Let_def)
    then have "breachable ov cap crc ctx pb ?u" using breachable.step [OF rt] bsys_step.srv_send [OF t(2)] by metis
    moreover have "outgoing ?u = outgoing ?t" by (simp add: outgoing_def)
    ultimately show ?thesis using t s i j
      by (intro exI [of _ ?u] exI [of _ "i + 1"] exI [of _ 0]) (simp add: dispatching_def)
  qed
qed

lemma dispatching_reached:
  assumes "samples pb \<le> int MAX_SAMPLE" "k < nat (machines ctx) * nat (thrdpm ctx)" "\<forall>l<k. bsend_fits ov cap l"
  shows "\<exists>s i j. dispatching ov cap crc ctx pb k s i j"
  using assms(2,3)
proof (induction k)
  case 0
  then show ?case using dispatching_starts [OF assms(1)] by simp
next
  case (Suc k)
  then show ?case using dispatching_next by (metis Suc_lessD lessI less_SucI)
qed

text \<open>
  C16. The buffer of 256 megabytes that \<open>initcomm\<close> attaches. If there is room for one message for every thread of the cluster, no send is ever
  refused: the system with the bounded buffer and the one with unbounded channels reach the same states and take the same steps
  in them, so all that is shown of the latter holds of the program. The bound is sharp: with more threads the scheduler can
  come to a dispatch for which there is no room, and since the result of \<open>MPI_Bsend\<close> is ignored the task is lost while
  \<open>outmsg\<close> counts it as sent.
\<close>

theorem send_buffer_suffices:
  assumes "0 \<le> machines ctx" and "samples pb \<le> int MAX_SAMPLE"
  shows "if nat (machines ctx) * nat (thrdpm ctx) * (MSGSIZE + ov) \<le> initcomm True
    then \<forall>s. (breachable ov (initcomm True) crc ctx pb s \<longleftrightarrow> reachable crc ctx pb s) \<and>
        (reachable crc ctx pb s \<longrightarrow> (\<forall>t. bsys_step ov (initcomm True) crc s t \<longleftrightarrow> sys_step crc s t))
    else \<exists>s i j t. breachable ov (initcomm True) crc ctx pb s \<and> spc s = SSend i j \<and> i < nmach s \<and> j < nthr s \<and>
        bsys_step ov (initcomm True) crc s t \<and> nodes t = nodes s \<and> outmsg (sctx t) = outmsg (sctx s) + 1"
proof (cases "nat (machines ctx) * nat (thrdpm ctx) * (MSGSIZE + ov) \<le> initcomm True")
  case True
  have "bsys_step ov (initcomm True) crc s t \<longleftrightarrow> sys_step crc s t" if "reachable crc ctx pb s" for s t
    using reachable_inv [OF that assms] True bsys_step_iff by auto
  with breachable_iff [OF assms True] True show ?thesis by simp
next
  case False
  let ?cap = "initcomm True" and ?M = "nat (machines ctx) * nat (thrdpm ctx)"
  have pos: "0 < ?M" using False by (cases ?M) auto
  have ex: "\<not> bsend_fits ov ?cap (?M - 1)" using False pos by (simp add: bsend_fits_def)
  obtain k where k: "\<not> bsend_fits ov ?cap k" "\<forall>l. \<not> bsend_fits ov ?cap l \<longrightarrow> k \<le> l"
    using ex_has_least_nat [of "\<lambda>k. \<not> bsend_fits ov ?cap k" _ "\<lambda>k. k"] ex by blast
  have "k \<le> ?M - 1" using k(2) ex by blast
  then have "k < ?M" using pos by linarith
  moreover have "\<forall>l<k. bsend_fits ov ?cap l" using k(2) by (metis leD)
  ultimately obtain s i j where
    s: "breachable ov ?cap crc ctx pb s" "spc s = SSend i j" "i < nmach s" "j < nthr s" "outgoing s = k"
    using dispatching_reached [OF assms(2), of k ctx ov ?cap crc] by (auto simp: dispatching_def)
  let ?t = "bsched_server_send ov ?cap crc i j s"
  obtain c p where "server_sendtestmsg crc (sctx s) (int i) = (c, int i, p)"
    by (metis prod_cases3 server_sendtestmsg_facts(7))
  from this server_sendtestmsg_facts(8) [OF this] have "nodes ?t = nodes s" "outmsg (sctx ?t) = outmsg (sctx s) + 1"
    using k(1) s(3-5) by (simp_all add: bsched_server_send_def sched_server_send_def Let_def)
  with s bsys_step.srv_send [OF s(2)] have "\<exists>s i j t. breachable ov ?cap crc ctx pb s \<and> spc s = SSend i j \<and> i < nmach s \<and>
      j < nthr s \<and> bsys_step ov ?cap crc s t \<and> nodes t = nodes s \<and> outmsg (sctx t) = outmsg (sctx s) + 1" by blast
  with False show ?thesis by simp
qed

text \<open>14 threads on two machines, as \<open>run.py\<close> starts them, fit; 40000 threads on each of two do not.\<close>

theorem send_buffer_suffices_witness:
  "(\<forall>s. breachable 96 (initcomm True) (\<lambda>_. 0) (demo_ctx\<lparr>machines := 2, thrdpm := 7\<rparr>) demo_problem s \<longleftrightarrow>
      reachable (\<lambda>_. 0) (demo_ctx\<lparr>machines := 2, thrdpm := 7\<rparr>) demo_problem s) \<and>
   (\<exists>s t. breachable 96 (initcomm True) (\<lambda>_. 0) (demo_ctx\<lparr>machines := 2, thrdpm := 40000\<rparr>) demo_problem s \<and>
      bsys_step 96 (initcomm True) (\<lambda>_. 0) s t \<and> nodes t = nodes s \<and> outmsg (sctx t) = outmsg (sctx s) + 1)"
proof -
  have fit: "nat (machines (demo_ctx\<lparr>machines := 2, thrdpm := 7\<rparr>)) * nat (thrdpm (demo_ctx\<lparr>machines := 2, thrdpm := 7\<rparr>)) * (MSGSIZE + 96)
      \<le> initcomm True" "\<not> nat (machines (demo_ctx\<lparr>machines := 2, thrdpm := 40000\<rparr>)) *
        nat (thrdpm (demo_ctx\<lparr>machines := 2, thrdpm := 40000\<rparr>)) * (MSGSIZE + 96) \<le> initcomm True"
    by (simp_all add: initcomm_def MPIBUFSIZE_def MSGSIZE_def)
  have ok: "samples demo_problem \<le> int MAX_SAMPLE" "0 \<le> machines (demo_ctx\<lparr>machines := 2, thrdpm := 7\<rparr>)"
    "0 \<le> machines (demo_ctx\<lparr>machines := 2, thrdpm := 40000\<rparr>)" by (simp_all add: MAX_SAMPLE_def)
  from send_buffer_suffices [OF ok(2,1), of 96 "\<lambda>_. 0"] send_buffer_suffices [OF ok(3,1), of 96 "\<lambda>_. 0"] fit
  show ?thesis unfolding if_P [OF fit(1)] if_not_P [OF fit(2)] by blast
qed

section \<open>Without the buffer\<close>

definition taskless :: "node \<Rightarrow> bool" where
  "taskless n \<longleftrightarrow> down n = [] \<and> s2w (queues n) = [] \<and> w2s (queues n) = [] \<and> (\<forall>j p. workers n j \<noteq> WBusy p) \<and>
     (cpc n = CBoot \<longrightarrow> up n = [])"

lemma taskless_step:
  assumes "bnode_step ov cap crc T n n'" "taskless n"
  shows "taskless n' \<and> heartbeats n' = heartbeats n \<and> (cpc n \<noteq> CBoot \<longrightarrow> cpc n' \<noteq> CBoot)"
  using assms by cases (auto simp: taskless_def heartbeats_def sched_client_boot_def bar_all_release_def split: prod.splits)

text \<open>With no buffer no task leaves the scheduler, so the only packets are heartbeats.\<close>

definition starved :: "system \<Rightarrow> bool" where
  "starved s \<longleftrightarrow> (\<forall>i<nmach s. taskless (nodes s i)) \<and> acked s = [] \<and>
     (case spc s of SWait c \<Rightarrow> c + int (pending s) = int (nmach s)
      | SFail e \<Rightarrow> True | _ \<Rightarrow> \<forall>i<nmach s. heartbeats (nodes s i) = 0)"

lemma no_room: "\<not> bsend_fits ov (initcomm False) k"
  by (simp add: bsend_fits_def initcomm_def MSGSIZE_def)

lemma starved_step:
  assumes "bsys_step ov (initcomm False) crc s t" "starved s" "0 \<le> machines (mctx (sctx s))"
  shows "starved t \<and> mctx (sctx t) = mctx (sctx s)"
  using assms
proof cases
  case (srv_wait c i p rest)
  have "pending (pop_up i s) + 1 = pending s"
    using sum_table_update [OF srv_wait(4), of "\<lambda>_. heartbeats" "nodes s" "(nodes s i)\<lparr>up := rest\<rparr>"] srv_wait assms(2)
    by (auto simp: heartbeats_def pending_def pop_up_def starved_def taskless_def)
  moreover have "pending ((pop_up i s)\<lparr>spc := waitforall_recv crc c p\<rparr>) = pending (pop_up i s)" by (simp add: pending_def)
  ultimately show ?thesis using srv_wait assms(2)
    by (auto simp: starved_def taskless_def pop_up_def waitforall_recv_def)
next
  case (srv_ready c)
  with assms(2,3) have "pending s = 0" by (auto simp: starved_def)
  then have "\<forall>i<nmach s. heartbeats (nodes s i) = 0" by (simp add: pending_def)
  with srv_ready assms(2) show ?thesis by (auto simp: starved_def)
next
  case (srv_send i j)
  have "nodes t = nodes s" "mctx (sctx t) = mctx (sctx s)" "acked t = acked s" "\<exists>i j. spc t = SSend i j \<or> spc t = SRecv j"
    using srv_send no_room [of ov "outgoing s"]
    by (auto simp: bsched_server_send_def sched_server_send_def server_sendtestmsg_def Let_def)
  with srv_send assms(2) show ?thesis by (auto simp: starved_def)
next
  case (srv_recv k i p rest)
  with assms(2) show ?thesis by (auto simp: starved_def heartbeats_def taskless_def split: if_splits)
next
  case (srv_round k)
  with assms(2) show ?thesis by (auto simp: starved_def sched_server_round_def)
next
  case (node_moves i n')
  with assms(2) have n: "taskless (nodes s i)" by (simp add: starved_def)
  note st = taskless_step [OF node_moves(3) n]
  have "pending (s\<lparr>nodes := (nodes s)(i := n')\<rparr>) = pending s"
    using sum_table_same [of "\<lambda>_. heartbeats" i n' "nodes s"] st by (simp add: pending_def)
  with node_moves assms(2) st show ?thesis by (auto simp: starved_def split: server_pc.splits)
qed

text \<open>
  If the buffer cannot be attached, \<open>initcomm\<close> prints the error and goes on. Then in every reachable state no machine has a task,
  none of the workers has ever got one, and nothing has been acknowledged, although the scheduler counts what it sends.
\<close>

lemma unattached_buffer_loses_tasks:
  assumes "breachable ov (initcomm False) crc ctx pb s" and "0 \<le> machines ctx"
  shows "acked s = [] \<and> (\<forall>i<nmach s. down (nodes s i) = [] \<and> s2w (queues (nodes s i)) = [] \<and>
    (\<forall>j p. workers (nodes s i) j \<noteq> WBusy p))"
proof -
  from assms(1) have "starved s \<and> mctx (sctx s) = ctx"
  proof induction
    case start
    have "taskless (init_node ctx i)" "heartbeats (init_node ctx i) = 1" for i
      by (simp_all add: taskless_def init_node_def heartbeats_def)
    then show ?case using assms(2)
      by (auto simp: starved_def init_system_def sched_server_boot_def pending_def split: sum.splits)
  next
    case (step s t)
    then show ?case using starved_step assms(2) by fastforce
  qed
  then show ?thesis by (simp add: starved_def taskless_def)
qed

lemma unattached_buffer_loses_tasks_witness:
  "\<exists>s. breachable 96 (initcomm False) (\<lambda>_. 0) demo_ctx demo_problem s \<and> spc s = SSend 0 1 \<and> outmsg (sctx s) = 1 \<and>
     down (nodes s 0) = [] \<and> acked s = []"
proof -
  let ?s = "(waiting_sys demo_ctx demo_problem 1)\<lparr>spc := SSend 0 0\<rparr>" and ?R = "breachable 96 (initcomm False) (\<lambda>_. 0) demo_ctx demo_problem"
  have "?R (waiting_sys demo_ctx demo_problem 1)" by (rule waiting_reached) (simp_all add: MAX_SAMPLE_def)
  then have "?R ?s" by (rule breachable.step [OF _ bsys_step.srv_ready [where c = 1]]) (simp_all add: waiting_sys_def init_system_def)
  let ?t = "bsched_server_send 96 (initcomm False) (\<lambda>_. 0) 0 0 ?s"
  from \<open>?R ?s\<close> have r: "?R ?t"
    by (rule breachable.step [OF _ bsys_step.srv_send]) simp
  have t: "spc ?t = SSend 0 1" "outmsg (sctx ?t) = 1" "nmach ?t = 1" using no_room
    by (auto simp: bsched_server_send_def sched_server_send_def server_sendtestmsg_def waiting_sys_def init_system_def Let_def)
  from unattached_buffer_loses_tasks [OF r] t have "acked ?t = []" "down (nodes ?t 0) = []" by simp_all
  with r t show ?thesis by blast
qed

end
