(* ===== verification/Mpi_Program.thy ===== *)
theory Mpi_Program
  imports Mpi_Main Mpi_Buffer
begin

text \<open>
  The MPI test from the command line on: the processes of one \<open>mpirun\<close>, each of which runs \<open>main\<close> of \<open>src/mpi/dynamic.cpp\<close> with the
  same arguments, put together to the system of theory \<open>Mpi_System\<close>, with the buffered sends of theory \<open>Mpi_Buffer\<close>; and the
  end of \<open>main\<close>, which joins the threads. Theorem: a command line that is accepted leads to a system in which nothing fails and
  nobody is stuck.
\<close>

section \<open>The end of main\<close>

text \<open>\<open>None\<close> is a join that waits for ever.\<close>

fun join_all :: "int option list \<Rightarrow> int outcome option" where
  "join_all [] = Some (Inr 0)"
| "join_all (j # js) = (case j of None \<Rightarrow> None | Some rc \<Rightarrow> if rc \<noteq> 0 then Some (Inl Abort) else join_all js)"

definition main_wait :: "role \<Rightarrow> (nat \<Rightarrow> int option) \<Rightarrow> int option \<Rightarrow> int outcome option" where
  "main_wait ro worker_join sched_join =
     (case ro of
        Client thctx schedc pb \<Rightarrow> join_all (map worker_join [0..<nat (thrdpm (mctx schedc))] @ [sched_join])
      | Server scheds pb \<Rightarrow> join_all [sched_join])"

lemma join_all_waits: "None \<in> set js \<Longrightarrow> \<forall>rc. Some rc \<in> set js \<longrightarrow> rc = 0 \<Longrightarrow> join_all js = None"
  by (induction js) (auto split: option.splits)

text \<open>\<open>main\<close> leaves its last part only when the communication thread has returned.\<close>

lemma main_waits: "\<forall>i rc. worker_join i = Some rc \<longrightarrow> rc = 0 \<Longrightarrow> main_wait ro worker_join None = None"
  by (auto simp: main_wait_def split: role.splits intro!: join_all_waits)

section \<open>All processes together\<close>

text \<open>The state in which the threads that the processes of rank \<open>0, ..., sz - 1\<close> have created begin.\<close>

fun client_node :: "role \<Rightarrow> node" where
  "client_node (Client thctx schedc pb) = \<lparr>cctx = schedc, cpc = CBoot, queues = \<lparr>s2w = [], w2s = []\<rparr>,
     workers = (\<lambda>_. WBarrier), down = [], up = []\<rparr>"
| "client_node (Server scheds pb) = init_node (mctx scheds) (nat (rank scheds))"

definition program_start :: "int \<Rightarrow> (int \<Rightarrow> role) \<Rightarrow> system" where
  "program_start sz ro =
     (case ro (sz - 1) of
        Server scheds pb \<Rightarrow> \<lparr>spc = sched_server_boot pb, sctx = scheds,
          nodes = (\<lambda>i. if int i < sz - 1 then client_node (ro (int i)) else init_node (mctx scheds) i), sent = [], acked = []\<rparr>
      | Client thctx schedc pb \<Rightarrow> init_system (mctx schedc) pb)"

lemma main_context:
  assumes "dynamic_main strtod scan_lf fs prc args sz 0 = Inr ro"
  obtains ctx pb where "machines ctx = sz - 1" "schedrank ctx = sz - 1"
    "\<forall>r ro. dynamic_main strtod scan_lf fs prc args sz r = Inr ro \<longrightarrow>
       ro = (if r < sz - 1 then Client (fst (create_threadcxt ctx pb r)) (snd (snd (create_threadcxt ctx pb r))) pb
             else Server (fst (snd (create_threadcxt ctx pb r))) pb)"
proof -
  from assms obtain pc c ex pb where o: "get_options strtod args zero_problem zero_ctx \<lparr>maxiter = 0, timelimit = 0\<rparr> = Inr (pc, c, ex)"
    and sz: "sz = machines c + 1" and g: "getinput scan_lf fs pc = Inr pb"
    by (auto simp: dynamic_main_def andthen_eq_Inr_iff Let_def create_threadcxt_def split: if_splits)
  let ?c = "c\<lparr>mpi_size := sz, schedrank := sz - 1, expt := ex\<rparr>"
  show ?thesis
    by (rule that [of ?c "makecm pb"])
      (use o sz g in \<open>auto simp: dynamic_main_def Let_def create_threadcxt_def split: if_splits\<close>)
qed

lemma program_start_init:
  assumes "\<forall>r. 0 \<le> r \<and> r < sz \<longrightarrow> dynamic_main strtod scan_lf fs prc args sz r = Inr (ro r)" "1 \<le> sz"
  obtains ctx pb where "program_start sz ro = init_system ctx pb" "machines ctx = sz - 1" "schedrank ctx = sz - 1"
    "\<exists>scheds. ro (sz - 1) = Server scheds pb \<and> mctx scheds = ctx"
proof -
  have "dynamic_main strtod scan_lf fs prc args sz 0 = Inr (ro 0)" using assms by simp
  from main_context [OF this] obtain ctx pb where c: "machines ctx = sz - 1" "schedrank ctx = sz - 1"
    "\<forall>r ro. dynamic_main strtod scan_lf fs prc args sz r = Inr ro \<longrightarrow>
       ro = (if r < sz - 1 then Client (fst (create_threadcxt ctx pb r)) (snd (snd (create_threadcxt ctx pb r))) pb
             else Server (fst (snd (create_threadcxt ctx pb r))) pb)" .
  have ro: "ro r = (if r < sz - 1 then Client (fst (create_threadcxt ctx pb r)) (snd (snd (create_threadcxt ctx pb r))) pb
      else Server (fst (snd (create_threadcxt ctx pb r))) pb)" if "0 \<le> r" "r < sz" for r
    using assms(1) c(3) that by blast
  have last: "ro (sz - 1) = Server (fst (snd (create_threadcxt ctx pb (sz - 1)))) pb" using ro [of "sz - 1"] assms(2) by simp
  have "program_start sz ro = init_system ctx pb"
    using last ro c(2)
    by (auto simp: program_start_def init_system_def create_threadcxt_def init_node_def fun_eq_iff)
  with c last that show ?thesis by (simp add: create_threadcxt_def)
qed

text \<open>
  C10. The whole program. Let every process of an \<open>mpirun\<close> with \<open>sz\<close> processes get through the options, the check of the number of
  processes, the input and the creation of its threads. Then the threads they create are the system that starts with \<open>sz - 1\<close> client machines. If the input has at
  most 500 samples and the send buffer has room for one message per thread, no assertion fails in any state reached, in any
  interleaving, and with at least one machine and one worker some thread can always go on; with more samples the scheduler
  process exits before it sends anything.
\<close>

theorem mpi_program_runs:
  assumes "\<forall>r. 0 \<le> r \<and> r < sz \<longrightarrow> dynamic_main strtod scan_lf fs prc args sz r = Inr (ro r)" and "1 \<le> sz"
  shows "\<exists>scheds ctx pb. ro (sz - 1) = Server scheds pb \<and> mctx scheds = ctx \<and> machines ctx = sz - 1 \<and>
    program_start sz ro = init_system ctx pb \<and>
    (if samples pb \<le> int MAX_SAMPLE
     then nat (machines ctx) * nat (thrdpm ctx) * (MSGSIZE + ov) \<le> initcomm True \<longrightarrow>
       (\<forall>s. breachable ov (initcomm True) crc ctx pb s \<longrightarrow>
          (\<forall>e. spc s \<noteq> SFail e) \<and> (\<forall>i<nmach s. \<forall>e. cpc (nodes s i) \<noteq> CFail e) \<and>
          (0 < machines ctx \<and> 0 < thrdpm ctx \<longrightarrow> (\<exists>t. bsys_step ov (initcomm True) crc s t)))
     else spc (program_start sz ro) = SFail (Exit 0))"
proof -
  obtain ctx pb scheds where st: "program_start sz ro = init_system ctx pb" "machines ctx = sz - 1"
    "ro (sz - 1) = Server scheds pb" "mctx scheds = ctx"
    using program_start_init [OF assms] by metis
  then have M: "0 \<le> machines ctx" using assms(2) by simp
  have safe: "(\<forall>e. spc s \<noteq> SFail e) \<and> (\<forall>i<nmach s. \<forall>e. cpc (nodes s i) \<noteq> CFail e) \<and>
      (0 < machines ctx \<and> 0 < thrdpm ctx \<longrightarrow> (\<exists>t. bsys_step ov (initcomm True) crc s t))"
    if pb: "samples pb \<le> int MAX_SAMPLE" and cap: "nat (machines ctx) * nat (thrdpm ctx) * (MSGSIZE + ov) \<le> initcomm True"
      and s: "breachable ov (initcomm True) crc ctx pb s" for s
  proof -
    from s have r: "reachable crc ctx pb s" using breachable_iff [OF M pb cap] by blast
    note inv = reachable_inv [OF r M pb]
    then have "\<forall>i<nmach s. \<forall>e. cpc (nodes s i) \<noteq> CFail e" "\<forall>e. spc s \<noteq> SFail e"
      by (auto simp: sys_inv_def node_ok_def phase_ok_def)
    moreover have "\<exists>t. bsys_step ov (initcomm True) crc s t" if "0 < machines ctx \<and> 0 < thrdpm ctx"
      using sys_progress [OF r _ _ pb] that bsys_step_iff inv cap by auto
    ultimately show ?thesis by blast
  qed
  have "spc (init_system ctx pb) = SFail (Exit 0)" if "\<not> samples pb \<le> int MAX_SAMPLE"
    using that by (simp add: init_system_def sched_server_boot_def check_confgsanity_def struct_sizes)
  with st safe show ?thesis by (intro exI [of _ scheds] exI [of _ ctx] exI [of _ pb]) simp
qed

lemma demo_processes:
  "\<exists>ro ctx pb. (\<forall>r. dynamic_main (\<lambda>_. 0) demo_scan demo_files (\<lambda>_ _. 0) [''-dx'', ''-oy'', ''-m2'', ''-t7''] 3 r = Inr (ro r)) \<and>
     ro 2 = Server \<lparr>rank = 2, inmsg = 0, outmsg = 0, mctx = ctx\<rparr> pb \<and> thrdpm ctx = 7 \<and> samples pb = 2"
proof -
  have "getopt_scan optstring [] [''-dx'', ''-oy'', ''-m2'', ''-t7''] =
      [(CHR ''d'', Some ''x''), (CHR ''o'', Some ''y''), (CHR ''m'', Some ''2''), (CHR ''t'', Some ''7'')]"
    by (simp add: optstring_def getopt_scan.simps)
  then have "\<forall>r. \<exists>x. dynamic_main (\<lambda>_. 0) demo_scan demo_files (\<lambda>_ _. 0) [''-dx'', ''-oy'', ''-m2'', ''-t7''] 3 r = Inr x"
    "\<exists>ctx pb. dynamic_main (\<lambda>_. 0) demo_scan demo_files (\<lambda>_ _. 0) [''-dx'', ''-oy'', ''-m2'', ''-t7''] 3 2 =
      Inr (Server \<lparr>rank = 2, inmsg = 0, outmsg = 0, mctx = ctx\<rparr> pb) \<and> thrdpm ctx = 7 \<and> samples pb = 2"
    using demo_input
    by (simp_all add: dynamic_main_def get_options_def option_step_def run_py_strtol zero_problem_def
        zero_ctx_def create_threadcxt_def makecm_def Let_def)
  then show ?thesis by (metis sum.inject(2))
qed

theorem mpi_program_runs_witness:
  "\<exists>ro ctx pb. (\<forall>r. dynamic_main (\<lambda>_. 0) demo_scan demo_files (\<lambda>_ _. 0) [''-dx'', ''-oy'', ''-m2'', ''-t7''] 3 r = Inr (ro r)) \<and>
     program_start 3 ro = init_system ctx pb \<and> machines ctx = 2 \<and> thrdpm ctx = 7 \<and>
     (\<forall>s. breachable 96 (initcomm True) (\<lambda>_. 0) ctx pb s \<longrightarrow> (\<exists>t. bsys_step 96 (initcomm True) (\<lambda>_. 0) s t))"
proof -
  obtain ro ctx pb where ro: "\<forall>r. dynamic_main (\<lambda>_. 0) demo_scan demo_files (\<lambda>_ _. 0) [''-dx'', ''-oy'', ''-m2'', ''-t7''] 3 r = Inr (ro r)"
    "ro 2 = Server \<lparr>rank = 2, inmsg = 0, outmsg = 0, mctx = ctx\<rparr> pb" "thrdpm ctx = 7" "samples pb = 2"
    using demo_processes by blast
  have "machines ctx = 2 \<Longrightarrow> nat (machines ctx) * nat (thrdpm ctx) * (MSGSIZE + 96) \<le> initcomm True"
    using ro(3) by (simp add: initcomm_def MPIBUFSIZE_def MSGSIZE_def)
  with mpi_program_runs [of 3 "\<lambda>_. 0" demo_scan demo_files "\<lambda>_ _. 0" "[''-dx'', ''-oy'', ''-m2'', ''-t7'']" ro 96 "\<lambda>_. 0"] ro
  have "program_start 3 ro = init_system ctx pb \<and> machines ctx = 2 \<and>
     (\<forall>s. breachable 96 (initcomm True) (\<lambda>_. 0) ctx pb s \<longrightarrow> (\<exists>t. bsys_step 96 (initcomm True) (\<lambda>_. 0) s t))"
    by (auto simp: MAX_SAMPLE_def)
  with ro show ?thesis by blast
qed

end
