(* ===== verification/Sock_Io.thy ===== *)
theory Sock_Io
  imports CT_Prelude
begin

text \<open>
  Reading and writing whole messages on TCP sockets (\<open>readn\<close> and \<open>writen\<close> of
  \<open>src/socket/src/util.cpp\<close>, \<open>src/socket/src/tcp_comm.cpp\<close>). The system calls \<open>read\<close> and \<open>write\<close> are
  arguments over a world of their own; \<open>read\<close> gives \<open>None\<close> for the result -1. Sizes are 64 bit words as in the
  code, where an error result becomes a huge number; a loop that never ends has the value \<open>None\<close>.
  The locale \<open>posix_stream\<close> states what the system calls do on a working connection. Theorems: both
  loops end and transfer exactly what was asked, and messages arrive as they were sent.
\<close>

type_synonym 'w sys_read = "c_int \<Rightarrow> u64 \<Rightarrow> 'w \<Rightarrow> byte list option \<times> 'w"
type_synonym 'w sys_write = "c_int \<Rightarrow> byte list \<Rightarrow> 'w \<Rightarrow> int \<times> 'w"

text \<open>The \<open>ssize_t\<close> result of a \<open>read\<close> stored in a \<open>size_t\<close>, and the bytes it put at \<open>buff + off\<close>.\<close>

definition read_size :: "byte list option \<Rightarrow> u64" where
  "read_size r = (case r of None \<Rightarrow> - 1 | Some bs \<Rightarrow> of_nat (length bs))"

definition read_into :: "u64 \<Rightarrow> byte list option \<Rightarrow> byte list \<Rightarrow> byte list" where
  "read_into off r buff = (case r of None \<Rightarrow> buff | Some bs \<Rightarrow> blit (unat off) bs buff)"

section \<open>The loops\<close>

text \<open>The tests \<open>readmore < 0\<close> and \<open>readbytes < 0\<close> compare unsigned numbers and are written as the code has them.\<close>

partial_function (option) readn_loop ::
  "'w sys_read \<Rightarrow> c_int \<Rightarrow> u64 \<Rightarrow> u64 \<Rightarrow> byte list \<Rightarrow> 'w \<Rightarrow> (c_int \<times> byte list \<times> 'w) option" where
  "readn_loop rd fd len readbytes buff w =
     (if readbytes < len then
        (case rd fd (len - readbytes) w of (r, w) \<Rightarrow>
           let readmore = read_size r; buff = read_into readbytes r buff in
           if readmore < 0 then
             (if readbytes < 0 then Some (- 1, buff, w) else readn_loop rd fd len readbytes buff w)
           else readn_loop rd fd len (readbytes + readmore) buff w)
      else Some (ucast readbytes, buff, w))"

definition readn :: "'w sys_read \<Rightarrow> c_int \<Rightarrow> byte list \<Rightarrow> u64 \<Rightarrow> 'w \<Rightarrow> (c_int \<times> byte list \<times> 'w) option" where
  "readn rd fd buff len w =
     (case rd fd len w of (r, w) \<Rightarrow>
        let readbytes = read_size r; buff = read_into 0 r buff in
        if readbytes = 0 then Some (0, buff, w)
        else if readbytes < 0 then Some (- 1, buff, w)
        else readn_loop rd fd len readbytes buff w)"

partial_function (option) writen_loop ::
  "'w sys_write \<Rightarrow> c_int \<Rightarrow> byte list \<Rightarrow> u64 \<Rightarrow> u64 \<Rightarrow> 'w \<Rightarrow> (c_int \<times> 'w) option" where
  "writen_loop wr fd buff len i w =
     (if i < len then
        (case wr fd (slice (unat i) (unat (len - i)) buff) w of (r, w) \<Rightarrow>
           let written = word_of_int r :: c_int in
           if sint written < 0 then Some (- 1, w)
           else writen_loop wr fd buff len (i + scast written) w)
      else Some (ucast i, w))"

definition writen :: "'w sys_write \<Rightarrow> c_int \<Rightarrow> byte list \<Rightarrow> u64 \<Rightarrow> 'w \<Rightarrow> (c_int \<times> 'w) option" where
  "writen wr fd buff len w = writen_loop wr fd buff len 0 w"

section \<open>Messages\<close>

type_synonym dsize_t = u32

definition tcp_write :: "'w sys_write \<Rightarrow> c_int \<Rightarrow> byte list \<Rightarrow> dsize_t \<Rightarrow> 'w \<Rightarrow> (c_int \<times> 'w) option" where
  "tcp_write wr sock buff msglen w =
     (case writen wr sock (le32 msglen) 4 w of
        None \<Rightarrow> None
      | Some (n, w) \<Rightarrow> if n < 0 then Some (- 1, w) else writen wr sock buff (ucast msglen) w)"

text \<open>
  What \<open>tcp_read\<close> gives back: its result, the buffer that holds the message (the caller's or a new one),
  and \<open>use_tempbuf\<close>.
\<close>

record tcp_msg =
  ret :: c_int
  contents :: "byte list"
  use_tempbuf :: bool

text \<open>
  \<open>msglen0\<close> stands for the bytes of the uninitialised variable \<open>msglen\<close>, \<open>fresh\<close> for the contents of
  memory from \<open>new uint8_t[msglen + 1]\<close>, where fewer bytes than asked for stand for \<open>std::bad_alloc\<close>, which is thrown on; the sum is taken in 32 bits, so
  that the memory can be too small for the message. When nothing is received, \<open>*use_tempbuf\<close> is not written; \<open>False\<close> in the result is then a
  placeholder, which no caller reads.
\<close>

definition tcp_read :: "'w sys_read \<Rightarrow> (nat \<Rightarrow> byte list) \<Rightarrow> byte list \<Rightarrow> c_int \<Rightarrow> byte list \<Rightarrow> dsize_t \<Rightarrow> 'w \<Rightarrow>
    (tcp_msg outcome \<times> 'w) option" where
  "tcp_read rd fresh msglen0 sock buff maxsize w =
     (case readn rd sock msglen0 4 w of
        None \<Rightarrow> None
      | Some (n, hdr, w) \<Rightarrow>
          if n = 0 then Some (Inr \<lparr>ret = 0, contents = buff, use_tempbuf = False\<rparr>, w)
          else if n < 0 then Some (Inr \<lparr>ret = - 1, contents = buff, use_tempbuf = False\<rparr>, w)
          else
            let msglen = un_le32 hdr in
            if msglen \<le> maxsize then
              (case readn rd sock buff (ucast msglen) w of
                 None \<Rightarrow> None
               | Some (n, buff, w) \<Rightarrow> Some (Inr \<lparr>ret = n, contents = buff, use_tempbuf = False\<rparr>, w))
            else
              let tempbuf = fresh (unat (msglen + 1)) in
              if length tempbuf < unat (msglen + 1) then Some (Inl Throw, w)
              else if length tempbuf < unat msglen then Some (Inl Undefined, w)
              else
                (case readn rd sock tempbuf (ucast msglen) w of
                   None \<Rightarrow> None
                 | Some (n, tempbuf, w) \<Rightarrow> Some (Inr \<lparr>ret = n, contents = tempbuf, use_tempbuf = True\<rparr>, w)))"

text \<open>
  Addresses: \<open>sockaddr_in\<close> as the 16 bytes the system calls get (family, port in network order, address, padding).
  \<open>pton\<close> stands for \<open>inet_pton\<close>: its result and the four bytes it stores.
\<close>

definition htons :: "u16 \<Rightarrow> u16" where
  "htons w = push_bit 8 w OR drop_bit 8 w"

definition le16 :: "u16 \<Rightarrow> byte list" where
  "le16 w = [ucast w, ucast (drop_bit 8 w)]"

definition sockaddr_in :: "u16 \<Rightarrow> byte list \<Rightarrow> byte list" where
  "sockaddr_in p a = le16 2 @ le16 (htons p) @ a @ replicate 8 0"

definition tcp_bind :: "(string \<Rightarrow> int \<times> byte list) \<Rightarrow> (c_int \<Rightarrow> byte list \<Rightarrow> 'w \<Rightarrow> int \<times> 'w) \<Rightarrow> c_int \<Rightarrow> string \<Rightarrow> u16 \<Rightarrow> 'w \<Rightarrow> int \<times> 'w" where
  "tcp_bind pton bind sock ip port w =
     (case pton ip of (success, a) \<Rightarrow> if success \<le> 0 then (-1, w) else bind sock (sockaddr_in port a) w)"

definition tcp_socket :: "(int \<Rightarrow> int \<Rightarrow> int \<Rightarrow> 'w \<Rightarrow> int \<times> 'w) \<Rightarrow> 'w \<Rightarrow> int \<times> 'w" where
  "tcp_socket socket w = socket 2 1 0 w"

definition BACKLOG :: int where "BACKLOG = 64"

definition tcp_listen :: "(c_int \<Rightarrow> int \<Rightarrow> 'w \<Rightarrow> int \<times> 'w) \<Rightarrow> c_int \<Rightarrow> 'w \<Rightarrow> int \<times> 'w" where
  "tcp_listen listen sock w = listen sock BACKLOG w"

definition tcp_connect :: "(string \<Rightarrow> int \<times> byte list) \<Rightarrow> (c_int \<Rightarrow> byte list \<Rightarrow> 'w \<Rightarrow> int \<times> 'w) \<Rightarrow> c_int \<Rightarrow> string \<Rightarrow> u16 \<Rightarrow> 'w \<Rightarrow> int \<times> 'w" where
  "tcp_connect pton conn sock ip port w =
     (case pton ip of (success, a) \<Rightarrow> if success \<le> 0 then (-1, w) else conn sock (sockaddr_in port a) w)"

text \<open>\<open>accept\<close> gives the new socket, the length of the peer's address and the address; \<open>ntop\<close> tells whether \<open>inet_ntop\<close> succeeds.\<close>

definition tcp_accept :: "(c_int \<Rightarrow> 'w \<Rightarrow> (int \<times> nat \<times> byte list) \<times> 'w) \<Rightarrow> (byte list \<Rightarrow> bool) \<Rightarrow> c_int \<Rightarrow> 'w \<Rightarrow> (int \<times> byte list) outcome \<times> 'w" where
  "tcp_accept acc ntop sock w =
     (case acc sock w of ((connsock, sock_len, a), w) \<Rightarrow>
        if connsock < 0 then (Inr (-1, a), w)
        else if sock_len \<noteq> 16 then (Inl Abort, w)
        else if \<not> ntop a then (Inl Abort, w)
        else (Inr (connsock, a), w))"

lemma htons_network_order: "le16 (htons p) = [ucast (drop_bit 8 p), ucast p]"
proof -
  have "(ucast (htons p) :: byte) = ucast (drop_bit 8 p)"
    by (rule bit_word_eqI) (auto simp: htons_def bit_simps)
  moreover have "(ucast (drop_bit 8 (htons p)) :: byte) = ucast p"
    by (rule bit_word_eqI) (auto simp: htons_def bit_simps dest: bit_imp_le_length)
  ultimately show ?thesis by (simp add: le16_def)
qed

lemma sockaddr_in_bytes:
  "length a = 4 \<Longrightarrow> length (sockaddr_in p a) = 16"
  "sockaddr_in p a = [2, 0, ucast (drop_bit 8 p), ucast p] @ a @ replicate 8 0"
  by (simp_all add: sockaddr_in_def htons_network_order) (simp_all add: le16_def)

text \<open>A sender and a receiver of a sequence of messages, as the test programs are.\<close>

fun send_all :: "'w sys_write \<Rightarrow> c_int \<Rightarrow> byte list list \<Rightarrow> 'w \<Rightarrow> 'w option" where
  "send_all wr sock [] w = Some w"
| "send_all wr sock (m # ms) w =
     (case tcp_write wr sock m (of_nat (length m)) w of None \<Rightarrow> None | Some (n, w) \<Rightarrow> send_all wr sock ms w)"

fun recv_all :: "'w sys_read \<Rightarrow> (nat \<Rightarrow> byte list) \<Rightarrow> byte list \<Rightarrow> c_int \<Rightarrow> byte list \<Rightarrow> dsize_t \<Rightarrow> nat \<Rightarrow> 'w \<Rightarrow>
    (byte list list \<times> 'w) option" where
  "recv_all rd fresh msglen0 sock buff maxsize 0 w = Some ([], w)"
| "recv_all rd fresh msglen0 sock buff maxsize (Suc k) w =
     (case tcp_read rd fresh msglen0 sock buff maxsize w of
        Some (Inr r, w) \<Rightarrow>
          (case recv_all rd fresh msglen0 sock buff maxsize k w of
             None \<Rightarrow> None
           | Some (ms, w) \<Rightarrow> Some (take (unat (ret r)) (contents r) # ms, w))
      | _ \<Rightarrow> None)"

text \<open>The bytes of a message on the wire.\<close>

definition frame :: "byte list \<Rightarrow> byte list" where
  "frame m = le32 (of_nat (length m)) @ m"

definition sendable :: "byte list \<Rightarrow> bool" where
  "sendable m \<longleftrightarrow> 0 < length m \<and> length m < 2 ^ 31"

section \<open>The system calls on a working connection\<close>

text \<open>
  \<open>pend\<close> are the bytes of a connection that are still to be read, \<open>sent\<close> those written so far. \<open>read\<close> and
  \<open>write\<close> may transfer any positive part of what they are asked to.
\<close>

locale posix_stream =
  fixes rd :: "'w sys_read"
    and wr :: "'w sys_write"
    and pend sent :: "c_int \<Rightarrow> 'w \<Rightarrow> byte list"
  assumes rd_zero: "rd fd 0 w = (Some [], w)"
    and rd_data: "pend fd w \<noteq> [] \<Longrightarrow> 0 < len \<Longrightarrow>
      \<exists>k w'. rd fd len w = (Some (take k (pend fd w)), w') \<and> 0 < k \<and> k \<le> unat len \<and> k \<le> length (pend fd w) \<and>
        pend fd w' = drop k (pend fd w) \<and> (\<forall>fd'. fd' \<noteq> fd \<longrightarrow> pend fd' w' = pend fd' w)"
    and wr_data: "data \<noteq> [] \<Longrightarrow>
      \<exists>k w'. wr fd data w = (int k, w') \<and> 0 < k \<and> k \<le> length data \<and>
        sent fd w' = sent fd w @ take k data \<and> (\<forall>fd'. fd' \<noteq> fd \<longrightarrow> sent fd' w' = sent fd' w)"

lemma unat_add_of_nat:
  fixes i len :: u64
  assumes "unat i + k \<le> unat len"
  shows "unat (i + of_nat k) = unat i + k"
proof -
  have b: "unat i + k < 2 ^ 64" using assms unsigned_less [of len, where 'a = nat] by simp
  then have "unat (of_nat k :: u64) = k" by (simp add: unat_of_nat take_bit_nat_eq_self)
  then show ?thesis using b by (simp add: unat_word_ariths(1))
qed

lemma minus_of_unat_sum:
  fixes i rest len :: u64
  assumes "unat i + unat rest = unat len"
  shows "len - i = rest"
proof -
  have "unat (i + rest) = unat len"
    using assms unsigned_less [of len, where 'a = nat] by (simp add: unat_word_ariths(1))
  then have "i + rest = len" by (simp add: word_unat_eq_iff)
  then show ?thesis by auto
qed

lemma int_of_small:
  assumes "k < 2 ^ 31"
  shows "sint (of_nat k :: c_int) = int k" "scast (of_nat k :: c_int) = (of_nat k :: u64)"
proof -
  show s: "sint (of_nat k :: c_int) = int k"
    using assms by (simp add: signed_of_nat signed_take_bit_int_eq_self)
  show "scast (of_nat k :: c_int) = (of_nat k :: u64)"
    by (metis s scast_eq of_int_of_nat_eq)
qed

lemma slice_split:
  assumes "k \<le> n"
  shows "take k (slice off n xs) @ slice (off + k) (n - k) xs = slice off n xs"
proof -
  have "take k (take n ys) @ take (n - k) (drop k ys) = take n ys" for ys :: "'a list"
    using assms take_add [of k "n - k" ys] by (simp add: min_def)
  from this [of "drop off xs"] show ?thesis by (simp add: slice_def add.commute)
qed

lemma ucast_u32_u64 [simp]:
  "unat (ucast (n :: u32) :: u64) = unat n" "(ucast (ucast n :: u64) :: u32) = n"
proof -
  show "unat (ucast n :: u64) = unat n"
    using unsigned_less [of n, where 'a = nat] by (simp add: unsigned_ucast_eq take_bit_nat_eq_self)
  show "(ucast (ucast n :: u64) :: u32) = n" by (rule bit_word_eqI) (simp add: bit_simps)
qed

lemma blit_blit:
  "off + length xs \<le> length buf \<Longrightarrow> blit (off + length xs) ys (blit off xs buf) = blit off (xs @ ys) buf"
  by (cases xs) (auto simp: blit_def min_def ac_simps)

context posix_stream
begin

lemma readn_loop_exact:
  fixes i rest len :: u64
  assumes "unat i + unat rest = unat len" "unat len < 2 ^ 31" "unat rest \<le> length (pend fd w)" "unat len \<le> length buff"
  shows "\<exists>w'. readn_loop rd fd len i buff w = Some (ucast len, blit (unat i) (take (unat rest) (pend fd w)) buff, w') \<and>
    pend fd w' = drop (unat rest) (pend fd w) \<and> (\<forall>fd'. fd' \<noteq> fd \<longrightarrow> pend fd' w' = pend fd' w)"
  using assms
proof (induction "unat rest" arbitrary: i rest buff w rule: less_induct)
  case less
  note rest = minus_of_unat_sum [OF less.prems(1)]
  show ?case
  proof (cases "rest = 0")
    case True
    with less.prems(1) have "i = len" by (simp add: word_unat_eq_iff)
    with True show ?thesis
      by (intro exI [of _ w]) (simp add: readn_loop.simps [of rd fd len] blit_def)
  next
    case False
    then have pos: "0 < rest" "0 < unat rest" by (simp_all add: word_neq_0_conv unat_gt_0)
    with less.prems have "pend fd w \<noteq> []" by auto
    from rd_data [OF this pos(1)] obtain k w1 where
      k: "rd fd rest w = (Some (take k (pend fd w)), w1)" "0 < k" "k \<le> unat rest" "k \<le> length (pend fd w)"
      and w1: "pend fd w1 = drop k (pend fd w)" "\<forall>fd'. fd' \<noteq> fd \<longrightarrow> pend fd' w1 = pend fd' w" by blast
    let ?bs = "take k (pend fd w)"
    have lb: "length ?bs = k" using k(4) by simp
    have i': "unat (i + of_nat k) = unat i + k"
      using less.prems(1) k(3) by (intro unat_add_of_nat [of i k len]) simp
    define rest' where "rest' = (of_nat (unat rest - k) :: u64)"
    have "unat rest - k < 2 ^ 64" using less.prems(1,2) by simp
    then have r': "unat rest' = unat rest - k" by (simp add: rest'_def unat_of_nat take_bit_nat_eq_self)
    have lt: "i < len" using less.prems(1) pos(2) by (simp add: word_less_nat_alt)
    have unf: "readn_loop rd fd len i buff w = readn_loop rd fd len (i + of_nat k) (blit (unat i) ?bs buff) w1"
      using lt lb by (simp add: readn_loop.simps [of rd fd len i] rest k(1) read_size_def read_into_def)
    have "length (blit (unat i) ?bs buff) = length buff"
      using less.prems k lb by (intro length_blit) simp
    with less.prems k r' i' w1 have "\<exists>w'. readn_loop rd fd len (i + of_nat k) (blit (unat i) ?bs buff) w1 =
        Some (ucast len, blit (unat (i + of_nat k)) (take (unat rest') (pend fd w1)) (blit (unat i) ?bs buff), w') \<and>
        pend fd w' = drop (unat rest') (pend fd w1) \<and> (\<forall>fd'. fd' \<noteq> fd \<longrightarrow> pend fd' w' = pend fd' w1)"
      by (intro less.hyps) auto
    then obtain w' where w': "readn_loop rd fd len (i + of_nat k) (blit (unat i) ?bs buff) w1 =
        Some (ucast len, blit (unat i + k) (take (unat rest - k) (drop k (pend fd w))) (blit (unat i) ?bs buff), w')"
      "pend fd w' = drop (unat rest) (pend fd w)" "\<forall>fd'. fd' \<noteq> fd \<longrightarrow> pend fd' w' = pend fd' w"
      using i' r' w1 k(3) by auto
    have "blit (unat i + k) (take (unat rest - k) (drop k (pend fd w))) (blit (unat i) ?bs buff) =
      blit (unat i) (take (unat rest) (pend fd w)) buff"
      using blit_blit [of "unat i" ?bs buff] lb less.prems k(3) take_add [of k "unat rest - k" "pend fd w"] by simp
    with unf w' show ?thesis by auto
  qed
qed

lemma readn_exact:
  fixes len :: u64
  assumes "0 < len" "unat len < 2 ^ 31" "unat len \<le> length (pend fd w)" "unat len \<le> length buff"
  shows "\<exists>w'. readn rd fd buff len w = Some (ucast len, blit 0 (take (unat len) (pend fd w)) buff, w') \<and>
    pend fd w' = drop (unat len) (pend fd w) \<and> (\<forall>fd'. fd' \<noteq> fd \<longrightarrow> pend fd' w' = pend fd' w)"
proof -
  have "readn rd fd buff len w = readn_loop rd fd len 0 buff w"
  proof -
    have "0 < unat len" using assms(1) by (simp add: unat_gt_0 word_neq_0_conv)
    then have "pend fd w \<noteq> []" using assms(3) by auto
    from rd_data [OF this assms(1)] obtain k w1 where
      k: "rd fd len w = (Some (take k (pend fd w)), w1)" "0 < k" "k \<le> unat len" "k \<le> length (pend fd w)" by blast
    then have "(of_nat k :: u64) \<noteq> 0"
      using assms(2) by (simp add: word_unat_eq_iff unat_of_nat take_bit_nat_eq_self)
    with k assms(1) show ?thesis
      by (simp add: readn_def readn_loop.simps [of rd fd len 0] read_size_def read_into_def min_def)
  qed
  with readn_loop_exact [of 0 len len fd w buff] assms show ?thesis by simp
qed

lemma writen_loop_exact:
  fixes i rest len :: u64
  assumes "unat i + unat rest = unat len" "unat len < 2 ^ 31" "unat len \<le> length buff"
  shows "\<exists>w'. writen_loop wr fd buff len i w = Some (ucast len, w') \<and>
    sent fd w' = sent fd w @ slice (unat i) (unat rest) buff \<and> (\<forall>fd'. fd' \<noteq> fd \<longrightarrow> sent fd' w' = sent fd' w)"
  using assms
proof (induction "unat rest" arbitrary: i rest w rule: less_induct)
  case less
  note rest = minus_of_unat_sum [OF less.prems(1)]
  show ?case
  proof (cases "rest = 0")
    case True
    with less.prems(1) have "i = len" by (simp add: word_unat_eq_iff)
    with True show ?thesis
      by (intro exI [of _ w]) (simp add: writen_loop.simps [of wr fd buff len] slice_def)
  next
    case False
    let ?data = "slice (unat i) (unat rest) buff"
    have ld: "length ?data = unat rest" using less.prems(1,3) by simp
    have pos: "0 < unat rest" using False by (simp add: word_neq_0_conv unat_gt_0)
    with ld have "?data \<noteq> []" by (metis length_0_conv less_irrefl)
    from wr_data [OF this, of fd w] obtain k w1 where
      k: "wr fd ?data w = (int k, w1)" "0 < k" "k \<le> unat rest"
      and w1: "sent fd w1 = sent fd w @ take k ?data" "\<forall>fd'. fd' \<noteq> fd \<longrightarrow> sent fd' w1 = sent fd' w"
      using ld by auto
    have i': "unat (i + of_nat k) = unat i + k"
      using less.prems(1) k(3) by (intro unat_add_of_nat [of i k len]) simp
    define rest' where "rest' = (of_nat (unat rest - k) :: u64)"
    have "unat rest - k < 2 ^ 64" using less.prems(1,2) by simp
    then have r': "unat rest' = unat rest - k" by (simp add: rest'_def unat_of_nat take_bit_nat_eq_self)
    have lt: "i < len" using less.prems(1) pos by (simp add: word_less_nat_alt)
    have "k < 2 ^ 31" using k(3) less.prems(1,2) by simp
    note kk = int_of_small [OF this]
    have unf: "writen_loop wr fd buff len i w = writen_loop wr fd buff len (i + of_nat k) w1"
      using lt by (simp add: writen_loop.simps [of wr fd buff len i] rest k(1) kk)
    have "\<exists>w'. writen_loop wr fd buff len (i + of_nat k) w1 = Some (ucast len, w') \<and>
        sent fd w' = sent fd w1 @ slice (unat (i + of_nat k)) (unat rest') buff \<and>
        (\<forall>fd'. fd' \<noteq> fd \<longrightarrow> sent fd' w' = sent fd' w1)"
      using less.prems k r' i' by (intro less.hyps) auto
    moreover have "take k ?data @ slice (unat i + k) (unat rest - k) buff = ?data"
      using k(3) by (rule slice_split)
    ultimately show ?thesis using unf w1 i' r' by auto
  qed
qed

lemma writen_exact:
  assumes "unat len < 2 ^ 31" "unat len \<le> length buff"
  shows "\<exists>w'. writen wr fd buff len w = Some (ucast len, w') \<and>
    sent fd w' = sent fd w @ take (unat len) buff \<and> (\<forall>fd'. fd' \<noteq> fd \<longrightarrow> sent fd' w' = sent fd' w)"
  using writen_loop_exact [of 0 len len buff fd w] assms by (simp add: writen_def slice_def)

lemma tcp_write_prefix:
  assumes "sendable m" "m = take (length m) buff"
  shows "\<exists>w'. tcp_write wr sock buff (of_nat (length m)) w = Some (of_nat (length m), w') \<and>
    sent sock w' = sent sock w @ frame m \<and> (\<forall>fd'. fd' \<noteq> sock \<longrightarrow> sent fd' w' = sent fd' w)"
proof -
  let ?n = "of_nat (length m) :: u32"
  have n: "unat ?n = length m" using assms(1) by (simp add: sendable_def unat_of_nat take_bit_nat_eq_self)
  have l: "length m \<le> length buff" by (subst assms(2)) simp
  from writen_exact [of 4 "le32 ?n" sock w] obtain w1 where
    w1: "writen wr sock (le32 ?n) 4 w = Some (4, w1)" "sent sock w1 = sent sock w @ le32 ?n"
    "\<forall>fd'. fd' \<noteq> sock \<longrightarrow> sent fd' w1 = sent fd' w" by auto
  from writen_exact [of "ucast ?n" buff sock w1] n l assms obtain w2 where
    "writen wr sock buff (ucast ?n) w1 = Some (?n, w2)" "sent sock w2 = sent sock w1 @ m"
    "\<forall>fd'. fd' \<noteq> sock \<longrightarrow> sent fd' w2 = sent fd' w1" by (auto simp: sendable_def)
  with w1 show ?thesis by (intro exI [of _ w2]) (simp add: tcp_write_def frame_def)
qed

lemmas tcp_write_frames = tcp_write_prefix [of m m for m, simplified]

lemma tcp_read_unframes:
  assumes "sendable m" "pend sock w = frame m @ rest" "length msglen0 = 4"
    and "unat maxsize \<le> length buff" "\<And>n. length (fresh n) = n"
  shows "\<exists>r w'. tcp_read rd fresh msglen0 sock buff maxsize w = Some (Inr r, w') \<and>
    unat (ret r) = length m \<and> take (length m) (contents r) = m \<and>
    (use_tempbuf r \<longleftrightarrow> unat maxsize < length m) \<and> pend sock w' = rest \<and>
    (\<not> use_tempbuf r \<longrightarrow> length (contents r) = length buff) \<and> (\<forall>fd'. fd' \<noteq> sock \<longrightarrow> pend fd' w' = pend fd' w)"
proof -
  let ?n = "of_nat (length m) :: u32"
  have n: "unat ?n = length m" "?n \<noteq> 0" "0 < (ucast ?n :: u64)"
    using assms(1) by (auto simp: sendable_def unat_of_nat take_bit_nat_eq_self word_unat_eq_iff word_less_nat_alt)
  from readn_exact [of 4 sock w msglen0] assms(2,3) obtain w1 where
    w1: "readn rd sock msglen0 4 w = Some (4, le32 ?n, w1)" "pend sock w1 = m @ rest"
    and o1: "\<forall>fd'. fd' \<noteq> sock \<longrightarrow> pend fd' w1 = pend fd' w"
    by (auto simp: frame_def blit_def)
  have rd2: "\<exists>w2. readn rd sock b (ucast ?n) w1 = Some (?n, blit 0 m b, w2) \<and> pend sock w2 = rest \<and>
      (\<forall>fd'. fd' \<noteq> sock \<longrightarrow> pend fd' w2 = pend fd' w)"
    if "length m \<le> length b" for b
    using readn_exact [of "ucast ?n" sock w1 b] w1(2) o1 n that assms(1) by (auto simp: sendable_def)
  have fits: "?n \<le> maxsize \<longleftrightarrow> length m \<le> unat maxsize" using n(1) by (simp add: word_le_nat_alt)
  show ?thesis
  proof (cases "?n \<le> maxsize")
    case True
    with rd2 [of buff] fits assms(4) obtain w2 where
      "readn rd sock buff (ucast ?n) w1 = Some (?n, blit 0 m buff, w2)" "pend sock w2 = rest"
      "\<forall>fd'. fd' \<noteq> sock \<longrightarrow> pend fd' w2 = pend fd' w" by auto
    with w1 True fits n assms(4) show ?thesis by (simp add: tcp_read_def length_blit) (simp add: blit_def)
  next
    case False
    have "unat (?n + 1) = length m + 1"
      using assms(1) n(1) by (simp add: sendable_def unat_word_ariths(1))
    with rd2 [of "fresh (unat (?n + 1))"] assms(5) obtain w2 where
      "readn rd sock (fresh (unat (?n + 1))) (ucast ?n) w1 = Some (?n, blit 0 m (fresh (unat (?n + 1))), w2)"
      "pend sock w2 = rest" "\<forall>fd'. fd' \<noteq> sock \<longrightarrow> pend fd' w2 = pend fd' w" by auto
    with w1 False fits n assms(5) \<open>unat (?n + 1) = length m + 1\<close> show ?thesis
      by (simp add: tcp_read_def blit_def Let_def)
  qed
qed

lemma send_all_frames:
  assumes "\<forall>m \<in> set ms. sendable m"
  shows "\<exists>w'. send_all wr sock ms w = Some w' \<and> sent sock w' = sent sock w @ concat (map frame ms)"
  using assms
proof (induction ms arbitrary: w)
  case (Cons m ms)
  then obtain w1 where w1: "tcp_write wr sock m (of_nat (length m)) w = Some (of_nat (length m), w1)"
    "sent sock w1 = sent sock w @ frame m" using tcp_write_frames [of m sock w] by auto
  from Cons obtain w' where "send_all wr sock ms w1 = Some w'" "sent sock w' = sent sock w1 @ concat (map frame ms)"
    by auto
  with w1 show ?case by simp
qed simp

lemma recv_all_unframes:
  assumes "\<forall>m \<in> set ms. sendable m" "pend sock w = concat (map frame ms) @ rest" "length msglen0 = 4"
    and "unat maxsize \<le> length buff" "\<And>n. length (fresh n) = n"
  shows "\<exists>w'. recv_all rd fresh msglen0 sock buff maxsize (length ms) w = Some (ms, w') \<and> pend sock w' = rest"
  using assms(1,2)
proof (induction ms arbitrary: w)
  case (Cons m ms)
  then have "sendable m" "pend sock w = frame m @ concat (map frame ms) @ rest" by auto
  from tcp_read_unframes [OF this assms(3-5)] obtain r w1 where
    r: "tcp_read rd fresh msglen0 sock buff maxsize w = Some (Inr r, w1)" "unat (ret r) = length m"
    "take (length m) (contents r) = m" "pend sock w1 = concat (map frame ms) @ rest" by auto
  from Cons.IH [OF _ r(4)] Cons.prems obtain w' where
    "recv_all rd fresh msglen0 sock buff maxsize (length ms) w1 = Some (ms, w')" "pend sock w' = rest" by auto
  with r show ?case by simp
qed simp

end

section \<open>A segmented connection\<close>

text \<open>
  A connection whose system calls transfer at most \<open>seg\<close> bytes at a time satisfies the contract, for
  every segment size.
\<close>

record stream_world =
  seg :: nat
  inb :: "c_int \<Rightarrow> byte list"
  outb :: "c_int \<Rightarrow> byte list"

definition seg_read :: "stream_world sys_read" where
  "seg_read fd len w =
     (let k = min (unat len) (Suc (seg w)) in
      (Some (take k (inb w fd)), w\<lparr>inb := (inb w)(fd := drop k (inb w fd))\<rparr>))"

definition seg_write :: "stream_world sys_write" where
  "seg_write fd data w =
     (let k = min (length data) (Suc (seg w)) in
      (int k, w\<lparr>outb := (outb w)(fd := outb w fd @ take k data)\<rparr>))"

interpretation segmented: posix_stream seg_read seg_write "\<lambda>fd w. inb w fd" "\<lambda>fd w. outb w fd"
proof
  show "seg_read fd 0 w = (Some [], w)" for fd w by (simp add: seg_read_def)
next
  fix fd and w :: stream_world and len :: u64
  assume ne: "inb w fd \<noteq> []" "0 < len"
  let ?k = "min (min (unat len) (Suc (seg w))) (length (inb w fd))"
  have "0 < ?k" using ne by (simp add: word_less_nat_alt)
  moreover have "seg_read fd len w = (Some (take ?k (inb w fd)), w\<lparr>inb := (inb w)(fd := drop ?k (inb w fd))\<rparr>)"
    by (auto simp: seg_read_def Let_def min_def)
  ultimately show "\<exists>k w'. seg_read fd len w = (Some (take k (inb w fd)), w') \<and> 0 < k \<and> k \<le> unat len \<and>
      k \<le> length (inb w fd) \<and> inb w' fd = drop k (inb w fd) \<and> (\<forall>fd'. fd' \<noteq> fd \<longrightarrow> inb w' fd' = inb w fd')"
    by (intro exI conjI) (auto simp del: min_less_iff_conj)
next
  show "\<exists>k w'. seg_write fd data w = (int k, w') \<and> 0 < k \<and> k \<le> length data \<and>
      outb w' fd = outb w fd @ take k data \<and> (\<forall>fd'. fd' \<noteq> fd \<longrightarrow> outb w' fd' = outb w fd')"
    if "data \<noteq> []" for fd data and w :: stream_world
    using that by (auto simp: seg_write_def Let_def)
qed

text \<open>What no single system call changes is not changed by the loops either.\<close>

lemma readn_loop_obs:
  "readn_loop r fd len i buff w = Some y \<Longrightarrow> \<forall>fd n w. obs (snd (r fd n w)) = obs w \<Longrightarrow> obs (snd (snd y)) = obs w"
proof (induction rule: readn_loop.raw_induct [rotated, consumes 1, case_names step])
  case (step loop r fd len i buff w y)
  obtain bs w1 where r: "r fd (len - i) w = (bs, w1)" by (cases "r fd (len - i) w")
  then have w1: "obs w1 = obs w" using step.prems by (metis snd_conv)
  show ?case
  proof (cases "i < len")
    case True
    with step.hyps r have "loop r fd len (i + read_size bs) (read_into i bs buff) w1 = Some y"
      by (simp add: Let_def)
    from step.IH [OF this step.prems] w1 show ?thesis by simp
  qed (use step.hyps in auto)
qed

lemma readn_obs:
  assumes "readn rd fd buff len w = Some (n, buff', w')" "\<forall>fd n w. obs (snd (rd fd n w)) = obs w"
  shows "obs w' = obs w"
proof -
  obtain r w1 where "rd fd len w = (r, w1)" by (cases "rd fd len w")
  moreover from this have "obs w1 = obs w" using assms(2) by (metis snd_conv)
  ultimately show ?thesis using assms readn_loop_obs [where y = "(n, buff', w')" and obs = obs]
    by (fastforce simp: readn_def Let_def split: if_splits)
qed

lemma tcp_read_obs:
  "tcp_read rd fresh msglen0 sock buff maxsize w = Some (r, w') \<Longrightarrow> \<forall>fd n w. obs (snd (rd fd n w)) = obs w \<Longrightarrow> obs w' = obs w"
  by (auto simp: tcp_read_def Let_def readn_obs [where obs = obs] split: option.splits prod.splits if_splits)

lemma writen_loop_obs:
  "writen_loop r fd buff len i w = Some y \<Longrightarrow> \<forall>fd data w. obs (snd (r fd data w)) = obs w \<Longrightarrow> obs (snd y) = obs w"
proof (induction rule: writen_loop.raw_induct [rotated, consumes 1, case_names step])
  case (step loop r fd buff len i w y)
  obtain k w1 where r: "r fd (slice (unat i) (unat (len - i)) buff) w = (k, w1)"
    by (cases "r fd (slice (unat i) (unat (len - i)) buff) w")
  then have "obs w1 = obs w" using step.prems by (metis snd_conv)
  then show ?case using step.hyps step.IH [OF _ step.prems] r by (fastforce simp: Let_def split: if_splits)
qed

lemma writen_obs:
  "writen wr fd buff len w = Some (n, w') \<Longrightarrow> \<forall>fd data w. obs (snd (wr fd data w)) = obs w \<Longrightarrow> obs w' = obs w"
  unfolding writen_def using writen_loop_obs [where y = "(n, w')" and obs = obs] by fastforce

text \<open>Reading and writing are independent: what was sent is not changed by a read, nor what is waiting by a write.\<close>

locale duplex_stream = posix_stream +
  assumes rd_sent: "sent fd' (snd (rd fd len w)) = sent fd' w"
    and wr_pend: "pend fd' (snd (wr fd data w)) = pend fd' w"
begin

lemma tcp_read_sent: "tcp_read rd fresh msglen0 sock buff maxsize w = Some (r, w') \<Longrightarrow> sent fd' w' = sent fd' w"
  by (erule tcp_read_obs [where obs = "sent fd'"]) (simp add: rd_sent)

lemma writen_pend: "writen wr fd buff len w = Some (n, w') \<Longrightarrow> pend fd' w' = pend fd' w"
  by (erule writen_obs [where obs = "pend fd'"]) (simp add: wr_pend)

end

interpretation segmented_duplex: duplex_stream seg_read seg_write "\<lambda>fd w. inb w fd" "\<lambda>fd w. outb w fd"
  by unfold_locales (simp_all add: seg_read_def seg_write_def Let_def)

definition demo_world :: "byte list \<Rightarrow> stream_world" where
  "demo_world bs = \<lparr>seg = 2, inb = (\<lambda>_. bs), outb = (\<lambda>_. [])\<rparr>"

section \<open>What the functions guarantee\<close>

text \<open>
  C23. On a connection whose system calls may split the data at will, \<open>readn\<close> ends and puts
  exactly the next \<open>len\<close> bytes into the buffer, leaving the following bytes unread and the rest of the buffer alone,
  and \<open>writen\<close> ends and writes exactly the first \<open>len\<close> bytes.
\<close>

theorem readn_writen_exact:
  fixes len :: u64
  assumes "posix_stream rd wr pend sent" and "0 < len" and "unat len < 2 ^ 31"
    and "unat len \<le> length buff" and "unat len \<le> length (pend fd w)"
  shows "(\<exists>w'. readn rd fd buff len w =
        Some (ucast len, take (unat len) (pend fd w) @ drop (unat len) buff, w') \<and>
      pend fd w' = drop (unat len) (pend fd w)) \<and>
    (\<exists>w'. writen wr fd buff len w = Some (ucast len, w') \<and>
      sent fd w' = sent fd w @ take (unat len) buff)"
  using posix_stream.readn_exact [OF assms(1-3,5,4)] posix_stream.writen_exact [OF assms(1,3,4), of fd w] assms(5)
  by (auto simp: blit_def)

theorem readn_writen_exact_witness:
  "\<exists>w'. readn seg_read 3 [0, 0, 0, 0, 0] 4 (demo_world [5, 6, 7, 8, 9]) = Some (4, [5, 6, 7, 8, 0], w')"
  using readn_writen_exact [OF segmented.posix_stream_axioms, of 4 "[0, 0, 0, 0, 0]" "demo_world [5, 6, 7, 8, 9]" 3]
  by (auto simp: demo_world_def)

text \<open>
  C14. Messages keep their boundaries: whatever messages \<open>tcp_write\<close> sends over one connection, as many calls of
  \<open>tcp_read\<close> at the other end deliver the same messages in the same order, whether a message
  fits the caller's buffer or not, and leave nothing unread.
\<close>

theorem tcp_messages_arrive:
  assumes "posix_stream rd wr pend sent" and "\<forall>m \<in> set ms. sendable m" and "length msglen0 = 4"
    and "unat maxsize \<le> length buff" and "\<forall>n. length (fresh n) = n"
  shows "\<exists>w'. send_all wr sock ms w = Some w' \<and>
    (\<forall>v. sent sock w @ pend sock' v = sent sock w' \<longrightarrow>
      (\<exists>v'. recv_all rd fresh msglen0 sock' buff maxsize (length ms) v = Some (ms, v') \<and> pend sock' v' = []))"
proof -
  obtain w' where w': "send_all wr sock ms w = Some w'" "sent sock w' = sent sock w @ concat (map frame ms)"
    using posix_stream.send_all_frames [OF assms(1,2)] by blast
  have "\<exists>v'. recv_all rd fresh msglen0 sock' buff maxsize (length ms) v = Some (ms, v') \<and> pend sock' v' = []"
    if "sent sock w @ pend sock' v = sent sock w'" for v
    using posix_stream.recv_all_unframes [OF assms(1,2) _ assms(3,4), of sock' v "[]" fresh] that w'(2) assms(5)
    by simp
  with w'(1) show ?thesis by blast
qed

theorem tcp_messages_arrive_witness:
  "\<exists>w'. send_all seg_write 3 [[1, 2, 3], [4]] (demo_world []) = Some w' \<and>
     (\<forall>v. inb v 4 = outb w' 3 \<longrightarrow>
       (\<exists>v'. recv_all seg_read (\<lambda>n. replicate n 0) [9, 9, 9, 9] 4 [0, 0] 2 2 v = Some ([[1, 2, 3], [4]], v')))"
proof -
  have "\<forall>m \<in> set [[1, 2, 3], [4 :: byte]]. sendable m" by (simp add: sendable_def)
  from tcp_messages_arrive [OF segmented.posix_stream_axioms this, of "[9, 9, 9, 9]" 2 "[0, 0]" "\<lambda>n. replicate n 0" 3 "demo_world []" 4]
  obtain w' where "send_all seg_write 3 [[1, 2, 3], [4]] (demo_world []) = Some w'"
    "\<And>v. inb v 4 = outb w' 3 \<Longrightarrow>
       \<exists>v'. recv_all seg_read (\<lambda>n. replicate n 0) [9, 9, 9, 9] 4 [0, 0] 2 2 v = Some ([[1, 2, 3], [4]], v')"
    by (fastforce simp: demo_world_def numeral_2_eq_2 simp del: send_all.simps recv_all.simps)
  then show ?thesis by blast
qed

lemma readn_loop_eof:
  assumes "readn_loop rd fd len i buff w = Some y"
  shows "(\<forall>n. rd fd n w = (Some [], w)) \<longrightarrow> \<not> i < len"
proof (rule readn_loop.raw_induct
    [where P = "\<lambda>rd fd len i buff w y. (\<forall>n. rd fd n w = (Some [], w)) \<longrightarrow> \<not> i < len", OF _ assms])
  fix f :: "'a sys_read \<Rightarrow> c_int \<Rightarrow> u64 \<Rightarrow> u64 \<Rightarrow> byte list \<Rightarrow> 'a \<Rightarrow> (c_int \<times> byte list \<times> 'a) option"
    and rd :: "'a sys_read" and fd len i buff w y
  assume ih: "\<And>rd fd len i buff w y. f rd fd len i buff w = Some y \<Longrightarrow>
      (\<forall>n. rd fd n w = (Some [], w)) \<longrightarrow> \<not> i < len"
    and eq: "(if i < len then
        (case rd fd (len - i) w of (r, w) \<Rightarrow>
           let readmore = read_size r; buff = read_into i r buff in
           if readmore < 0 then (if i < 0 then Some (- 1, buff, w) else f rd fd len i buff w)
           else f rd fd len (i + readmore) buff w)
      else Some (ucast i, buff, w)) = Some y"
  show "(\<forall>n. rd fd n w = (Some [], w)) \<longrightarrow> \<not> i < len"
  proof (intro impI notI)
    assume eof: "\<forall>n. rd fd n w = (Some [], w)" and "i < len"
    with eq have "f rd fd len i (read_into i (Some []) buff) w = Some y" by (simp add: read_size_def)
    from ih [OF this] eof \<open>i < len\<close> show False by blast
  qed
qed

text \<open>
  C39. If the peer closes the connection in the middle of a message, that is, \<open>read\<close> delivers a part
  and from then on reports the end of the stream, \<open>readn\<close> never returns.
\<close>

theorem readn_eof_never_returns:
  fixes len :: u64
  assumes "rd fd len w = (Some bs, w1)" and "bs \<noteq> []" and "length bs < unat len"
    and "\<forall>n. rd fd n w1 = (Some [], w1)"
  shows "readn rd fd buff len w = None"
proof -
  have "unat (of_nat (length bs) :: u64) = length bs"
    using assms(3) unsigned_less [of len, where 'a = nat] by (simp add: unat_of_nat take_bit_nat_eq_self)
  then have "(of_nat (length bs) :: u64) < len" "(of_nat (length bs) :: u64) \<noteq> 0"
    using assms(2,3) by (auto simp: word_less_nat_alt word_unat_eq_iff)
  with assms(4) have "readn_loop rd fd len (of_nat (length bs)) (blit 0 bs buff) w1 = None"
    using readn_loop_eof [of rd fd len "of_nat (length bs)" "blit 0 bs buff" w1]
    by (cases "readn_loop rd fd len (of_nat (length bs)) (blit 0 bs buff) w1") blast+
  with \<open>of_nat (length bs) \<noteq> 0\<close> assms(1) show ?thesis
    by (simp add: readn_def read_size_def read_into_def)
qed

theorem readn_eof_never_returns_witness:
  "readn (\<lambda>fd n w. if w then (Some [], w) else (Some [5, 6], True)) 3 [0, 0, 0, 0] 4 False = None"
  by (rule readn_eof_never_returns [where bs = "[5, 6]" and ?w1.0 = True]) simp_all

end
