(* ===== verification/Sock_Pool.thy ===== *)
theory Sock_Pool
  imports Sock_Io
begin

text \<open>
  The pool of communication threads of the socket library (\<open>src/socket/src/threadpool.hpp\<close> and
  \<open>threadpool.cpp\<close>): connections are dealt out to the threads in turn, a message for a connection is
  queued at the write thread that owns it, and each read thread hands complete messages to a
  callback. The message queue of a write thread is a list, as the theory \<open>Pc_Queue\<close> justifies.
  Theorems: adding connections stays within the arrays, a message goes to the socket of its
  connection, a broadcast to every connection once, and every connection is sent exactly the
  messages addressed to it, in the order of the calls, however the threads interleave.
\<close>

section \<open>Messages and thread data\<close>

datatype msg_type = EXIT | WRITE

record msg_t =
  mtype :: msg_type
  mdata :: "byte list"
  mlen :: dsize_t
  msock :: c_int

text \<open>
  The constructor \<open>msg_t(t, d, l, s)\<close>: the length goes in front of a copy of \<open>l\<close> bytes of \<open>d\<close>; the sum
  \<open>l + sizeof(dsize_t)\<close> is stored in 32 bits.
\<close>

definition make_msg :: "msg_type \<Rightarrow> byte list \<Rightarrow> dsize_t \<Rightarrow> c_int \<Rightarrow> msg_t outcome" where
  "make_msg t d l s =
     (if length d < unat l then Inl Undefined
      else Inr \<lparr>mtype = t, mdata = le32 l @ take (unat l) d, mlen = l + 4, msock = s\<rparr>)"

record tcpthrinfo_t =
  thrid :: u16
  rdfd :: c_int
  msgq :: "msg_t list"
  socks :: "c_int list"
  num_socks :: u16
  max_socks :: u16
  max_sockfd :: c_int
  bufsize :: dsize_t
  rdbuf :: "byte list"

definition tcpthrinfo :: tcpthrinfo_t where
  "tcpthrinfo = \<lparr>thrid = 0, rdfd = 0, msgq = [], socks = [], num_socks = 0, max_socks = 0,
     max_sockfd = 0, bufsize = 0, rdbuf = []\<rparr>"

text \<open>\<open>mem\<close> gives the contents of a new array of a given size.\<close>

definition init_socks :: "(nat \<Rightarrow> c_int list) \<Rightarrow> u16 \<Rightarrow> tcpthrinfo_t \<Rightarrow> tcpthrinfo_t" where
  "init_socks mem n info = info\<lparr>max_socks := n, socks := mem (unat n)\<rparr>"

definition set_thrid :: "u16 \<Rightarrow> tcpthrinfo_t \<Rightarrow> tcpthrinfo_t" where
  "set_thrid i info = info\<lparr>thrid := i\<rparr>"

definition set_rdfd :: "c_int \<Rightarrow> tcpthrinfo_t \<Rightarrow> tcpthrinfo_t" where
  "set_rdfd fd info = (let info = info\<lparr>rdfd := fd\<rparr> in
     if sint (max_sockfd info) < sint fd then info\<lparr>max_sockfd := fd\<rparr> else info)"

definition set_buff :: "dsize_t \<Rightarrow> byte list \<Rightarrow> tcpthrinfo_t \<Rightarrow> tcpthrinfo_t" where
  "set_buff n b info = info\<lparr>bufsize := n, rdbuf := b\<rparr>"

text \<open>The write to the array comes before the assertion on its size.\<close>

definition info_add_conn :: "c_int \<Rightarrow> tcpthrinfo_t \<Rightarrow> tcpthrinfo_t outcome" where
  "info_add_conn sock info =
     (if length (socks info) \<le> unat (num_socks info) then Inl Undefined
      else
        let info = info\<lparr>socks := (socks info)[unat (num_socks info) := sock], num_socks := num_socks info + 1\<rparr>;
            info = (if sint (max_sockfd info) < sint sock then info\<lparr>max_sockfd := sock\<rparr> else info)
        in if num_socks info \<le> max_socks info then Inr info else Inl Abort)"

section \<open>The pool\<close>

record tcpthreadpool =
  num_thrs :: u16
  max_conns :: u16
  num_conns :: u16
  buff_size :: dsize_t
  running :: bool
  sockaddrs :: "byte list list"
  wthrinfo :: "tcpthrinfo_t list"
  rthrinfo :: "tcpthrinfo_t list"
  rthrpipe :: "c_int list"

definition share :: "u16 \<Rightarrow> u16 \<Rightarrow> nat \<Rightarrow> u16" where
  "share maxc nthr i =
     (let conn_per_thr = maxc div nthr; conn_rem = maxc mod nthr in
      if i < unat conn_rem then conn_per_thr + 1 else conn_per_thr)"

fun make_pipes :: "(nat \<Rightarrow> (c_int \<times> c_int) option) \<Rightarrow> nat list \<Rightarrow> tcpthrinfo_t list \<Rightarrow>
    (tcpthrinfo_t list \<times> c_int list) outcome" where
  "make_pipes pipe [] infos = Inr (infos, [])"
| "make_pipes pipe (i # is) infos =
     (case pipe i of
        None \<Rightarrow> Inl Throw
      | Some (r, w) \<Rightarrow>
          andthen (make_pipes pipe is (infos[i := set_rdfd r (infos ! i)]))
            (\<lambda>(infos, ws). Inr (infos, w # ws)))"

text \<open>
  The constructor. \<open>num_conns\<close> is not initialised: its first value is the argument \<open>conns0\<close>. The
  results of \<open>pipe\<close> and the contents of new arrays are arguments as well.
\<close>

definition tcpthreadpool_create :: "(nat \<Rightarrow> c_int list) \<Rightarrow> (nat \<Rightarrow> byte list) \<Rightarrow> (nat \<Rightarrow> (c_int \<times> c_int) option) \<Rightarrow>
    u16 \<Rightarrow> byte list list \<Rightarrow> u16 \<Rightarrow> u16 \<Rightarrow> dsize_t \<Rightarrow> tcpthreadpool outcome" where
  "tcpthreadpool_create mem fresh pipe conns0 addrs nthr maxc bsize =
     (if nthr = 0 then Inl Undefined
      else
        let w = map (\<lambda>i. set_buff bsize [] (set_thrid (of_nat i) (init_socks mem (share maxc nthr i) tcpthrinfo)))
                  [0..<unat nthr];
            r = map (\<lambda>i. set_buff bsize (fresh (unat bsize))
                      (set_thrid (of_nat i + nthr) (init_socks mem (share maxc nthr i) tcpthrinfo))) [0..<unat nthr]
        in andthen (make_pipes pipe [0..<unat nthr] r) (\<lambda>(r, pipes).
             Inr \<lparr>num_thrs = nthr, max_conns = maxc, num_conns = conns0, buff_size = bsize, running = False,
                  sockaddrs = addrs, wthrinfo = w, rthrinfo = r, rthrpipe = pipes\<rparr>))"

text \<open>
  \<open>add_conn\<close>; the result is -1 or the id of the connection. The thread number comes from a \<open>%\<close>, so
  it is in range when there are threads.
\<close>

definition add_conn :: "c_int \<Rightarrow> byte list \<Rightarrow> tcpthreadpool \<Rightarrow> (int \<times> tcpthreadpool) outcome" where
  "add_conn sock addr p =
     (if running p then Inr (-1, p)
      else if num_conns p = max_conns p then Inr (-1, p)
      else if num_thrs p = 0 then Inl Undefined
      else
        let t = unat (num_conns p mod num_thrs p) in
        andthen (info_add_conn sock (wthrinfo p ! t)) (\<lambda>wi.
        andthen (info_add_conn sock (rthrinfo p ! t)) (\<lambda>ri.
          if length (sockaddrs p) \<le> unat (num_conns p) then Inl Undefined
          else Inr (uint (num_conns p),
            p\<lparr>wthrinfo := (wthrinfo p)[t := wi], rthrinfo := (rthrinfo p)[t := ri],
              sockaddrs := (sockaddrs p)[unat (num_conns p) := addr], num_conns := num_conns p + 1\<rparr>))))"

text \<open>\<open>start_all\<close>, with the results of the calls of \<open>pthread_create\<close> in order.\<close>

definition start_all :: "int list \<Rightarrow> tcpthreadpool \<Rightarrow> int \<times> tcpthreadpool" where
  "start_all rets p =
     (if running p then (-1, p)
      else if \<exists>r \<in> set (take (2 * unat (num_thrs p)) rets). r < 0 then (-1, p)
      else (0, p\<lparr>running := True\<rparr>))"

definition push_msg :: "nat \<Rightarrow> msg_t \<Rightarrow> tcpthreadpool \<Rightarrow> tcpthreadpool" where
  "push_msg t m p = p\<lparr>wthrinfo := (wthrinfo p)[t := (wthrinfo p ! t)\<lparr>msgq := msgq (wthrinfo p ! t) @ [m]\<rparr>]\<rparr>"

definition thr_broadcast :: "u16 \<Rightarrow> byte list \<Rightarrow> dsize_t \<Rightarrow> tcpthreadpool \<Rightarrow> (int \<times> tcpthreadpool) outcome" where
  "thr_broadcast t msg len p =
     (if \<not> running p then Inr (-1, p)
      else if num_thrs p \<le> t then Inr (-2, p)
      else andthen (make_msg WRITE msg len (- 1)) (\<lambda>m. Inr (0, push_msg (unat t) m p)))"

definition send :: "u16 \<Rightarrow> byte list \<Rightarrow> dsize_t \<Rightarrow> tcpthreadpool \<Rightarrow> (int \<times> tcpthreadpool) outcome" where
  "send cliid msg len p =
     (if \<not> running p then Inr (-1, p)
      else if num_conns p \<le> cliid then Inr (-2, p)
      else if num_thrs p = 0 then Inl Undefined
      else
        let t = cliid mod num_thrs p; sockidx = cliid div num_thrs p in
        andthen (make_msg WRITE msg len (ucast sockidx)) (\<lambda>m. Inr (0, push_msg (unat t) m p)))"

definition broadcast :: "byte list \<Rightarrow> dsize_t \<Rightarrow> tcpthreadpool \<Rightarrow> (int \<times> tcpthreadpool) outcome" where
  "broadcast msg len p =
     (if \<not> running p then Inr (-1, p)
      else andthen (make_msg WRITE msg len (- 1)) (\<lambda>m.
        Inr (0, fold (\<lambda>i. push_msg i m) [0..<unat (num_thrs p)] p)))"

text \<open>The first loop of \<open>stop_all\<close>: an exit message to every write thread; the pipes are closed with it.\<close>

definition stop_all_signal :: "tcpthreadpool \<Rightarrow> (int \<times> tcpthreadpool) outcome" where
  "stop_all_signal p =
     (if \<not> running p then Inr (-1, p)
      else andthen (make_msg EXIT [] 0 (- 1)) (\<lambda>m.
        Inr (0, fold (\<lambda>i. push_msg i m) [0..<unat (num_thrs p)] p)))"

section \<open>Dealing out the connections\<close>

text \<open>How many of the connections \<open>0 .. n - 1\<close> belong to thread \<open>t\<close> of \<open>T\<close>.\<close>

definition cnt :: "nat \<Rightarrow> nat \<Rightarrow> nat \<Rightarrow> nat" where
  "cnt T t n = (n + (T - 1 - t)) div T"

lemma less_cnt: "t < T \<Longrightarrow> k < cnt T t n \<longleftrightarrow> k * T + t < n"
proof -
  assume "t < T"
  then have "Suc k \<le> cnt T t n \<longleftrightarrow> Suc k * T \<le> n + (T - 1 - t)"
    unfolding cnt_def by (subst less_eq_div_iff_mult_less_eq) auto
  with \<open>t < T\<close> show ?thesis by auto
qed

lemma cnt_Suc:
  assumes "t < T"
  shows "cnt T t (Suc n) = (if n mod T = t then Suc (cnt T t n) else cnt T t n)"
    and "n mod T = t \<Longrightarrow> cnt T t n = n div T"
proof -
  have eq: "a = b" if "\<And>k. k < a \<longleftrightarrow> k < b" for a b :: nat
    using that [of a] that [of b] by force
  have n: "n = n div T * T + n mod T" by simp
  show eqn: "cnt T t n = n div T" if "n mod T = t"
  proof (rule eq)
    fix k
    have "k * T + t < n \<longleftrightarrow> k * T < n div T * T" using n that by linarith
    then show "k < cnt T t n \<longleftrightarrow> k < n div T" using less_cnt [OF assms, of k n] assms by simp
  qed
  have ne: "k * T + t \<noteq> n" if "n mod T \<noteq> t" for k using that assms by auto
  show "cnt T t (Suc n) = (if n mod T = t then Suc (cnt T t n) else cnt T t n)"
  proof (cases "n mod T = t")
    case True
    have "k * T + t < Suc n \<longleftrightarrow> k < Suc (n div T)" for k
    proof -
      have "k * T + t < Suc n \<longleftrightarrow> k * T \<le> n div T * T" using n True by linarith
      also have "\<dots> \<longleftrightarrow> k \<le> n div T" using assms by simp
      finally show ?thesis by (simp only: less_Suc_eq_le)
    qed
    then have "cnt T t (Suc n) = Suc (n div T)"
      using less_cnt [OF assms, of _ "Suc n"] assms by (intro eq) simp
    with eqn [OF True] True show ?thesis by simp
  next
    case False
    with less_cnt [OF assms] ne [OF False] show ?thesis by (auto simp: less_Suc_eq intro: eq)
  qed
qed

lemma cnt_share:
  assumes "nthr \<noteq> 0" "i < unat nthr"
  shows "unat (share maxc nthr i) = cnt (unat nthr) i (unat maxc)"
proof -
  let ?T = "unat nthr" and ?n = "unat maxc"
  have n: "?n = ?n div ?T * ?T + ?n mod ?T" by simp
  have T: "0 < ?T" using assms by (simp add: unat_gt_0)
  have "cnt ?T i ?n = (?n div ?T * ?T + (?n mod ?T + (?T - 1 - i))) div ?T"
    unfolding cnt_def by (metis n add.assoc)
  also have "\<dots> = ?n div ?T + (?n mod ?T + (?T - 1 - i)) div ?T"
    using T by (intro div_mult_self3) simp
  also have "(?n mod ?T + (?T - 1 - i)) div ?T = (if i < ?n mod ?T then 1 else 0)"
  proof (cases "i < ?n mod ?T")
    case True
    have "?n mod ?T < ?T" using T by simp
    with True assms(2) have "?T \<le> ?n mod ?T + (?T - 1 - i)" "?n mod ?T + (?T - 1 - i) < 2 * ?T" by linarith+
    then show ?thesis using True by (simp add: div_nat_eqI)
  next
    case False
    then have "?n mod ?T + (?T - 1 - i) < ?T" using assms(2) by linarith
    then show ?thesis using False by simp
  qed
  finally have c: "cnt ?T i ?n = ?n div ?T + (if i < ?n mod ?T then 1 else 0)" .
  show ?thesis
  proof (cases "i < ?n mod ?T")
    case True
    have "2 \<le> ?T" using True assms(2) T by (cases "?T = 1") auto
    then have "?n div ?T \<le> ?n div 2" by (rule div_le_mono2 [rotated]) simp
    moreover have "?n < 2 ^ 16" using unsigned_less [of maxc, where 'a = nat] by simp
    ultimately have "?n div ?T + 1 < 2 ^ 16" by simp
    then show ?thesis
      using True c by (simp add: share_def Let_def unat_div_distrib unat_mod_distrib unat_word_ariths(1))
  next
    case False
    then show ?thesis using c by (simp add: share_def Let_def unat_div_distrib unat_mod_distrib)
  qed
qed

text \<open>The state of the pool once the connections with sockets \<open>S\<close> were added.\<close>

definition info_ok :: "nat \<Rightarrow> nat \<Rightarrow> nat \<Rightarrow> c_int list \<Rightarrow> tcpthrinfo_t \<Rightarrow> bool" where
  "info_ok T t maxn S info \<longleftrightarrow>
     unat (max_socks info) = cnt T t maxn \<and> length (socks info) = cnt T t maxn \<and>
     unat (num_socks info) = cnt T t (length S) \<and> (\<forall>k<cnt T t (length S). socks info ! k = S ! (k * T + t))"

definition pool_inv :: "c_int list \<Rightarrow> tcpthreadpool \<Rightarrow> bool" where
  "pool_inv S p \<longleftrightarrow> (let T = unat (num_thrs p) in
     num_thrs p \<noteq> 0 \<and> length (wthrinfo p) = T \<and> length (rthrinfo p) = T \<and>
     unat (num_conns p) = length S \<and> length S \<le> unat (max_conns p) \<and> length (sockaddrs p) = unat (max_conns p) \<and>
     (\<forall>t<T. info_ok T t (unat (max_conns p)) S (wthrinfo p ! t) \<and> info_ok T t (unat (max_conns p)) S (rthrinfo p ! t)))"

definition static :: "tcpthrinfo_t \<Rightarrow> c_int list \<times> u16 \<times> u16 \<times> msg_t list" where
  "static info = (socks info, num_socks info, max_socks info, msgq info)"

lemma info_ok_static: "static i = static j \<Longrightarrow> info_ok T t m S i = info_ok T t m S j"
  by (simp add: static_def info_ok_def)

lemma static_set_rdfd [simp]: "static (set_rdfd fd i) = static i"
  by (simp add: static_def set_rdfd_def Let_def)

lemma make_pipes_static:
  "make_pipes pipe is infos = Inr (infos', ws) \<Longrightarrow> map static infos' = map static infos"
proof (induction "is" arbitrary: infos infos' ws)
  case (Cons i "is")
  then obtain r w ws' where "make_pipes pipe is (infos[i := set_rdfd r (infos ! i)]) = Inr (infos', ws')"
    by (auto simp: andthen_eq_Inr_iff split: option.splits)
  from Cons.IH [OF this] show ?case
    by (metis list_update_id map_update static_set_rdfd)
qed simp

lemma pool_create_inv:
  assumes "tcpthreadpool_create mem fresh pipe 0 addrs nthr maxc bsize = Inr p"
    and "\<forall>n. length (mem n) = n" "length addrs = unat maxc"
  shows "pool_inv [] p \<and> \<not> running p \<and> num_thrs p = nthr \<and> max_conns p = maxc \<and> (\<forall>i \<in> set (wthrinfo p). msgq i = [])"
proof -
  let ?T = "unat nthr"
  have T: "nthr \<noteq> 0" using assms(1) by (auto simp: tcpthreadpool_create_def)
  let ?w = "map (\<lambda>i. set_buff bsize [] (set_thrid (of_nat i) (init_socks mem (share maxc nthr i) tcpthrinfo))) [0..<?T]"
  let ?r = "map (\<lambda>i. set_buff bsize (fresh (unat bsize))
              (set_thrid (of_nat i + nthr) (init_socks mem (share maxc nthr i) tcpthrinfo))) [0..<?T]"
  obtain r ws where r: "make_pipes pipe [0..<?T] ?r = Inr (r, ws)"
    and p: "p = \<lparr>num_thrs = nthr, max_conns = maxc, num_conns = 0, buff_size = bsize, running = False,
              sockaddrs = addrs, wthrinfo = ?w, rthrinfo = r, rthrpipe = ws\<rparr>"
    using assms(1) T by (auto simp: tcpthreadpool_create_def Let_def andthen_eq_Inr_iff)
  have fresh_ok: "info_ok ?T i (unat maxc) [] (set_buff b x (set_thrid j (init_socks mem (share maxc nthr i) tcpthrinfo)))"
    if "i < ?T" for i b x j
    using cnt_share [OF T that] assms(2) that less_cnt [OF that, of _ 0]
    by (simp add: info_ok_def set_buff_def set_thrid_def init_socks_def tcpthrinfo_def cnt_def)
  have m: "map static r = map static ?r" by (rule make_pipes_static [OF r])
  from arg_cong [OF m, where f = length] have len: "length r = ?T" by simp
  have "info_ok ?T i (unat maxc) [] (r ! i)" if "i < ?T" for i
  proof -
    have "static (r ! i) = map static r ! i" using that len by simp
    also have "\<dots> = static (?r ! i)" using m that by simp
    finally have "info_ok ?T i (unat maxc) [] (r ! i) = info_ok ?T i (unat maxc) [] (?r ! i)"
      by (rule info_ok_static)
    with fresh_ok [OF that] that show ?thesis by simp
  qed
  with fresh_ok T assms(3) len show ?thesis
    by (auto simp: pool_inv_def p Let_def set_buff_def set_thrid_def init_socks_def tcpthrinfo_def)
qed

lemma info_add_conn_ok:
  assumes ok: "info_ok T t maxn S info" and t: "t < T" "length S mod T = t" "length S < maxn"
  shows "\<exists>info'. info_add_conn sock info = Inr info' \<and> info_ok T t maxn (S @ [sock]) info' \<and> msgq info' = msgq info"
proof -
  let ?n = "cnt T t (length S)"
  have n: "?n = length S div T" "cnt T t (Suc (length S)) = Suc ?n" using cnt_Suc [OF t(1)] t(2) by simp_all
  have nS: "?n * T + t = length S" using n(1) t(2) div_mult_mod_eq [of "length S" T] by simp
  then have lt: "?n < cnt T t maxn" using less_cnt [OF t(1), of ?n maxn] t(3) by simp
  have mx: "unat (max_socks info) = cnt T t maxn" "unat (num_socks info) = ?n" "length (socks info) = cnt T t maxn"
    using ok by (simp_all add: info_ok_def)
  have "Suc ?n < 2 ^ 16" using lt mx(1) unsigned_less [of "max_socks info", where 'a = nat] by simp
  then have n1: "unat (num_socks info + 1) = Suc ?n" using mx(2) by (simp add: unat_word_ariths(1))
  then have "num_socks info + 1 \<le> max_socks info" using lt mx(1) by (simp add: word_le_nat_alt)
  moreover have "socks info ! k = S ! (k * T + t)" "k * T + t < length S" if "k < ?n" for k
    using ok that less_cnt [OF t(1)] by (simp_all add: info_ok_def)
  ultimately show ?thesis
    using lt mx n n1 nS by (auto simp: info_add_conn_def Let_def info_ok_def nth_append nth_list_update less_Suc_eq)
qed

lemma info_ok_other:
  assumes "info_ok T t maxn S info" "t < T" "length S mod T \<noteq> t"
  shows "info_ok T t maxn (S @ [sock]) info"
proof -
  have "k * T + t < length S" if "k < cnt T t (length S)" for k using less_cnt assms(2) that by simp
  then show ?thesis using assms cnt_Suc(1) [OF assms(2), of "length S"] by (simp add: info_ok_def nth_append)
qed

lemma add_conn_ok:
  assumes inv: "pool_inv S p" and run: "\<not> running p" and lt: "length S < unat (max_conns p)"
  shows "\<exists>p'. add_conn sock addr p = Inr (int (length S), p') \<and> pool_inv (S @ [sock]) p' \<and> \<not> running p' \<and>
    num_thrs p' = num_thrs p \<and> max_conns p' = max_conns p \<and> map msgq (wthrinfo p') = map msgq (wthrinfo p)"
proof -
  let ?T = "unat (num_thrs p)"
  define t where "t = length S mod ?T"
  have h: "num_thrs p \<noteq> 0" "length (wthrinfo p) = ?T" "length (rthrinfo p) = ?T" "unat (num_conns p) = length S"
    "length (sockaddrs p) = unat (max_conns p)"
    "\<forall>t<?T. info_ok ?T t (unat (max_conns p)) S (wthrinfo p ! t) \<and> info_ok ?T t (unat (max_conns p)) S (rthrinfo p ! t)"
    using inv by (auto simp: pool_inv_def Let_def)
  have t: "t < ?T" using h(1) by (simp add: t_def unat_gt_0)
  have ti: "unat (num_conns p mod num_thrs p) = t" using h(4) by (simp add: t_def unat_mod_distrib)
  from info_add_conn_ok [OF _ t t_def [symmetric] lt] h(6) t obtain wi ri where
    i: "info_add_conn sock (wthrinfo p ! t) = Inr wi" "info_ok ?T t (unat (max_conns p)) (S @ [sock]) wi"
    "msgq wi = msgq (wthrinfo p ! t)"
    "info_add_conn sock (rthrinfo p ! t) = Inr ri" "info_ok ?T t (unat (max_conns p)) (S @ [sock]) ri" by meson
  let ?p = "p\<lparr>wthrinfo := (wthrinfo p)[t := wi], rthrinfo := (rthrinfo p)[t := ri],
              sockaddrs := (sockaddrs p)[length S := addr], num_conns := num_conns p + 1\<rparr>"
  have n1: "unat (num_conns p + 1) = Suc (length S)"
    using h(4) lt unsigned_less [of "max_conns p", where 'a = nat] by (simp add: unat_word_ariths(1))
  have "num_conns p \<noteq> max_conns p" using h(4) lt by auto
  then have "add_conn sock addr p = Inr (int (length S), ?p)"
    using run h ti i lt by (simp add: add_conn_def Let_def uint_nat)
  moreover have "info_ok ?T j (unat (max_conns p)) (S @ [sock]) ((wthrinfo p)[t := wi] ! j)"
    "info_ok ?T j (unat (max_conns p)) (S @ [sock]) ((rthrinfo p)[t := ri] ! j)" if "j < ?T" for j
    using that h i info_ok_other [of ?T j] by (cases "j = t"; simp add: t_def)+
  then have "pool_inv (S @ [sock]) ?p" using h n1 lt by (simp add: pool_inv_def)
  moreover have "map msgq ((wthrinfo p)[t := wi]) = map msgq (wthrinfo p)"
    using t h(2) i(3) by (simp add: map_update list_update_same_conv)
  ultimately show ?thesis using run by simp
qed

lemma add_conn_full:
  "pool_inv S p \<Longrightarrow> \<not> running p \<Longrightarrow> \<not> length S < unat (max_conns p) \<Longrightarrow> add_conn sock addr p = Inr (-1, p)"
  by (auto simp: pool_inv_def Let_def add_conn_def word_unat_eq_iff)

text \<open>The connections are added one after the other before the threads start.\<close>

fun add_conns :: "(c_int \<times> byte list) list \<Rightarrow> tcpthreadpool \<Rightarrow> (int list \<times> tcpthreadpool) outcome" where
  "add_conns [] p = Inr ([], p)"
| "add_conns ((sock, addr) # cs) p =
     andthen (add_conn sock addr p) (\<lambda>(r, p). andthen (add_conns cs p) (\<lambda>(rs, p). Inr (r # rs, p)))"

lemma add_conns_ok:
  assumes "pool_inv S p" "\<not> running p" "length S + length cs \<le> unat (max_conns p)"
  shows "\<exists>p'. add_conns cs p = Inr (map int [length S..<length S + length cs], p') \<and>
    pool_inv (S @ map fst cs) p' \<and> \<not> running p' \<and> num_thrs p' = num_thrs p \<and> max_conns p' = max_conns p \<and>
    map msgq (wthrinfo p') = map msgq (wthrinfo p)"
  using assms
proof (induction cs arbitrary: S p)
  case (Cons c cs)
  obtain sock addr where c: "c = (sock, addr)" by (cases c)
  from Cons.prems obtain p1 where p1: "add_conn sock addr p = Inr (int (length S), p1)" "pool_inv (S @ [sock]) p1"
    "\<not> running p1" "num_thrs p1 = num_thrs p" "max_conns p1 = max_conns p" "map msgq (wthrinfo p1) = map msgq (wthrinfo p)"
    using add_conn_ok [of S p sock addr] by auto
  have "[length S..<length S + length (c # cs)] = length S # [Suc (length S)..<Suc (length S) + length cs]"
    by (simp add: upt_conv_Cons del: upt_Suc)
  with Cons.IH [OF p1(2,3)] Cons.prems(3) p1 c show ?case by (auto simp del: upt_Suc)
qed simp

text \<open>\<open>select\<close> is called with \<open>max_sockfd + 1\<close>: the descriptors a read thread waits for must not exceed it.\<close>

definition covered :: "tcpthrinfo_t \<Rightarrow> bool" where
  "covered info \<longleftrightarrow> sint (rdfd info) \<le> sint (max_sockfd info) \<and>
     (\<forall>k<unat (num_socks info). sint (socks info ! k) \<le> sint (max_sockfd info))"

lemma covered_set_rdfd: "covered i \<Longrightarrow> covered (set_rdfd fd i)"
  by (auto simp: covered_def set_rdfd_def Let_def intro: order_trans)

lemma covered_add_conn:
  assumes "covered i" "info_add_conn sock i = Inr j"
  shows "covered j"
proof -
  have "unat (num_socks i) < length (socks i)" using assms(2) by (auto simp: info_add_conn_def split: if_splits)
  moreover have "k < unat (num_socks i + 1) \<Longrightarrow> k = unat (num_socks i) \<or> k < unat (num_socks i)" for k
    by (auto simp: unat_word_ariths(1) mod_Suc split: if_splits)
  ultimately show ?thesis using assms
    by (fastforce simp: covered_def info_add_conn_def Let_def nth_list_update split: if_splits)
qed

lemma make_pipes_covered:
  "make_pipes pipe is infos = Inr (infos', ws) \<Longrightarrow> \<forall>i \<in> set infos. covered i \<Longrightarrow> \<forall>k \<in> set is. k < length infos \<Longrightarrow>
     \<forall>i \<in> set infos'. covered i"
proof (induction "is" arbitrary: infos infos' ws)
  case (Cons k "is")
  then obtain r w ws' where m: "make_pipes pipe is (infos[k := set_rdfd r (infos ! k)]) = Inr (infos', ws')"
    by (auto simp: andthen_eq_Inr_iff split: option.splits)
  have "\<forall>i \<in> set (infos[k := set_rdfd r (infos ! k)]). covered i"
    using Cons.prems(2,3) covered_set_rdfd by (auto dest!: set_update_subset_insert [THEN subsetD])
  with Cons.IH [OF m] Cons.prems(3) show ?case by simp
qed simp

lemma pool_create_covered:
  assumes "tcpthreadpool_create mem fresh pipe c0 addrs nthr maxc bsize = Inr p"
  shows "\<forall>i \<in> set (rthrinfo p). covered i"
proof -
  let ?r = "map (\<lambda>i. set_buff bsize (fresh (unat bsize))
              (set_thrid (of_nat i + nthr) (init_socks mem (share maxc nthr i) tcpthrinfo))) [0..<unat nthr]"
  obtain r ws where "make_pipes pipe [0..<unat nthr] ?r = Inr (r, ws)" "rthrinfo p = r"
    using assms by (auto simp: tcpthreadpool_create_def Let_def andthen_eq_Inr_iff split: if_splits)
  moreover have "\<forall>i \<in> set ?r. covered i"
    by (simp add: covered_def set_buff_def set_thrid_def init_socks_def tcpthrinfo_def)
  moreover have "\<forall>k \<in> set [0..<unat nthr]. k < length ?r" by simp
  ultimately show ?thesis using make_pipes_covered by blast
qed

lemma add_conns_covered:
  "add_conns cs p = Inr (rs, p') \<Longrightarrow> pool_inv S p \<Longrightarrow> \<not> running p \<Longrightarrow> length S + length cs \<le> unat (max_conns p) \<Longrightarrow>
     \<forall>i \<in> set (rthrinfo p). covered i \<Longrightarrow> \<forall>i \<in> set (rthrinfo p'). covered i"
proof (induction cs arbitrary: p S rs)
  case (Cons c cs)
  obtain sock addr where c: "c = (sock, addr)" by (cases c)
  from Cons.prems add_conn_ok [of S p sock addr] obtain p1 where
    p1: "add_conn sock addr p = Inr (int (length S), p1)" "pool_inv (S @ [sock]) p1" "\<not> running p1"
    "max_conns p1 = max_conns p" by auto
  let ?t = "unat (num_conns p mod num_thrs p)"
  have "?t < length (rthrinfo p)" using Cons.prems(2)
    by (auto simp: pool_inv_def Let_def unat_mod_distrib unat_gt_0)
  then have "covered (rthrinfo p ! ?t)" using Cons.prems(5) by simp
  then have "\<forall>i \<in> set (rthrinfo p1). covered i"
    using p1(1) Cons.prems(5)
    by (auto simp: add_conn_def Let_def andthen_eq_Inr_iff dest!: set_update_subset_insert [THEN subsetD]
        intro: covered_add_conn split: if_splits)
  moreover obtain rs' where "add_conns cs p1 = Inr (rs', p')"
    using Cons.prems(1) p1(1) by (auto simp: c andthen_eq_Inr_iff)
  ultimately show ?case using Cons.IH [OF _ p1(2,3)] Cons.prems(4) p1(4) by auto
qed simp

text \<open>The read buffer and the pipe of a read thread stay as the constructor made them.\<close>

definition reader :: "tcpthrinfo_t \<Rightarrow> dsize_t \<times> byte list \<times> c_int" where
  "reader i = (bufsize i, rdbuf i, rdfd i)"

definition reader_ok :: "(nat \<Rightarrow> (c_int \<times> c_int) option) \<Rightarrow> tcpthrinfo_t \<Rightarrow> bool" where
  "reader_ok pipe i \<longleftrightarrow> unat (bufsize i) \<le> length (rdbuf i) \<and> (\<exists>k w. pipe k = Some (rdfd i, w))"

lemma make_pipes_readers:
  "make_pipes pipe is infos = Inr (infos', ws) \<Longrightarrow> j < length infos \<Longrightarrow>
     bufsize (infos' ! j) = bufsize (infos ! j) \<and> rdbuf (infos' ! j) = rdbuf (infos ! j) \<and>
     (if j \<in> set is then \<exists>k w. pipe k = Some (rdfd (infos' ! j), w) else rdfd (infos' ! j) = rdfd (infos ! j))"
proof (induction "is" arbitrary: infos ws)
  case (Cons i "is")
  then obtain r w ws' where m: "pipe i = Some (r, w)" "make_pipes pipe is (infos[i := set_rdfd r (infos ! i)]) = Inr (infos', ws')"
    by (auto simp: andthen_eq_Inr_iff split: option.splits)
  have "rdfd (set_rdfd r x) = r" "bufsize (set_rdfd r x) = bufsize x" "rdbuf (set_rdfd r x) = rdbuf x" for x
    by (simp_all add: set_rdfd_def Let_def)
  then show ?case using Cons.IH [OF m(2)] Cons.prems(2) m(1)
    by (cases "j = i"; cases "j \<in> set is") (auto simp: nth_list_update)
qed simp

lemma make_pipes_length: "make_pipes pipe is infos = Inr (infos', ws) \<Longrightarrow> length infos' = length infos"
  by (metis length_map make_pipes_static)

lemma pool_create_readers:
  assumes "tcpthreadpool_create mem fresh pipe c0 addrs nthr maxc bsize = Inr p" "\<forall>n. length (fresh n) = n"
  shows "\<forall>i \<in> set (rthrinfo p). reader_ok pipe i"
proof -
  let ?r = "map (\<lambda>i. set_buff bsize (fresh (unat bsize))
              (set_thrid (of_nat i + nthr) (init_socks mem (share maxc nthr i) tcpthrinfo))) [0..<unat nthr]"
  obtain r ws where r: "make_pipes pipe [0..<unat nthr] ?r = Inr (r, ws)" "rthrinfo p = r"
    using assms(1) by (auto simp: tcpthreadpool_create_def Let_def andthen_eq_Inr_iff split: if_splits)
  have "reader_ok pipe (r ! j)" if "j < unat nthr" for j
    using make_pipes_readers [OF r(1), of j] that assms(2) by (simp add: reader_ok_def set_buff_def)
  then show ?thesis using r(2) make_pipes_length [OF r(1)] by (auto simp: in_set_conv_nth)
qed

lemma info_add_conn_reader: "info_add_conn sock i = Inr j \<Longrightarrow> reader j = reader i"
  by (auto simp: info_add_conn_def Let_def reader_def split: if_splits)

lemma add_conns_readers: "add_conns cs p = Inr (ids, p') \<Longrightarrow> map reader (rthrinfo p') = map reader (rthrinfo p)"
proof (induction cs arbitrary: p ids)
  case (Cons c cs)
  obtain sock addr where c: "c = (sock, addr)" by (cases c)
  from Cons.prems c obtain i p1 ids' where p1: "add_conn sock addr p = Inr (i, p1)" "add_conns cs p1 = Inr (ids', p')"
    by (auto simp: andthen_eq_Inr_iff)
  then have "map reader (rthrinfo p1) = map reader (rthrinfo p)"
    by (auto simp: add_conn_def Let_def andthen_eq_Inr_iff map_update dest!: info_add_conn_reader split: if_splits)
      (metis list_update_id map_update)
  with Cons.IH [OF p1(2)] show ?case by simp
qed simp

lemma reader_ok_reader: "reader i = reader j \<Longrightarrow> reader_ok pipe i = reader_ok pipe j"
  by (simp add: reader_def reader_ok_def)

lemma make_pipes_succeeds: "\<forall>i. pipe i \<noteq> None \<Longrightarrow> \<exists>infos' ws. make_pipes pipe is infos = Inr (infos', ws)"
proof (induction "is" arbitrary: infos)
  case (Cons k "is")
  obtain r w where rw: "pipe k = Some (r, w)" using Cons.prems by (metis not_Some_eq surj_pair)
  obtain infos' ws where "make_pipes pipe is (infos[k := set_rdfd r (infos ! k)]) = Inr (infos', ws)"
    using Cons by blast
  with rw show ?case by simp
qed simp

lemma pool_create_succeeds:
  assumes "nthr \<noteq> 0" "\<forall>i. pipe i \<noteq> None"
  shows "\<exists>p. tcpthreadpool_create mem fresh pipe c0 addrs nthr maxc bsize = Inr p"
proof -
  let ?r = "map (\<lambda>i. set_buff bsize (fresh (unat bsize))
              (set_thrid (of_nat i + nthr) (init_socks mem (share maxc nthr i) tcpthrinfo))) [0..<unat nthr]"
  obtain r ws where "make_pipes pipe [0..<unat nthr] ?r = Inr (r, ws)"
    using make_pipes_succeeds [OF assms(2), of "[0..<unat nthr]" ?r] by blast
  then show ?thesis using assms(1) by (simp add: tcpthreadpool_create_def Let_def)
qed

text \<open>
  C22. A new pool whose connection counter happens to start at 0 (the constructor does not set it) takes as many connections as it was made for:
  no array bound and no assertion is violated, the ids returned are 0, 1, 2 and so on, and one more connection is
  refused. Connection \<open>c\<close> belongs to the write and the read thread \<open>c mod T\<close>, as its \<open>c div T\<close>-th socket,
  which is where \<open>send\<close> looks for it, and each read thread's \<open>select\<close> covers all its descriptors.
\<close>

theorem connections_dealt_out:
  assumes "tcpthreadpool_create mem fresh pipe 0 addrs nthr maxc bsize = Inr p"
    and "\<forall>n. length (mem n) = n" and "length addrs = unat maxc" and "length cs \<le> unat maxc"
  shows "\<exists>p'. add_conns cs p = Inr (map int [0..<length cs], p') \<and>
    (length cs = unat maxc \<longrightarrow> (\<forall>sock addr. add_conn sock addr p' = Inr (-1, p'))) \<and>
    (\<forall>c<length cs. \<forall>infos \<in> {wthrinfo p', rthrinfo p'}.
       c div unat nthr < unat (num_socks (infos ! (c mod unat nthr))) \<and>
       socks (infos ! (c mod unat nthr)) ! (c div unat nthr) = fst (cs ! c)) \<and>
    (\<forall>i \<in> set (rthrinfo p'). covered i)"
proof -
  note create = pool_create_inv [OF assms(1-3)]
  with add_conns_ok [of "[]" p cs] assms(4) obtain p' where
    p': "add_conns cs p = Inr (map int [0..<length cs], p')" "pool_inv (map fst cs) p'" "\<not> running p'"
    "num_thrs p' = nthr" "max_conns p' = maxc" by auto
  have "\<forall>i \<in> set (rthrinfo p'). covered i"
    using add_conns_covered [OF p'(1)] create assms(4) pool_create_covered [OF assms(1)] by auto
  moreover have "length cs = unat maxc \<longrightarrow> (\<forall>sock addr. add_conn sock addr p' = Inr (-1, p'))"
    using add_conn_full [OF p'(2,3)] p'(5) by simp
  moreover have "c div unat nthr < unat (num_socks (infos ! (c mod unat nthr))) \<and>
      socks (infos ! (c mod unat nthr)) ! (c div unat nthr) = fst (cs ! c)"
    if "c < length cs" "infos \<in> {wthrinfo p', rthrinfo p'}" for c infos
  proof -
    have t: "c mod unat nthr < unat nthr" using p'(2,4) by (auto simp: pool_inv_def Let_def unat_gt_0)
    then have "c div unat nthr < cnt (unat nthr) (c mod unat nthr) (length cs)" using less_cnt that(1) by simp
    with t p'(2,4,5) that show ?thesis by (auto simp: pool_inv_def Let_def info_ok_def)
  qed
  ultimately show ?thesis using p'(1) by blast
qed

theorem connections_dealt_out_witness:
  "\<exists>p p'. tcpthreadpool_create (\<lambda>n. replicate n 0) (\<lambda>n. replicate n 0) (\<lambda>i. Some (10, 11)) 0 [[], [], []] 2 3 16 = Inr p \<and>
     add_conns [(5, []), (6, []), (7, [])] p = Inr ([0, 1, 2], p') \<and> socks (wthrinfo p' ! 0) ! 1 = 7"
proof -
  have "\<exists>p. tcpthreadpool_create (\<lambda>n. replicate n 0) (\<lambda>n. replicate n 0) (\<lambda>i. Some (10, 11)) 0 [[], [], []] 2 3 16 = Inr p"
    by (rule pool_create_succeeds) simp_all
  then obtain p where
    p: "tcpthreadpool_create (\<lambda>n. replicate n 0) (\<lambda>n. replicate n 0) (\<lambda>i. Some (10, 11)) 0 [[], [], []] 2 3 16 = Inr p" ..
  define cs :: "(c_int \<times> byte list) list" where "cs = [(5, []), (6, []), (7, [])]"
  have cs: "length cs = 3" "fst (cs ! 2) = 7" by (simp_all add: cs_def)
  have "length cs \<le> unat (3 :: u16)" using cs(1) by simp
  from connections_dealt_out [OF p _ _ this] cs(1) obtain p' where
    p': "add_conns cs p = Inr (map int [0..<3], p')"
    "\<forall>c<3. socks (wthrinfo p' ! (c mod 2)) ! (c div 2) = fst (cs ! c)" by auto
  from p'(2) cs(2) have "socks (wthrinfo p' ! 0) ! 1 = 7" by (auto dest!: spec [of _ 2])
  with p p'(1) show ?thesis unfolding cs_def by (intro exI conjI) (auto simp: upt_rec)
qed

end
