(* ===== verification/Sock_Threads.thy ===== *)
theory Sock_Threads
  imports Sock_Pool
begin

text \<open>
  The running thread pool (\<open>start_send\<close> of \<open>src/socket/src/threadpool.cpp\<close>): the write
  threads take messages from their queues while the application calls \<open>send\<close>, \<open>thr_broadcast\<close>,
  \<open>broadcast\<close> and \<open>stop_all\<close>; one step is one call, one \<open>pop\<close> or one \<open>writen\<close>. Theorem: what has been
  written to a connection, followed by what its thread still has to write, is at all times exactly
  the sequence of messages addressed to it.
\<close>

section \<open>Write threads\<close>

text \<open>
  A write thread is at \<open>pop\<close>, in the broadcast loop at an index, before its single write, or it has ended. The list
  \<open>calls\<close> records the successful calls of the application; the program does not have it.
\<close>

datatype wthread = WPop | WBcast msg_t nat | WOne msg_t | WExit | WFault fault

datatype call = ToConn nat "byte list" | ToThr nat "byte list" | ToAll "byte list"

record 'w pool_sys =
  pool :: tcpthreadpool
  wst :: "nat \<Rightarrow> wthread"
  net :: 'w
  calls :: "call list"

definition set_info :: "nat \<Rightarrow> tcpthrinfo_t \<Rightarrow> tcpthreadpool \<Rightarrow> tcpthreadpool" where
  "set_info t i p = p\<lparr>wthrinfo := (wthrinfo p)[t := i]\<rparr>"

definition start_send_pop :: "nat \<Rightarrow> 'w pool_sys \<Rightarrow> 'w pool_sys" where
  "start_send_pop t s =
     (let info = wthrinfo (pool s) ! t in
      case msgq info of
        [] \<Rightarrow> s
      | msg # ms \<Rightarrow>
          s\<lparr>pool := set_info t (info\<lparr>msgq := ms\<rparr>) (pool s),
            wst := (wst s)(t :=
              (case mtype msg of
                 EXIT \<Rightarrow> WExit
               | WRITE \<Rightarrow> if sint (msock msg) < 0 then WBcast msg 0 else WOne msg))\<rparr>)"

text \<open>One \<open>writen\<close> of the thread; the result of \<open>writen\<close> is ignored, as in the code.\<close>

definition start_send_write :: "'w sys_write \<Rightarrow> nat \<Rightarrow> 'w pool_sys \<Rightarrow> 'w pool_sys option" where
  "start_send_write wr t s =
     (let info = wthrinfo (pool s) ! t;
          wrt = (\<lambda>msg idx next.
            if length (socks info) \<le> idx then Some (s\<lparr>wst := (wst s)(t := WFault Undefined)\<rparr>)
            else (case writen wr (socks info ! idx) (mdata msg) (ucast (mlen msg)) (net s) of
                    None \<Rightarrow> None
                  | Some (n, w) \<Rightarrow> Some (s\<lparr>net := w, wst := (wst s)(t := next)\<rparr>)))
      in case wst s t of
           WBcast msg idx \<Rightarrow>
             if idx < unat (num_socks info) then wrt msg idx (WBcast msg (idx + 1))
             else Some (s\<lparr>wst := (wst s)(t := WPop)\<rparr>)
         | WOne msg \<Rightarrow> wrt msg (unat (msock msg)) WPop
         | _ \<Rightarrow> None)"

definition log_call :: "int \<Rightarrow> call \<Rightarrow> tcpthreadpool \<Rightarrow> 'w pool_sys \<Rightarrow> 'w pool_sys" where
  "log_call r c p s = s\<lparr>pool := p, calls := calls s @ (if r = 0 then [c] else [])\<rparr>"

inductive pool_step :: "'w sys_write \<Rightarrow> 'w pool_sys \<Rightarrow> 'w pool_sys \<Rightarrow> bool" for wr :: "'w sys_write" where
  call_send: "send cliid msg len (pool s) = Inr (r, p) \<Longrightarrow>
     pool_step wr s (log_call r (ToConn (unat cliid) (take (unat len) msg)) p s)"
| call_thr_broadcast: "thr_broadcast t msg len (pool s) = Inr (r, p) \<Longrightarrow>
     pool_step wr s (log_call r (ToThr (unat t) (take (unat len) msg)) p s)"
| call_broadcast: "broadcast msg len (pool s) = Inr (r, p) \<Longrightarrow>
     pool_step wr s (log_call r (ToAll (take (unat len) msg)) p s)"
| call_stop: "stop_all_signal (pool s) = Inr (r, p) \<Longrightarrow> pool_step wr s (s\<lparr>pool := p\<rparr>)"
| pop: "t < unat (num_thrs (pool s)) \<Longrightarrow> wst s t = WPop \<Longrightarrow> msgq (wthrinfo (pool s) ! t) \<noteq> [] \<Longrightarrow>
     pool_step wr s (start_send_pop t s)"
| wrt: "t < unat (num_thrs (pool s)) \<Longrightarrow> start_send_write wr t s = Some s' \<Longrightarrow> pool_step wr s s'"

definition pool_init :: "tcpthreadpool \<Rightarrow> 'w \<Rightarrow> 'w pool_sys" where
  "pool_init p w = \<lparr>pool = p, wst = (\<lambda>_. WPop), net = w, calls = []\<rparr>"

inductive pool_reach :: "'w sys_write \<Rightarrow> tcpthreadpool \<Rightarrow> 'w \<Rightarrow> 'w pool_sys \<Rightarrow> bool"
  for wr :: "'w sys_write" and p0 :: tcpthreadpool and w0 :: 'w where
  start: "pool_reach wr p0 w0 (pool_init p0 w0)"
| step: "pool_reach wr p0 w0 s \<Longrightarrow> pool_step wr s t \<Longrightarrow> pool_reach wr p0 w0 t"

section \<open>What is on its way to a connection\<close>

text \<open>The bytes a call is to put on connection \<open>c\<close> when there are \<open>T\<close> threads.\<close>

fun bytes_for :: "nat \<Rightarrow> nat \<Rightarrow> call \<Rightarrow> byte list" where
  "bytes_for T c (ToConn c' m) = (if c' = c then frame m else [])"
| "bytes_for T c (ToThr t m) = (if c mod T = t then frame m else [])"
| "bytes_for T c (ToAll m) = frame m"

fun small :: "call \<Rightarrow> bool" where
  "small (ToConn c m) = (length m + 4 < 2 ^ 31)"
| "small (ToThr t m) = (length m + 4 < 2 ^ 31)"
| "small (ToAll m) = (length m + 4 < 2 ^ 31)"

text \<open>What a queued message and a thread in the middle of a message will write to the \<open>k\<close>-th socket of the thread.\<close>

definition out :: "nat \<Rightarrow> msg_t \<Rightarrow> byte list" where
  "out k m = (if mtype m = WRITE \<and> (sint (msock m) < 0 \<or> unat (msock m) = k) then mdata m else [])"

fun cur :: "nat \<Rightarrow> wthread \<Rightarrow> byte list" where
  "cur k (WBcast m i) = (if i \<le> k then mdata m else [])"
| "cur k (WOne m) = (if unat (msock m) = k then mdata m else [])"
| "cur k _ = []"

definition msg_ok :: "nat \<Rightarrow> msg_t \<Rightarrow> bool" where
  "msg_ok n m \<longleftrightarrow> (mtype m = WRITE \<longrightarrow> unat (mlen m) = length (mdata m) \<and> length (mdata m) < 2 ^ 31 \<and>
     (sint (msock m) < 0 \<or> unat (msock m) < n))"

fun wst_ok :: "nat \<Rightarrow> wthread \<Rightarrow> bool" where
  "wst_ok n (WBcast m i) = (msg_ok n m \<and> mtype m = WRITE)"
| "wst_ok n (WOne m) = (msg_ok n m \<and> mtype m = WRITE \<and> \<not> sint (msock m) < 0)"
| "wst_ok n (WFault e) = False"
| "wst_ok n _ = True"

abbreviation thrs :: "'w pool_sys \<Rightarrow> nat" where "thrs s \<equiv> unat (num_thrs (pool s))"

definition threads_ok :: "c_int list \<Rightarrow> 'w pool_sys \<Rightarrow> bool" where
  "threads_ok S s \<longleftrightarrow> pool_inv S (pool s) \<and>
     (\<forall>t<thrs s. (\<forall>m \<in> set (msgq (wthrinfo (pool s) ! t)). msg_ok (cnt (thrs s) t (length S)) m) \<and>
       wst_ok (cnt (thrs s) t (length S)) (wst s t))"

definition delivered :: "(c_int \<Rightarrow> 'w \<Rightarrow> byte list) \<Rightarrow> c_int list \<Rightarrow> 'w \<Rightarrow> 'w pool_sys \<Rightarrow> bool" where
  "delivered sent S w0 s \<longleftrightarrow> (\<forall>c<length S.
     let t = c mod thrs s; k = c div thrs s in
     sent (S ! c) (net s) @ cur k (wst s t) @ concat (map (out k) (msgq (wthrinfo (pool s) ! t))) =
       sent (S ! c) w0 @ concat (map (bytes_for (thrs s) c) (calls s)))"

definition sys_ok :: "(c_int \<Rightarrow> 'w \<Rightarrow> byte list) \<Rightarrow> c_int list \<Rightarrow> 'w \<Rightarrow> 'w pool_sys \<Rightarrow> bool" where
  "sys_ok sent S w0 s \<longleftrightarrow> ((\<forall>c \<in> set (calls s). small c) \<longrightarrow> threads_ok S s \<and> delivered sent S w0 s)"

section \<open>Queueing a message\<close>

lemma info_ok_msgq [simp]: "info_ok T t m S (i\<lparr>msgq := q\<rparr>) = info_ok T t m S i"
  by (simp add: info_ok_def)

text \<open>\<open>p'\<close> is \<open>p\<close> with the message \<open>m\<close> queued at the threads in \<open>A\<close>.\<close>

definition queued :: "nat set \<Rightarrow> msg_t \<Rightarrow> tcpthreadpool \<Rightarrow> tcpthreadpool \<Rightarrow> bool" where
  "queued A m p p' \<longleftrightarrow> p'\<lparr>wthrinfo := []\<rparr> = p\<lparr>wthrinfo := []\<rparr> \<and> length (wthrinfo p') = length (wthrinfo p) \<and>
     (\<forall>t<length (wthrinfo p). wthrinfo p' ! t =
       (if t \<in> A then (wthrinfo p ! t)\<lparr>msgq := msgq (wthrinfo p ! t) @ [m]\<rparr> else wthrinfo p ! t))"

lemma queued_push: "queued {t} m p (push_msg t m p)"
  by (auto simp: queued_def push_msg_def nth_list_update)

lemma queued_fold: "n \<le> length (wthrinfo p) \<Longrightarrow> queued {..<n} m p (fold (\<lambda>i. push_msg i m) [0..<n] p)"
proof (induction n)
  case (Suc n)
  let ?p = "fold (\<lambda>i. push_msg i m) [0..<n] p"
  from Suc have "queued {..<n} m p ?p" by simp
  moreover have "queued {n} m ?p (push_msg n m ?p)" by (rule queued_push)
  ultimately show ?case by (auto simp: queued_def less_Suc_eq)
qed (simp add: queued_def)

lemma same_rest:
  assumes "p'\<lparr>wthrinfo := []\<rparr> = p\<lparr>wthrinfo := []\<rparr>"
  shows "num_thrs p' = num_thrs p" "num_conns p' = num_conns p" "max_conns p' = max_conns p"
    "sockaddrs p' = sockaddrs p" "rthrinfo p' = rthrinfo p"
  using assms by (auto dest!: arg_cong [where f = "\<lambda>p. (num_thrs p, num_conns p, max_conns p, sockaddrs p, rthrinfo p)"])

lemma pool_inv_transfer:
  assumes "pool_inv S p" "p'\<lparr>wthrinfo := []\<rparr> = p\<lparr>wthrinfo := []\<rparr>" "length (wthrinfo p') = length (wthrinfo p)"
    and "\<And>t. t < length (wthrinfo p) \<Longrightarrow> \<exists>q. wthrinfo p' ! t = (wthrinfo p ! t)\<lparr>msgq := q\<rparr>"
  shows "pool_inv S p'"
proof -
  have "info_ok T t mx S (wthrinfo p' ! t) = info_ok T t mx S (wthrinfo p ! t)"
    if "t < length (wthrinfo p)" for T t mx using assms(4) [OF that] by auto
  with assms(1,3) same_rest [OF assms(2)] show ?thesis by (auto simp: pool_inv_def Let_def)
qed

lemma num_thrs_fold [simp]: "num_thrs (fold (\<lambda>i. push_msg i m) is p) = num_thrs p"
  by (induction "is" arbitrary: p) (simp_all add: push_msg_def)

lemma queued_inv:
  assumes q: "queued A m p p'" and inv: "pool_inv S p"
  shows "pool_inv S p' \<and> num_thrs p' = num_thrs p"
proof -
  have "\<exists>q. wthrinfo p' ! t = (wthrinfo p ! t)\<lparr>msgq := q\<rparr>" if "t < length (wthrinfo p)" for t
  proof (cases "t \<in> A")
    case False
    with q that have "wthrinfo p' ! t = (wthrinfo p ! t)\<lparr>msgq := msgq (wthrinfo p ! t)\<rparr>"
      by (simp add: queued_def)
    then show ?thesis ..
  qed (use q that in \<open>auto simp: queued_def\<close>)
  with pool_inv_transfer [OF inv] q same_rest show ?thesis by (auto simp: queued_def)
qed

lemma queue_ok:
  assumes ok: "threads_ok S s" "delivered sent S w0 s" and q: "queued A m (pool s) p'"
    and m: "\<And>t. t \<in> A \<Longrightarrow> t < thrs s \<Longrightarrow> msg_ok (cnt (thrs s) t (length S)) m"
    and cs: "\<And>c. c < length S \<Longrightarrow>
      concat (map (bytes_for (thrs s) c) cs) = (if c mod thrs s \<in> A then out (c div thrs s) m else [])"
    and s': "s' = s\<lparr>pool := p', calls := calls s @ cs\<rparr>"
  shows "threads_ok S s' \<and> delivered sent S w0 s'"
proof -
  have inv: "pool_inv S (pool s)" using ok(1) by (simp add: threads_ok_def)
  note p' = queued_inv [OF q inv]
  have len: "length (wthrinfo (pool s)) = thrs s" and T: "0 < thrs s"
    using inv by (auto simp: pool_inv_def Let_def unat_gt_0)
  have qt: "msgq (wthrinfo p' ! t) = msgq (wthrinfo (pool s) ! t) @ (if t \<in> A then [m] else [])"
    if "t < thrs s" for t using q that len by (simp add: queued_def)
  have "threads_ok S s'" using ok(1) p' qt m by (auto simp: threads_ok_def s')
  moreover have "delivered sent S w0 s'"
    unfolding delivered_def Let_def
  proof (intro allI impI)
    fix c assume c: "c < length S"
    have t: "c mod thrs s < thrs s" using T by simp
    from ok(2) c have "sent (S ! c) (net s) @ cur (c div thrs s) (wst s (c mod thrs s)) @
        concat (map (out (c div thrs s)) (msgq (wthrinfo (pool s) ! (c mod thrs s)))) =
        sent (S ! c) w0 @ concat (map (bytes_for (thrs s) c) (calls s))"
      by (simp add: delivered_def Let_def)
    then show "sent (S ! c) (net s') @ cur (c div thrs s') (wst s' (c mod thrs s')) @
        concat (map (out (c div thrs s')) (msgq (wthrinfo (pool s') ! (c mod thrs s')))) =
        sent (S ! c) w0 @ concat (map (bytes_for (thrs s') c) (calls s'))"
      using p' qt [OF t] cs [OF c] by (simp add: s' flip: append_assoc)
  qed
  ultimately show ?thesis ..
qed

section \<open>The steps keep the account\<close>

lemma make_msg_ok:
  assumes "make_msg WRITE d l sock = Inr m" "length (take (unat l) d) + 4 < 2 ^ 31" "sint sock < 0 \<or> unat sock < n"
  shows "msg_ok n m \<and> mdata m = frame (take (unat l) d) \<and> msock m = sock \<and> mtype m = WRITE"
proof -
  have l: "unat l \<le> length d"
    and m: "m = \<lparr>mtype = WRITE, mdata = le32 l @ take (unat l) d, mlen = l + 4, msock = sock\<rparr>"
    using assms(1) by (auto simp: make_msg_def split: if_splits)
  from l assms(2) have "unat (l + 4) = unat l + 4" by (simp add: unat_word_ariths(1))
  with l m assms(2,3) show ?thesis by (simp add: msg_ok_def frame_def)
qed

lemma sock_index: "0 \<le> sint (ucast (i :: u16) :: c_int)" "unat (ucast i :: c_int) = unat i"
proof -
  have i: "unat i < 2 ^ 16" using unsigned_less [of i, where 'a = nat] by simp
  then show u: "unat (ucast i :: c_int) = unat i" by (simp add: unsigned_ucast_eq take_bit_nat_eq_self)
  have "ucast i = (of_nat (unat i) :: c_int)" by (simp add: word_unat_eq_iff u unat_of_nat take_bit_nat_eq_self i)
  then show "0 \<le> sint (ucast i :: c_int)" using int_of_small(1) [of "unat i"] i by simp
qed

lemma send_ok:
  assumes ok: "threads_ok S s" "delivered sent S w0 s" and snd: "send cliid msg len (pool s) = Inr (0, p')"
    and sm: "length (take (unat len) msg) + 4 < 2 ^ 31"
    and s': "s' = s\<lparr>pool := p', calls := calls s @ [ToConn (unat cliid) (take (unat len) msg)]\<rparr>"
  shows "threads_ok S s' \<and> delivered sent S w0 s'"
proof -
  have inv: "pool_inv S (pool s)" using ok(1) by (simp add: threads_ok_def)
  then have T: "0 < thrs s" and n: "unat (num_conns (pool s)) = length S" by (auto simp: pool_inv_def Let_def unat_gt_0)
  let ?t = "unat (cliid mod num_thrs (pool s))" and ?i = "cliid div num_thrs (pool s)"
  obtain m where m: "make_msg WRITE msg len (ucast ?i) = Inr m" and p': "p' = push_msg ?t m (pool s)"
    and lt: "cliid < num_conns (pool s)"
    using snd by (auto simp: send_def Let_def andthen_eq_Inr_iff split: if_splits)
  have ti: "?t = unat cliid mod thrs s" "unat ?i = unat cliid div thrs s"
    by (simp_all add: unat_mod_distrib unat_div_distrib)
  have "unat cliid < length S" using lt n by (simp add: word_less_nat_alt)
  then have "unat ?i < cnt (thrs s) ?t (length S)" using less_cnt [of ?t "thrs s"] T ti by simp
  with make_msg_ok [OF m sm] sock_index [of ?i]
  have mo: "msg_ok (cnt (thrs s) ?t (length S)) m" "mdata m = frame (take (unat len) msg)"
    "\<And>k. out k m = (if k = unat ?i then mdata m else [])" by (auto simp: out_def)
  have same: "(unat cliid = c) = (c mod thrs s = ?t \<and> c div thrs s = unat ?i)" for c
    by (metis ti div_mult_mod_eq)
  show ?thesis
    by (rule queue_ok [OF ok queued_push _ _ s' [unfolded p']]) (use mo same in auto)
qed

lemma broadcast_ok:
  assumes ok: "threads_ok S s" "delivered sent S w0 s" and q: "queued A m (pool s) p'"
    and mk: "make_msg WRITE msg len (- 1) = Inr m" and sm: "length (take (unat len) msg) + 4 < 2 ^ 31"
    and b: "\<And>c. bytes_for (thrs s) c call = (if c mod thrs s \<in> A then frame (take (unat len) msg) else [])"
    and s': "s' = s\<lparr>pool := p', calls := calls s @ [call]\<rparr>"
  shows "threads_ok S s' \<and> delivered sent S w0 s'"
proof -
  have "msg_ok n m" "out k m = frame (take (unat len) msg)" for n k
    using make_msg_ok [OF mk sm, of n] by (auto simp: out_def)
  with b show ?thesis by (intro queue_ok [OF ok q _ _ s']) auto
qed

lemma stop_ok:
  assumes ok: "threads_ok S s" "delivered sent S w0 s" and st: "stop_all_signal (pool s) = Inr (r, p')"
  shows "threads_ok S (s\<lparr>pool := p'\<rparr>) \<and> delivered sent S w0 (s\<lparr>pool := p'\<rparr>)"
proof (cases "running (pool s)")
  case True
  have "thrs s \<le> length (wthrinfo (pool s))" using ok(1) by (simp add: threads_ok_def pool_inv_def Let_def)
  note q = queued_fold [OF this]
  define m where "m = \<lparr>mtype = EXIT, mdata = le32 0, mlen = 4, msock = - 1\<rparr>"
  have m: "mtype m = EXIT" "p' = fold (\<lambda>i. push_msg i m) [0..<thrs s] (pool s)"
    using st True by (simp_all add: stop_all_signal_def make_msg_def m_def)
  then have "s\<lparr>pool := p'\<rparr> = s\<lparr>pool := fold (\<lambda>i. push_msg i m) [0..<thrs s] (pool s), calls := calls s @ []\<rparr>" by simp
  from queue_ok [OF ok q _ _ this] m(1) show ?thesis by (simp add: msg_ok_def out_def)
next
  case False
  with st ok show ?thesis by (simp add: stop_all_signal_def threads_ok_def delivered_def)
qed

lemma pop_threads_ok:
  assumes ok: "threads_ok S s" and t: "t < thrs s" and q: "msgq (wthrinfo (pool s) ! t) = m # ms"
    and st: "st = (case mtype m of EXIT \<Rightarrow> WExit | WRITE \<Rightarrow> if sint (msock m) < 0 then WBcast m 0 else WOne m)"
  shows "start_send_pop t s = s\<lparr>pool := set_info t ((wthrinfo (pool s) ! t)\<lparr>msgq := ms\<rparr>) (pool s), wst := (wst s)(t := st)\<rparr>"
    and "threads_ok S (start_send_pop t s)"
    and "thrs (start_send_pop t s) = thrs s"
    and "\<And>u. u < thrs s \<Longrightarrow> wthrinfo (pool (start_send_pop t s)) ! u =
      (if u = t then (wthrinfo (pool s) ! t)\<lparr>msgq := ms\<rparr> else wthrinfo (pool s) ! u)"
proof -
  let ?s = "start_send_pop t s" and ?i = "wthrinfo (pool s) ! t"
  show s: "?s = s\<lparr>pool := set_info t (?i\<lparr>msgq := ms\<rparr>) (pool s), wst := (wst s)(t := st)\<rparr>"
    using q by (simp add: start_send_pop_def st)
  have inv: "pool_inv S (pool s)" using ok by (simp add: threads_ok_def)
  then have len: "length (wthrinfo (pool s)) = thrs s" by (simp add: pool_inv_def Let_def)
  show nth: "wthrinfo (pool ?s) ! u = (if u = t then ?i\<lparr>msgq := ms\<rparr> else wthrinfo (pool s) ! u)" if "u < thrs s" for u
    using that len by (simp add: s set_info_def nth_list_update)
  have "\<exists>q. wthrinfo (pool ?s) ! u = (wthrinfo (pool s) ! u)\<lparr>msgq := q\<rparr>" if "u < thrs s" for u
    using nth [OF that] by (cases "u = t") (auto intro: exI [of _ "msgq (wthrinfo (pool s) ! u)"])
  then have inv': "pool_inv S (pool ?s)"
    using pool_inv_transfer [OF inv, of "pool ?s"] len by (simp add: s set_info_def)
  show T: "thrs ?s = thrs s" by (simp add: s set_info_def)
  have mo: "msg_ok (cnt (thrs s) t (length S)) m" using ok t q by (auto simp: threads_ok_def)
  then have "wst_ok (cnt (thrs s) t (length S)) st" by (cases "mtype m") (auto simp: st)
  then show "threads_ok S ?s"
    using ok inv' nth q t T by (auto simp: threads_ok_def) (simp_all add: s)
qed

lemma pop_ok:
  assumes ok: "threads_ok S s" "delivered sent S w0 s" and t: "t < thrs s" "wst s t = WPop"
    and q: "msgq (wthrinfo (pool s) ! t) = m # ms"
  shows "threads_ok S (start_send_pop t s) \<and> delivered sent S w0 (start_send_pop t s)"
proof -
  let ?s = "start_send_pop t s"
  let ?st = "case mtype m of EXIT \<Rightarrow> WExit | WRITE \<Rightarrow> if sint (msock m) < 0 then WBcast m 0 else WOne m"
  note p = pop_threads_ok [OF ok(1) t(1) q refl]
  have cur: "cur k ?st = out k m" for k by (cases "mtype m") (auto simp: out_def)
  have "delivered sent S w0 ?s"
    unfolding delivered_def Let_def p(3)
  proof (intro allI impI)
    fix c assume c: "c < length S"
    have "c mod thrs s < thrs s" using t(1) by simp
    note p(4) [OF this]
    with ok(2) c cur q t show "sent (S ! c) (net ?s) @ cur (c div thrs s) (wst ?s (c mod thrs s)) @
        concat (map (out (c div thrs s)) (msgq (wthrinfo (pool ?s) ! (c mod thrs s)))) =
        sent (S ! c) w0 @ concat (map (bytes_for (thrs s) c) (calls ?s))"
      by (cases "c mod thrs s = t") (auto simp: delivered_def Let_def p(1))
  qed
  with p(2) show ?thesis ..
qed

text \<open>A write of the whole message to the \<open>i\<close>-th socket of thread \<open>t\<close>.\<close>

lemma write_ok:
  assumes px: "posix_stream rd wr pend sent" and S: "distinct S"
    and ok: "threads_ok S s" "delivered sent S w0 s" and t: "t < thrs s"
    and i: "i < cnt (thrs s) t (length S)" and m: "msg_ok n m" "mtype m = WRITE"
    and w: "writen wr (socks (wthrinfo (pool s) ! t) ! i) (mdata m) (ucast (mlen m)) (net s) = Some (r, w')"
    and cur: "cur i (wst s t) = mdata m" "cur i st = []" "\<And>k. k \<noteq> i \<Longrightarrow> cur k (wst s t) = cur k st"
    and st: "wst_ok (cnt (thrs s) t (length S)) st"
    and s': "s' = s\<lparr>net := w', wst := (wst s)(t := st)\<rparr>"
  shows "threads_ok S s' \<and> delivered sent S w0 s'"
proof -
  let ?c = "i * thrs s + t"
  have inv: "pool_inv S (pool s)" using ok(1) by (simp add: threads_ok_def)
  have c: "?c < length S" using less_cnt [OF t] i by simp
  have fd: "socks (wthrinfo (pool s) ! t) ! i = S ! ?c"
    using inv t i by (auto simp: pool_inv_def Let_def info_ok_def)
  have ml: "unat (ucast (mlen m) :: u64) = length (mdata m)" "length (mdata m) < 2 ^ 31" using m by (auto simp: msg_ok_def)
  from posix_stream.writen_exact [OF px, of "ucast (mlen m)" "mdata m" "S ! ?c" "net s"] ml w fd
  have w': "sent (S ! ?c) w' = sent (S ! ?c) (net s) @ mdata m" "\<forall>fd'. fd' \<noteq> S ! ?c \<longrightarrow> sent fd' w' = sent fd' (net s)"
    by auto
  have "threads_ok S s'" using ok(1) st t by (auto simp: threads_ok_def s')
  moreover have "delivered sent S w0 s'"
    unfolding delivered_def Let_def
  proof (intro allI impI)
    fix d assume d: "d < length S"
    have "sent (S ! d) (net s') @ cur (d div thrs s) (wst s' (d mod thrs s)) =
      sent (S ! d) (net s) @ cur (d div thrs s) (wst s (d mod thrs s))"
    proof (cases "d = ?c")
      case True
      with t have "d div thrs s = i" "d mod thrs s = t" by auto
      with True w'(1) cur show ?thesis by (simp add: s')
    next
      case False
      then have "sent (S ! d) w' = sent (S ! d) (net s)"
        using w'(2) S c d by (simp add: nth_eq_iff_index_eq)
      moreover have "\<not> (d mod thrs s = t \<and> d div thrs s = i)" using False by auto
      ultimately show ?thesis using cur(3) by (auto simp: s')
    qed
    with ok(2) d show "sent (S ! d) (net s') @ cur (d div thrs s') (wst s' (d mod thrs s')) @
        concat (map (out (d div thrs s')) (msgq (wthrinfo (pool s') ! (d mod thrs s')))) =
        sent (S ! d) w0 @ concat (map (bytes_for (thrs s') d) (calls s'))"
      by (simp add: delivered_def Let_def s' flip: append_assoc)
  qed
  ultimately show ?thesis ..
qed

text \<open>What a write step is, when the thread's state is well formed: it stays within the array of sockets.\<close>

lemma start_send_write_steps:
  assumes ok: "threads_ok S s" and t: "t < thrs s" and w: "start_send_write wr t s = Some s'"
  obtains (wrt) m i st r w' where "i < cnt (thrs s) t (length S)" "msg_ok (cnt (thrs s) t (length S)) m" "mtype m = WRITE"
      "writen wr (socks (wthrinfo (pool s) ! t) ! i) (mdata m) (ucast (mlen m)) (net s) = Some (r, w')"
      "cur i (wst s t) = mdata m" "cur i st = []" "\<And>k. k \<noteq> i \<Longrightarrow> cur k (wst s t) = cur k st"
      "wst_ok (cnt (thrs s) t (length S)) st" "s' = s\<lparr>net := w', wst := (wst s)(t := st)\<rparr>"
  | (fin) m idx where "wst s t = WBcast m idx" "\<not> idx < cnt (thrs s) t (length S)" "s' = s\<lparr>wst := (wst s)(t := WPop)\<rparr>"
proof -
  let ?i = "wthrinfo (pool s) ! t" and ?n = "cnt (thrs s) t (length S)"
  have "pool_inv S (pool s)" and wok: "wst_ok ?n (wst s t)" using ok t by (auto simp: threads_ok_def)
  then have n: "unat (num_socks ?i) = ?n" "length (socks ?i) = cnt (thrs s) t (unat (max_conns (pool s)))"
    "length S \<le> unat (max_conns (pool s))" using t by (auto simp: pool_inv_def Let_def info_ok_def)
  have in_array: "\<not> length (socks ?i) \<le> k" if "k < ?n" for k
    using that n(2,3) less_cnt [OF t] by (simp add: not_le)
  show thesis
  proof (cases "wst s t")
    case (WBcast m idx)
    show thesis
    proof (cases "idx < ?n")
      case True
      with w WBcast n(1) in_array obtain r w' where
        "writen wr (socks ?i ! idx) (mdata m) (ucast (mlen m)) (net s) = Some (r, w')"
        "s' = s\<lparr>net := w', wst := (wst s)(t := WBcast m (idx + 1))\<rparr>"
        by (auto simp: start_send_write_def Let_def split: option.splits if_splits)
      with WBcast wok True show thesis by (intro wrt [of idx m]) auto
    next
      case False
      with w WBcast n(1) show thesis by (intro fin) (simp_all add: start_send_write_def)
    qed
  next
    case (WOne m)
    with wok have k: "unat (msock m) < ?n" "mtype m = WRITE" by (auto simp: msg_ok_def)
    with w WOne in_array obtain r w' where
      "writen wr (socks ?i ! unat (msock m)) (mdata m) (ucast (mlen m)) (net s) = Some (r, w')"
      "s' = s\<lparr>net := w', wst := (wst s)(t := WPop)\<rparr>"
      by (auto simp: start_send_write_def Let_def split: option.splits if_splits)
    with WOne wok k show thesis by (intro wrt [of "unat (msock m)" m]) auto
  qed (use w in \<open>simp_all add: start_send_write_def\<close>)
qed

lemma start_send_write_ok:
  assumes px: "posix_stream rd wr pend sent" "distinct S"
    and ok: "threads_ok S s" "delivered sent S w0 s" and t: "t < thrs s"
    and w: "start_send_write wr t s = Some s'"
  shows "threads_ok S s' \<and> delivered sent S w0 s'"
  using ok(1) t w
proof (cases rule: start_send_write_steps)
  case wrt
  then show ?thesis by (intro write_ok [OF px ok t])
next
  case (fin m idx)
  have "cur (c div thrs s) (wst s t) = []" if "c < length S" "c mod thrs s = t" for c
  proof -
    have "c div thrs s < cnt (thrs s) t (length S)"
      using less_cnt [OF t, of "c div thrs s"] that div_mult_mod_eq [of c "thrs s"] by simp
    with fin show ?thesis by simp
  qed
  with ok fin(3) show ?thesis by (auto simp: threads_ok_def delivered_def Let_def)
qed

text \<open>Whether the writes succeed does not matter for the state of the threads.\<close>

lemma start_send_write_threads_ok:
  assumes "threads_ok S s" "t < thrs s" "start_send_write wr t s = Some s'"
  shows "threads_ok S s'"
  using assms
proof (cases rule: start_send_write_steps)
  case wrt
  then show ?thesis using assms(1,2) by (auto simp: threads_ok_def)
qed (use assms(1,2) in \<open>auto simp: threads_ok_def\<close>)

lemma log_call_fail: "r \<noteq> 0 \<Longrightarrow> p = pool s \<Longrightarrow> log_call r c p s = s"
  by (simp add: log_call_def)

lemma api_fail:
  "send c d l p = Inr (r, p') \<Longrightarrow> r \<noteq> 0 \<Longrightarrow> p' = p"
  "thr_broadcast t d l p = Inr (r, p') \<Longrightarrow> r \<noteq> 0 \<Longrightarrow> p' = p"
  "broadcast d l p = Inr (r, p') \<Longrightarrow> r \<noteq> 0 \<Longrightarrow> p' = p"
  by (auto simp: send_def thr_broadcast_def broadcast_def Let_def andthen_eq_Inr_iff split: if_splits)

lemma pool_step_ok:
  assumes px: "posix_stream rd wr pend sent" "distinct S" and st: "pool_step wr s s'" and ok: "sys_ok sent S w0 s"
  shows "sys_ok sent S w0 s'"
  using st
proof cases
  case (call_send cliid msg len r p)
  show ?thesis
  proof (cases "r = 0")
    case True
    with call_send ok show ?thesis
      by (auto simp: sys_ok_def log_call_def dest: send_ok)
  qed (use call_send api_fail(1) log_call_fail ok in metis)
next
  case (call_thr_broadcast t msg len r p)
  show ?thesis
  proof (cases "r = 0")
    case True
    with call_thr_broadcast obtain m where m: "make_msg WRITE msg len (- 1) = Inr m" "p = push_msg (unat t) m (pool s)"
      by (auto simp: thr_broadcast_def andthen_eq_Inr_iff split: if_splits)
    have q: "queued {unat t} m (pool s) p" unfolding m(2) by (rule queued_push)
    have "threads_ok S s' \<and> delivered sent S w0 s'" if "\<forall>c \<in> set (calls s'). small c"
      using that call_thr_broadcast True ok by (intro broadcast_ok [OF _ _ q m(1)]) (auto simp: sys_ok_def log_call_def)
    then show ?thesis by (simp add: sys_ok_def)
  qed (use call_thr_broadcast api_fail(2) log_call_fail ok in metis)
next
  case (call_broadcast msg len r p)
  show ?thesis
  proof (cases "r = 0")
    case True
    with call_broadcast obtain m where m: "make_msg WRITE msg len (- 1) = Inr m"
      "p = fold (\<lambda>i. push_msg i m) [0..<thrs s] (pool s)"
      by (auto simp: broadcast_def andthen_eq_Inr_iff split: if_splits)
    have "threads_ok S s' \<and> delivered sent S w0 s'" if sm: "\<forall>c \<in> set (calls s'). small c"
    proof -
      have ok': "threads_ok S s" "delivered sent S w0 s"
        using sm call_broadcast ok by (auto simp: sys_ok_def log_call_def)
      then have T: "length (wthrinfo (pool s)) = thrs s" "0 < thrs s"
        by (auto simp: threads_ok_def pool_inv_def Let_def unat_gt_0)
      have q: "queued {..<thrs s} m (pool s) p" unfolding m(2) using T(1) by (intro queued_fold) simp
      show ?thesis using sm call_broadcast True T(2)
        by (intro broadcast_ok [OF ok' q m(1)]) (auto simp: log_call_def)
    qed
    then show ?thesis by (simp add: sys_ok_def)
  qed (use call_broadcast api_fail(3) log_call_fail ok in metis)
next
  case (call_stop r p)
  with ok show ?thesis by (auto simp: sys_ok_def dest: stop_ok)
next
  case (pop t)
  then obtain m ms where q: "msgq (wthrinfo (pool s) ! t) = m # ms" by (cases "msgq (wthrinfo (pool s) ! t)") auto
  then have "calls (start_send_pop t s) = calls s" by (simp add: start_send_pop_def)
  with pop ok pop_ok [OF _ _ pop(2,3) q] show ?thesis by (auto simp: sys_ok_def)
next
  case (wrt t)
  then have "calls s' = calls s"
    by (auto simp: start_send_write_def Let_def split: wthread.splits option.splits if_splits)
  with wrt ok start_send_write_ok [OF px _ _ wrt] show ?thesis by (auto simp: sys_ok_def)
qed

lemma pool_reach_ok:
  assumes "posix_stream rd wr pend sent" "distinct S" "pool_reach wr p0 w0 s"
    and "pool_inv S p0" "\<forall>i \<in> set (wthrinfo p0). msgq i = []"
  shows "sys_ok sent S w0 s"
  using assms(3)
proof induction
  case start
  have "msgq (wthrinfo p0 ! t) = []" if "t < unat (num_thrs p0)" for t
    using assms(4,5) that by (auto simp: pool_inv_def Let_def)
  moreover have "0 < unat (num_thrs p0)" using assms(4) by (auto simp: pool_inv_def Let_def unat_gt_0)
  ultimately show ?case using assms(4) by (simp add: sys_ok_def threads_ok_def delivered_def pool_init_def)
next
  case (step s t)
  then show ?case using pool_step_ok [OF assms(1,2)] by blast
qed

lemma fold_push_rthrinfo [simp]: "rthrinfo (fold (\<lambda>i. push_msg i m) is p) = rthrinfo p"
  by (induction "is" arbitrary: p) (simp_all add: push_msg_def)

lemma pool_reach_thrs:
  assumes "pool_reach wr p0 w0 s"
  shows "num_thrs (pool s) = num_thrs p0 \<and> rthrinfo (pool s) = rthrinfo p0"
  using assms
proof induction
  case (step s t)
  from step(2) show ?case
  proof cases
    case (wrt u)
    then show ?thesis using step.IH
      by (auto simp: start_send_write_def Let_def split: wthread.splits option.splits if_splits)
  qed (use step.IH in \<open>auto simp: log_call_def send_def thr_broadcast_def broadcast_def stop_all_signal_def
      start_send_pop_def set_info_def push_msg_def num_thrs_fold Let_def andthen_eq_Inr_iff split: if_splits list.splits\<close>)
qed (simp add: pool_init_def)

section \<open>What the pool delivers\<close>

text \<open>
  The pool of an application: made, given its connections, started. The arrays have the size asked for, and
  the operating system hands out different descriptors for pipes and connections.
\<close>

definition started_pool :: "u16 \<Rightarrow> (c_int \<times> byte list) list \<Rightarrow> tcpthreadpool \<Rightarrow> bool" where
  "started_pool nthr cs p \<longleftrightarrow>
     (\<exists>mem fresh pipe addrs maxc bsize p0 ids p1 rets.
        (\<forall>n. length (mem n) = n) \<and> (\<forall>n. length (fresh n) = n) \<and>
        (\<forall>i r w. pipe i = Some (r, w) \<longrightarrow> r \<notin> fst ` set cs) \<and> length addrs = unat maxc \<and> length cs \<le> unat maxc \<and>
        tcpthreadpool_create mem fresh pipe 0 addrs nthr maxc bsize = Inr p0 \<and>
        add_conns cs p0 = Inr (ids, p1) \<and> start_all rets p1 = (0, p))"

lemma started_poolI:
  "\<forall>n. length (mem n) = n \<Longrightarrow> \<forall>n. length (fresh n) = n \<Longrightarrow> \<forall>i r w. pipe i = Some (r, w) \<longrightarrow> r \<notin> fst ` set cs \<Longrightarrow>
     length addrs = unat maxc \<Longrightarrow> length cs \<le> unat maxc \<Longrightarrow>
     tcpthreadpool_create mem fresh pipe 0 addrs nthr maxc bsize = Inr p0 \<Longrightarrow> add_conns cs p0 = Inr (ids, p1) \<Longrightarrow>
     start_all rets p1 = (0, p) \<Longrightarrow> started_pool nthr cs p"
  unfolding started_pool_def by (intro exI conjI)

lemma started_poolE:
  assumes "started_pool nthr cs p"
  obtains mem fresh pipe addrs maxc bsize p0 ids p1 rets where
    "\<forall>n. length (mem n) = n" "\<forall>n. length (fresh n) = n" "\<forall>i r w. pipe i = Some (r, w) \<longrightarrow> r \<notin> fst ` set cs"
    "length addrs = unat maxc" "length cs \<le> unat maxc" "tcpthreadpool_create mem fresh pipe 0 addrs nthr maxc bsize = Inr p0"
    "add_conns cs p0 = Inr (ids, p1)" "start_all rets p1 = (0, p)"
  using assms unfolding started_pool_def by (elim exE conjE) (rule that)

lemma started_pool_readers:
  assumes "started_pool nthr cs p" "i \<in> set (rthrinfo p)"
  shows "unat (bufsize i) \<le> length (rdbuf i) \<and> rdfd i \<notin> fst ` set cs"
proof -
  from started_poolE [OF assms(1)] obtain mem fresh pipe addrs maxc bsize p0 ids p1 rets where
    h: "\<forall>n. length (mem n) = n" "\<forall>n. length (fresh n) = n" "\<forall>i r w. pipe i = Some (r, w) \<longrightarrow> r \<notin> fst ` set cs"
    "length addrs = unat maxc" "length cs \<le> unat maxc" "tcpthreadpool_create mem fresh pipe 0 addrs nthr maxc bsize = Inr p0"
    "add_conns cs p0 = Inr (ids, p1)" "start_all rets p1 = (0, p)" .
  have "rthrinfo p = rthrinfo p1" using h(8) by (auto simp: start_all_def split: if_splits)
  then have "reader i \<in> set (map reader (rthrinfo p0))" using assms(2) add_conns_readers [OF h(7)] by (metis image_eqI list.set_map)
  then obtain i0 where "i0 \<in> set (rthrinfo p0)" "reader i0 = reader i" by auto
  then have "reader_ok pipe i" using pool_create_readers [OF h(6,2)] reader_ok_reader by blast
  with h(3) show ?thesis by (auto simp: reader_ok_def)
qed

lemma started_pool_inv:
  assumes "started_pool nthr cs p"
  shows "pool_inv (map fst cs) p \<and> num_thrs p = nthr \<and> running p \<and> (\<forall>i \<in> set (wthrinfo p). msgq i = [])"
proof -
  from started_poolE [OF assms] obtain mem fresh pipe addrs maxc bsize p0 ids p1 rets where
    h: "\<forall>n. length (mem n) = n" "\<forall>n. length (fresh n) = n" "\<forall>i r w. pipe i = Some (r, w) \<longrightarrow> r \<notin> fst ` set cs"
    "length addrs = unat maxc" "length cs \<le> unat maxc" "tcpthreadpool_create mem fresh pipe 0 addrs nthr maxc bsize = Inr p0"
    "add_conns cs p0 = Inr (ids, p1)" "start_all rets p1 = (0, p)" .
  note c = pool_create_inv [OF h(6,1,4)]
  with add_conns_ok [of "[]" p0 cs] h(5,7)
  have p1: "pool_inv (map fst cs) p1" "num_thrs p1 = nthr" "map msgq (wthrinfo p1) = map msgq (wthrinfo p0)" by auto
  have "msgq i = []" if "i \<in> set (wthrinfo p1)" for i
  proof -
    have "msgq i \<in> set (map msgq (wthrinfo p0))" using that p1(3) by (metis image_eqI list.set_map)
    then show ?thesis using c by auto
  qed
  moreover have "p = p1\<lparr>running := True\<rparr>" using h(8) by (auto simp: start_all_def split: if_splits)
  ultimately show ?thesis using p1(1,2) by (auto simp: pool_inv_def Let_def)
qed

lemma pool_written:
  assumes "posix_stream rd wr pend sent" and "started_pool nthr cs p" and "distinct (map fst cs)"
    and "pool_reach wr p w0 s" and "\<forall>c \<in> set (calls s). small c" and "conn < length cs"
  shows "(\<exists>rest. sent (fst (cs ! conn)) (net s) @ rest =
        sent (fst (cs ! conn)) w0 @ concat (map (bytes_for (unat nthr) conn) (calls s)) \<and>
      ((\<forall>t<unat nthr. wst s t = WPop \<and> msgq (wthrinfo (pool s) ! t) = []) \<longrightarrow> rest = [])) \<and>
    (\<forall>t<unat nthr. \<forall>e. wst s t \<noteq> WFault e)"
proof -
  note p = started_pool_inv [OF assms(2)]
  have T: "num_thrs (pool s) = nthr" using pool_reach_thrs [OF assms(4)] p by simp
  from pool_reach_ok [OF assms(1,3,4)] p assms(5)
  have ok: "threads_ok (map fst cs) s" "delivered sent (map fst cs) w0 s" by (auto simp: sys_ok_def)
  have "0 < unat nthr" using p by (auto simp: pool_inv_def Let_def unat_gt_0)
  then have "conn mod unat nthr < unat nthr" by simp
  with ok(2) assms(6) T show ?thesis using ok(1) by (fastforce simp: delivered_def threads_ok_def Let_def)
qed

text \<open>
  C4. Nothing is lost, duplicated, reordered or misdelivered: at every moment the bytes written to a
  connection are a prefix of the messages addressed to it (by \<open>send\<close> to it, \<open>thr_broadcast\<close> to its
  thread, or \<open>broadcast\<close>), each with its length in front, in the order of the calls; when all
  write threads are idle the whole sequence was written, and no thread ever reads outside its arrays.
\<close>

theorem pool_delivers:
  assumes "posix_stream rd wr pend sent" and "started_pool nthr cs p" and "distinct (map fst cs)"
    and "pool_reach wr p w0 s" and "\<forall>c \<in> set (calls s). small c" and "conn < length cs"
  shows "(\<exists>rest. sent (fst (cs ! conn)) (net s) @ rest =
        sent (fst (cs ! conn)) w0 @ concat (map (bytes_for (unat nthr) conn) (calls s)) \<and>
      ((\<forall>t<unat nthr. wst s t = WPop \<and> msgq (wthrinfo (pool s) ! t) = []) \<longrightarrow> rest = [])) \<and>
    (\<forall>t<unat nthr. \<forall>e. wst s t \<noteq> WFault e)"
  using assms by (rule pool_written)

text \<open>A pool with two threads and three connections, after a broadcast.\<close>

lemma demo_started_pool: "\<exists>p. started_pool 2 [(5, []), (6, []), (7, [])] p"
proof -
  let ?cs = "[(5, []), (6, []), (7, [])] :: (c_int \<times> byte list) list"
  have "\<exists>p0. tcpthreadpool_create (\<lambda>n. replicate n 0) (\<lambda>n. replicate n 0) (\<lambda>i. Some (10, 11)) 0 [[], [], []] 2 3 16 = Inr p0"
    by (rule pool_create_succeeds) simp_all
  then obtain p0 where
    p0: "tcpthreadpool_create (\<lambda>n. replicate n 0) (\<lambda>n. replicate n 0) (\<lambda>i. Some (10, 11)) 0 [[], [], []] 2 3 16 = Inr p0" ..
  from pool_create_inv [OF p0] have c: "pool_inv [] p0" "\<not> running p0" "max_conns p0 = 3" by simp_all
  have "length ([] :: c_int list) + length ?cs \<le> unat (max_conns p0)" using c(3) by simp
  from add_conns_ok [OF c(1,2) this] obtain ids p1 where p1: "add_conns ?cs p0 = Inr (ids, p1)" "\<not> running p1" by blast
  have "start_all [] p1 = (0, p1\<lparr>running := True\<rparr>)" using p1(2) by (simp add: start_all_def)
  from started_poolI [OF _ _ _ _ _ p0 p1(1) this] show ?thesis by (intro exI) simp
qed

theorem pool_delivers_witness:
  "\<exists>p s. started_pool 2 [(5, []), (6, []), (7, [])] p \<and> pool_reach seg_write p (demo_world []) s \<and>
     calls s = [ToAll [1, 2]] \<and> (\<exists>rest. outb (net s) 7 @ rest = frame [1, 2])"
proof -
  define cs :: "(c_int \<times> byte list) list" where "cs = [(5, []), (6, []), (7, [])]"
  obtain p where p: "started_pool 2 cs p" unfolding cs_def using demo_started_pool by blast
  have "\<exists>p'. broadcast [1, 2] 2 p = Inr (0, p')"
    using started_pool_inv [OF p] by (simp add: broadcast_def make_msg_def)
  then obtain p' where "broadcast [1, 2] 2 p = Inr (0, p')" ..
  then have b: "broadcast [1, 2] 2 (pool (pool_init p (demo_world []))) = Inr (0, p')" by (simp add: pool_init_def)
  let ?s = "log_call 0 (ToAll (take (unat (2 :: u32)) [1, 2])) p' (pool_init p (demo_world []))"
  from pool_reach.step [OF pool_reach.start pool_step.call_broadcast [OF b]]
  have r: "pool_reach seg_write p (demo_world []) ?s" .
  have c: "calls ?s = [ToAll [1, 2]]" by (simp add: log_call_def pool_init_def)
  have cs: "distinct (map fst cs)" "2 < length cs" "fst (cs ! 2) = 7" by (simp_all add: cs_def)
  have "\<forall>c \<in> set (calls ?s). small c" unfolding c by simp
  from pool_delivers [OF segmented.posix_stream_axioms p cs(1) r this cs(2)]
  have "\<exists>rest. outb (net ?s) 7 @ rest = frame [1, 2]" unfolding c cs(3) by (auto simp: demo_world_def)
  with p r c show ?thesis unfolding cs_def by blast
qed

end
