(* ===== verification/Sock_Read.thy ===== *)
theory Sock_Read
  imports Sock_Threads
begin

text \<open>
  The read threads of the pool (\<open>start_read\<close> of \<open>src/socket/src/threadpool.cpp\<close>). A round of the loop is
  a \<open>select\<close>, a \<open>tcp_read\<close> and a call of the callback for every connection that is ready, and a look at the
  pipe that ends the thread; the results of \<open>select\<close> are an argument. Theorem: over any number of rounds
  the callback gets exactly the messages that the function \<open>serve\<close> takes from per-connection queues
  of messages, and a closed pipe ends the thread after it has closed its descriptors.
\<close>

section \<open>Read threads\<close>

text \<open>
  The loop over the sockets in one round of \<open>start_read\<close>, after \<open>select\<close> reported the descriptors \<open>ready\<close>.
  The result lists the calls of the callback, each with \<open>cbk_data.len\<close> and the bytes behind \<open>cbk_data.data\<close>.
\<close>

fun read_socks :: "'w sys_read \<Rightarrow> (nat \<Rightarrow> byte list) \<Rightarrow> byte list \<Rightarrow> (c_int \<Rightarrow> bool) \<Rightarrow> dsize_t \<Rightarrow> c_int list \<Rightarrow>
    byte list \<Rightarrow> 'w \<Rightarrow> (((c_int \<times> byte list) list \<times> byte list \<times> 'w) outcome) option" where
  "read_socks rd fresh msglen0 ready bsize [] buf w = Some (Inr ([], buf, w))"
| "read_socks rd fresh msglen0 ready bsize (fd # fds) buf w =
     (if ready fd then
        (case tcp_read rd fresh msglen0 fd buf bsize w of
           None \<Rightarrow> None
         | Some (Inl e, w) \<Rightarrow> Some (Inl e)
         | Some (Inr r, w) \<Rightarrow>
             let buf = (if use_tempbuf r then buf else contents r) in
             if ret r = 0 then read_socks rd fresh msglen0 ready bsize fds buf w
             else if \<not> 0 < sint (ret r) then Some (Inl Abort)
             else
               (case read_socks rd fresh msglen0 ready bsize fds buf w of
                  Some (Inr (evs, buf, w)) \<Rightarrow> Some (Inr ((ret r, contents r) # evs, buf, w))
                | x \<Rightarrow> x))
      else read_socks rd fresh msglen0 ready bsize fds buf w)"

text \<open>
  A whole round: the sockets, then the pipe that ends the thread; the flag says that the thread closes its
  descriptors and ends. The new contents of the read buffer are part of the result.
\<close>

definition start_read_round :: "'w sys_read \<Rightarrow> (nat \<Rightarrow> byte list) \<Rightarrow> byte list \<Rightarrow> (c_int \<Rightarrow> bool) \<Rightarrow> tcpthrinfo_t \<Rightarrow> 'w \<Rightarrow>
    (((c_int \<times> byte list) list \<times> bool \<times> byte list \<times> 'w) outcome) option" where
  "start_read_round rd fresh msglen0 ready info w =
     (case read_socks rd fresh msglen0 ready (bufsize info) (take (unat (num_socks info)) (socks info)) (rdbuf info) w of
        None \<Rightarrow> None
      | Some (Inl e) \<Rightarrow> Some (Inl e)
      | Some (Inr (evs, buf, w)) \<Rightarrow>
          if ready (rdfd info) then
            (case rd (rdfd info) (ucast (bufsize info)) w of (r, w) \<Rightarrow>
               let rsize = ucast (read_size r) :: c_int; buf = read_into 0 r buf in
               if sint rsize < 0 then Some (Inl Abort)
               else Some (Inr (evs, rsize = 0, buf, w)))
          else Some (Inr (evs, False, buf, w)))"

lemma read_socks_messages:
  assumes px: "posix_stream rd wr pend sent" and "distinct fds" "length msglen0 = 4" "\<And>n. length (fresh n) = n"
    and "unat bsize \<le> length buf"
    and "\<forall>fd \<in> set fds. ready fd \<longrightarrow> sendable (msg fd) \<and> pend fd w = frame (msg fd) @ rest fd"
  shows "\<exists>evs buf' w'. read_socks rd fresh msglen0 ready bsize fds buf w = Some (Inr (evs, buf', w')) \<and>
    map (\<lambda>(n, d). take (unat n) d) evs = map msg (filter ready fds) \<and>
    length buf' = length buf \<and> (\<forall>fd. pend fd w' = (if fd \<in> set fds \<and> ready fd then rest fd else pend fd w))"
  using assms(2,5,6)
proof (induction fds arbitrary: buf w)
  case (Cons fd fds)
  show ?case
  proof (cases "ready fd")
    case True
    with Cons.prems have m: "sendable (msg fd)" "pend fd w = frame (msg fd) @ rest fd" by auto
    from posix_stream.tcp_read_unframes [OF px m assms(3) Cons.prems(2) assms(4)] obtain r w1 where
      r: "tcp_read rd fresh msglen0 fd buf bsize w = Some (Inr r, w1)" "unat (ret r) = length (msg fd)"
      "take (length (msg fd)) (contents r) = msg fd" "pend fd w1 = rest fd"
      "\<not> use_tempbuf r \<longrightarrow> length (contents r) = length buf" "\<forall>fd'. fd' \<noteq> fd \<longrightarrow> pend fd' w1 = pend fd' w" by blast
    let ?buf = "if use_tempbuf r then buf else contents r"
    have "unat bsize \<le> length ?buf" using r(5) Cons.prems(2) by simp
    moreover have "distinct fds" using Cons.prems(1) by simp
    moreover have "\<forall>fd \<in> set fds. ready fd \<longrightarrow> sendable (msg fd) \<and> pend fd w1 = frame (msg fd) @ rest fd"
      using Cons.prems(1,3) r(6) by auto
    ultimately obtain evs buf' w' where
      rec: "read_socks rd fresh msglen0 ready bsize fds ?buf w1 = Some (Inr (evs, buf', w'))"
      "map (\<lambda>(n, d). take (unat n) d) evs = map msg (filter ready fds)"
      "length buf' = length ?buf" "\<forall>fd. pend fd w' = (if fd \<in> set fds \<and> ready fd then rest fd else pend fd w1)"
      using Cons.IH by blast
    have "ret r = of_nat (length (msg fd))" using r(2) by (metis of_nat_unat ucast_id)
    then have "0 < sint (ret r)" "ret r \<noteq> 0" using m(1) int_of_small(1) [of "length (msg fd)"] by (auto simp: sendable_def)
    with True r rec Cons.prems(1) show ?thesis by (auto simp: Let_def)
  next
    case False
    have "distinct fds" "\<forall>fd \<in> set fds. ready fd \<longrightarrow> sendable (msg fd) \<and> pend fd w = frame (msg fd) @ rest fd"
      using Cons.prems(1,3) by auto
    from Cons.IH [OF this(1) Cons.prems(2) this(2)] False show ?thesis by auto
  qed
qed simp

lemma read_round_delivers:
  assumes "posix_stream rd wr pend sent" and "length msglen0 = 4" and "\<forall>n. length (fresh n) = n"
    and "distinct (take (unat (num_socks info)) (socks info))" and "unat (bufsize info) \<le> length (rdbuf info)"
    and "\<forall>fd \<in> set (take (unat (num_socks info)) (socks info)).
      ready fd \<longrightarrow> sendable (msg fd) \<and> pend fd w = frame (msg fd) @ rest fd"
    and "ready (rdfd info) \<longrightarrow> (\<forall>n v. rd (rdfd info) n v = (Some [], v))"
  shows "\<exists>evs buf' w'. start_read_round rd fresh msglen0 ready info w = Some (Inr (evs, ready (rdfd info), buf', w')) \<and>
    map (\<lambda>(n, d). take (unat n) d) evs = map msg (filter ready (take (unat (num_socks info)) (socks info))) \<and>
    length buf' = length (rdbuf info) \<and>
    (\<forall>fd. pend fd w' = (if fd \<in> set (take (unat (num_socks info)) (socks info)) \<and> ready fd then rest fd else pend fd w))"
proof -
  have "\<And>n. length (fresh n) = n" using assms(3) by simp
  from read_socks_messages [OF assms(1,4,2) this assms(5,6)] obtain evs buf' w' where
    "read_socks rd fresh msglen0 ready (bufsize info) (take (unat (num_socks info)) (socks info)) (rdbuf info) w =
      Some (Inr (evs, buf', w'))"
    "map (\<lambda>(n, d). take (unat n) d) evs = map msg (filter ready (take (unat (num_socks info)) (socks info)))"
    "length buf' = length (rdbuf info)"
    "\<forall>fd. pend fd w' = (if fd \<in> set (take (unat (num_socks info)) (socks info)) \<and> ready fd then rest fd else pend fd w)"
    by blast
  with assms(7) show ?thesis by (simp add: start_read_round_def read_size_def read_into_def blit_def Let_def)
qed


section \<open>The whole thread\<close>

text \<open>
  \<open>sel\<close> are the results of the successive calls of \<open>select\<close>; \<open>None\<close> is an error, which fails the assertion \<open>readyfd > 0\<close>.
  The result has the calls of the callback and the descriptors closed when the thread ends (none while it is still running).
\<close>

fun start_read :: "'w sys_read \<Rightarrow> (nat \<Rightarrow> byte list) \<Rightarrow> byte list \<Rightarrow> (c_int \<Rightarrow> bool) option list \<Rightarrow> tcpthrinfo_t \<Rightarrow> 'w \<Rightarrow>
    (((c_int \<times> byte list) list \<times> c_int list \<times> 'w) outcome) option" where
  "start_read rd fresh msglen0 [] info w = Some (Inr ([], [], w))"
| "start_read rd fresh msglen0 (None # sel) info w = Some (Inl Abort)"
| "start_read rd fresh msglen0 (Some ready # sel) info w =
     (case start_read_round rd fresh msglen0 ready info w of
        None \<Rightarrow> None
      | Some (Inl e) \<Rightarrow> Some (Inl e)
      | Some (Inr (evs, ended, buf, w)) \<Rightarrow>
          if ended then Some (Inr (evs, take (unat (num_socks info)) (socks info) @ [rdfd info], w))
          else (case start_read rd fresh msglen0 sel (info\<lparr>rdbuf := buf\<rparr>) w of
                  Some (Inr (evs', closed, w)) \<Rightarrow> Some (Inr (evs @ evs', closed, w))
                | x \<Rightarrow> x))"

text \<open>
  The specification: connections \<open>fds\<close> with queues \<open>ms\<close> of messages; a round takes the first message of every ready
  connection, and the round in which the pipe is ready is the last.
\<close>

fun serve :: "c_int list \<Rightarrow> c_int \<Rightarrow> (c_int \<Rightarrow> bool) list \<Rightarrow> (c_int \<Rightarrow> byte list list) \<Rightarrow>
    byte list list \<times> bool \<times> (c_int \<Rightarrow> byte list list)" where
  "serve fds pipe [] ms = ([], False, ms)"
| "serve fds pipe (ready # rs) ms =
     (let now = map (\<lambda>fd. hd (ms fd)) (filter ready fds);
          ms = (\<lambda>fd. if fd \<in> set fds \<and> ready fd then tl (ms fd) else ms fd)
      in if ready pipe then (now, True, ms)
         else case serve fds pipe rs ms of (later, ended, ms) \<Rightarrow> (now @ later, ended, ms))"

text \<open>\<open>select\<close> reports a connection only when a message is waiting there.\<close>

fun select_ok :: "c_int list \<Rightarrow> c_int \<Rightarrow> (c_int \<Rightarrow> bool) list \<Rightarrow> (c_int \<Rightarrow> byte list list) \<Rightarrow> bool" where
  "select_ok fds pipe [] ms = True"
| "select_ok fds pipe (ready # rs) ms \<longleftrightarrow>
     (\<forall>fd \<in> set fds. ready fd \<longrightarrow> ms fd \<noteq> []) \<and>
     (ready pipe \<or> select_ok fds pipe rs (\<lambda>fd. if fd \<in> set fds \<and> ready fd then tl (ms fd) else ms fd))"

definition queued_messages :: "(c_int \<Rightarrow> 'w \<Rightarrow> byte list) \<Rightarrow> c_int list \<Rightarrow> (c_int \<Rightarrow> byte list list) \<Rightarrow> (c_int \<Rightarrow> byte list) \<Rightarrow> 'w \<Rightarrow> bool" where
  "queued_messages pend fds ms tail w \<longleftrightarrow>
     (\<forall>fd \<in> set fds. (\<forall>m \<in> set (ms fd). sendable m) \<and> pend fd w = concat (map frame (ms fd)) @ tail fd)"

lemma in_set_tl: "x \<in> set (tl xs) \<Longrightarrow> x \<in> set xs"
  by (cases xs) simp_all

lemma read_thread_refines:
  assumes px: "posix_stream rd wr pend sent" and "length msglen0 = 4" "\<forall>n. length (fresh n) = n"
    and "distinct (take (unat (num_socks info)) (socks info))" "unat (bufsize info) \<le> length (rdbuf info)"
    and "\<forall>n v. rd (rdfd info) n v = (Some [], v)"
    and "queued_messages pend (take (unat (num_socks info)) (socks info)) ms tail w"
    and "select_ok (take (unat (num_socks info)) (socks info)) (rdfd info) rs ms"
    and "serve (take (unat (num_socks info)) (socks info)) (rdfd info) rs ms = (msgs, ended, ms')"
  shows "\<exists>evs w'. start_read rd fresh msglen0 (map Some rs) info w =
      Some (Inr (evs, if ended then take (unat (num_socks info)) (socks info) @ [rdfd info] else [], w')) \<and>
    map (\<lambda>(n, d). take (unat n) d) evs = msgs \<and>
    queued_messages pend (take (unat (num_socks info)) (socks info)) ms' tail w'"
  using assms(4-9)
proof (induction rs arbitrary: info ms w msgs)
  case (Cons ready rs)
  let ?fds = "take (unat (num_socks info)) (socks info)"
  let ?ms = "\<lambda>fd. if fd \<in> set ?fds \<and> ready fd then tl (ms fd) else ms fd"
  let ?rest = "\<lambda>fd. concat (map frame (tl (ms fd))) @ tail fd"
  have split: "ms fd = hd (ms fd) # tl (ms fd)" if "fd \<in> set ?fds" "ready fd" for fd
    using Cons.prems(5) that by simp
  have "sendable (hd (ms fd)) \<and> pend fd w = frame (hd (ms fd)) @ ?rest fd" if "fd \<in> set ?fds" "ready fd" for fd
    using Cons.prems(4) that split [OF that] by (subst (asm) queued_messages_def) (metis append_assoc concat.simps(2) list.set_intros(1) list.simps(9))
  then have "\<forall>fd \<in> set ?fds. ready fd \<longrightarrow> sendable (hd (ms fd)) \<and> pend fd w = frame (hd (ms fd)) @ ?rest fd" by blast
  from read_round_delivers [OF px assms(2,3) Cons.prems(1,2) this] Cons.prems(3) obtain evs buf' w' where
    r: "start_read_round rd fresh msglen0 ready info w = Some (Inr (evs, ready (rdfd info), buf', w'))"
    "map (\<lambda>(n, d). take (unat n) d) evs = map (\<lambda>fd. hd (ms fd)) (filter ready ?fds)" "length buf' = length (rdbuf info)"
    "\<forall>fd. pend fd w' = (if fd \<in> set ?fds \<and> ready fd then ?rest fd else pend fd w)" by blast
  have q: "queued_messages pend ?fds ?ms tail w'"
    using Cons.prems(4) r(4) by (auto simp: queued_messages_def dest: in_set_tl)
  show ?case
  proof (cases "ready (rdfd info)")
    case True
    with Cons.prems(6) r q show ?thesis by simp
  next
    case False
    let ?info = "info\<lparr>rdbuf := buf'\<rparr>"
    obtain later e where s: "serve ?fds (rdfd info) rs ?ms = (later, e, ms')" "msgs = map (\<lambda>fd. hd (ms fd)) (filter ready ?fds) @ later"
      "ended = e" using Cons.prems(6) False by (auto split: prod.splits)
    from Cons.IH [of ?info ?ms w' later] Cons.prems(1,2,3,5) False q r(3) s obtain evs' w'' where
      "start_read rd fresh msglen0 (map Some rs) ?info w' = Some (Inr (evs', if ended then ?fds @ [rdfd info] else [], w''))"
      "map (\<lambda>(n, d). take (unat n) d) evs' = later" "queued_messages pend ?fds ms' tail w''"
      by auto
    with False r s show ?thesis by simp
  qed
qed simp

text \<open>
  C31. A read thread refines its specification over any number of rounds: when the connections carry whole
  messages and \<open>select\<close> reports a connection only if one is waiting, the thread calls the callback with
  exactly the messages that \<open>serve\<close> takes from the queues of messages, in that order, leaves the others on
  their connections, and when \<open>stop_all\<close> has closed the pipe it closes its sockets and the pipe and ends.
\<close>

theorem read_thread_serves:
  assumes "posix_stream rd wr pend sent" and "length msglen0 = 4" and "\<forall>n. length (fresh n) = n"
    and "distinct fds" and "fds = take (unat (num_socks info)) (socks info)" and "unat (bufsize info) \<le> length (rdbuf info)"
    and "\<forall>n v. rd (rdfd info) n v = (Some [], v)"
    and "queued_messages pend fds ms tail w" and "select_ok fds (rdfd info) rs ms"
    and "serve fds (rdfd info) rs ms = (msgs, ended, ms')"
  shows "\<exists>evs w'. start_read rd fresh msglen0 (map Some rs) info w =
      Some (Inr (evs, if ended then fds @ [rdfd info] else [], w')) \<and>
    map (\<lambda>(n, d). take (unat n) d) evs = msgs \<and> queued_messages pend fds ms' tail w'"
  using read_thread_refines [OF assms(1-3)] assms(4-10) by blast

text \<open>A pipe that is closed: every read of descriptor 9 gives nothing.\<close>

lemma closed_pipe: "posix_stream (\<lambda>fd len w. if fd = 9 then (Some [], w) else seg_read fd len w) seg_write
    (\<lambda>fd w. if fd = 9 then [] else inb w fd) (\<lambda>fd w. outb w fd)"
proof
  fix fd and w :: stream_world and len :: u64
  show "(if fd = 9 then (Some [], w) else seg_read fd 0 w) = (Some [], w)" by (simp add: segmented.rd_zero)
  assume "(if fd = 9 then [] else inb w fd) \<noteq> []" "0 < len"
  then have fd: "fd \<noteq> 9" "inb w fd \<noteq> []" by (auto split: if_splits)
  from segmented.rd_data [OF fd(2) \<open>0 < len\<close>] obtain k w' where
    "seg_read fd len w = (Some (take k (inb w fd)), w')" "0 < k" "k \<le> unat len" "k \<le> length (inb w fd)"
    "inb w' fd = drop k (inb w fd)" "\<forall>fd'. fd' \<noteq> fd \<longrightarrow> inb w' fd' = inb w fd'" by blast
  with fd(1) show "\<exists>k w'. (if fd = 9 then (Some [], w) else seg_read fd len w) =
      (Some (take k (if fd = 9 then [] else inb w fd)), w') \<and> 0 < k \<and> k \<le> unat len \<and>
      k \<le> length (if fd = 9 then [] else inb w fd) \<and> (if fd = 9 then [] else inb w' fd) = drop k (if fd = 9 then [] else inb w fd) \<and>
      (\<forall>fd'. fd' \<noteq> fd \<longrightarrow> (if fd' = 9 then [] else inb w' fd') = (if fd' = 9 then [] else inb w fd'))"
    by (intro exI [of _ k] exI [of _ w']) simp
next
  show "\<exists>k w'. seg_write fd data w = (int k, w') \<and> 0 < k \<and> k \<le> length data \<and>
      outb w' fd = outb w fd @ take k data \<and> (\<forall>fd'. fd' \<noteq> fd \<longrightarrow> outb w' fd' = outb w fd')"
    if "data \<noteq> []" for fd data and w :: stream_world
    by (rule segmented.wr_data [OF that])
qed

theorem read_thread_serves_witness:
  "\<exists>evs w'. start_read (\<lambda>fd len w. if fd = 9 then (Some [], w) else seg_read fd len w) (\<lambda>n. replicate n 0) [0, 0, 0, 0]
      [Some (\<lambda>fd. fd = 5), Some (\<lambda>fd. fd = 6 \<or> fd = 9)]
      (tcpthrinfo\<lparr>socks := [5, 6], num_socks := 2, rdfd := 9\<rparr>) (demo_world (frame [1, 2, 3])) =
      Some (Inr (evs, [5, 6, 9], w')) \<and> map (\<lambda>(n, d). take (unat n) d) evs = [[1, 2, 3], [1, 2, 3]]"
proof -
  let ?i = "tcpthrinfo\<lparr>socks := [5, 6], num_socks := 2, rdfd := 9\<rparr>"
  have i: "take (unat (num_socks ?i)) (socks ?i) = [5, 6]" "rdfd ?i = 9" "unat (bufsize ?i) \<le> length (rdbuf ?i)"
    by (simp_all add: tcpthrinfo_def)
  have q: "queued_messages (\<lambda>fd w. if fd = 9 then [] else inb w fd) [5, 6] (\<lambda>_. [[1, 2, 3]]) (\<lambda>_. []) (demo_world (frame [1, 2, 3]))"
    by (simp add: queued_messages_def sendable_def demo_world_def)
  have s: "serve [5, 6] 9 [\<lambda>fd. fd = 5, \<lambda>fd. fd = 6 \<or> fd = 9] (\<lambda>_. [[1, 2, 3]]) =
      ([[1, 2, 3], [1, 2, 3]], True, snd (snd (serve [5, 6] 9 [\<lambda>fd. fd = 5, \<lambda>fd. fd = 6 \<or> fd = 9] (\<lambda>_. [[1, 2, 3]]))))"
    by simp
  have "distinct [5, 6 :: c_int]" "select_ok [5, 6] 9 [\<lambda>fd. fd = 5, \<lambda>fd. fd = 6 \<or> fd = 9] (\<lambda>_. [[1, 2, 3]])" by simp_all
  note d = this
  have p: "length [0, 0, 0, 0 :: byte] = 4" "\<forall>n. length (replicate n (0 :: byte)) = n"
    "\<forall>n v. (if rdfd ?i = 9 then (Some [], v) else seg_read (rdfd ?i) n v) = (Some [], v)" using i(2) by simp_all
  note r = read_thread_serves [OF closed_pipe p(1,2) d(1) i(1) [symmetric] i(3) p(3) q, unfolded i(2), OF d(2) s]
  from r obtain evs w' where "start_read (\<lambda>fd len w. if fd = 9 then (Some [], w) else seg_read fd len w) (\<lambda>n. replicate n 0)
      [0, 0, 0, 0] (map Some [\<lambda>fd. fd = 5, \<lambda>fd. fd = 6 \<or> fd = 9]) ?i (demo_world (frame [1, 2, 3])) =
      Some (Inr (evs, if True then [5, 6] @ [9] else [], w'))" "map (\<lambda>(n, d). take (unat n) d) evs = [[1, 2, 3], [1, 2, 3]]"
    by (elim exE conjE)
  from this [unfolded if_True append_Cons append_Nil list.map] show ?thesis by (intro exI conjI)
qed

end
