(* ===== verification/Sock_Stop.thy ===== *)
theory Sock_Stop
  imports Sock_Threads
begin

text \<open>
  Stopping the thread pool (\<open>stop_all\<close> of \<open>src/socket/src/threadpool.cpp\<close>): an exit message is queued behind
  the other messages of every write thread, the pipes of the read threads are closed, and all threads are
  joined. Theorem: whatever the interleaving, the write threads come to their end after finitely many
  steps, and only after they have written everything that was queued before the stop. The connections stay open here; the
  read threads, which may close them too early, are added in theory \<open>Sock_Run\<close>.
\<close>

section \<open>Threads without further calls\<close>

inductive thread_step :: "'w sys_write \<Rightarrow> 'w pool_sys \<Rightarrow> 'w pool_sys \<Rightarrow> bool" for wr :: "'w sys_write" where
  pop: "t < thrs s \<Longrightarrow> wst s t = WPop \<Longrightarrow> msgq (wthrinfo (pool s) ! t) \<noteq> [] \<Longrightarrow>
     thread_step wr s (start_send_pop t s)"
| wrt: "t < thrs s \<Longrightarrow> start_send_write wr t s = Some s' \<Longrightarrow> thread_step wr s s'"

text \<open>
  The second loop of \<open>stop_all\<close>: \<open>pthread_join\<close> of thread \<open>i\<close> waits until the thread has ended (\<open>None\<close> when it
  never does) and its result is asserted to be 0.
\<close>

fun stop_all_join :: "(nat \<Rightarrow> int option) \<Rightarrow> (nat \<Rightarrow> int option) \<Rightarrow> nat list \<Rightarrow> int outcome option" where
  "stop_all_join wj rj [] = Some (Inr 0)"
| "stop_all_join wj rj (i # is) =
     (case wj i of
        None \<Rightarrow> None
      | Some rc \<Rightarrow>
          if rc \<noteq> 0 then Some (Inl Abort)
          else (case rj i of
                  None \<Rightarrow> None
                | Some rc \<Rightarrow> if rc \<noteq> 0 then Some (Inl Abort) else stop_all_join wj rj is))"

definition wjoin :: "'w pool_sys \<Rightarrow> nat \<Rightarrow> int option" where
  "wjoin s t = (if wst s t = WExit then Some 0 else None)"

lemma stop_all_join_done:
  "\<forall>i \<in> set is. wj i = Some 0 \<and> rj i = Some 0 \<Longrightarrow> stop_all_join wj rj is = Some (Inr 0)"
  by (induction "is") auto

lemma thread_step_pool_step: "thread_step wr s s' \<Longrightarrow> pool_step wr s s'"
  by (induction rule: thread_step.cases) (auto intro: pool_step.intros)

section \<open>The work of the threads\<close>

fun pc_work :: "nat \<Rightarrow> wthread \<Rightarrow> nat" where
  "pc_work n (WBcast m i) = n - i + 1"
| "pc_work n (WOne m) = 1"
| "pc_work n _ = 0"

definition thread_work :: "tcpthrinfo_t \<Rightarrow> wthread \<Rightarrow> nat" where
  "thread_work i st = pc_work (unat (num_socks i)) st + (unat (num_socks i) + 2) * length (msgq i)"

definition pool_work :: "'w pool_sys \<Rightarrow> nat" where
  "pool_work s = (\<Sum>t<thrs s. thread_work (wthrinfo (pool s) ! t) (wst s t))"

lemma one_thread_works:
  assumes "t < thrs s" "thrs s' = thrs s"
    and "\<And>u. u < thrs s \<Longrightarrow> u \<noteq> t \<Longrightarrow> wthrinfo (pool s') ! u = wthrinfo (pool s) ! u \<and> wst s' u = wst s u"
    and "thread_work (wthrinfo (pool s') ! t) (wst s' t) < thread_work (wthrinfo (pool s) ! t) (wst s t)"
  shows "pool_work s' < pool_work s"
  unfolding pool_work_def assms(2)
proof (rule sum_strict_mono_ex1)
  show "\<forall>u\<in>{..<thrs s}. thread_work (wthrinfo (pool s') ! u) (wst s' u) \<le> thread_work (wthrinfo (pool s) ! u) (wst s u)"
  proof
    fix u assume "u \<in> {..<thrs s}"
    then show "thread_work (wthrinfo (pool s') ! u) (wst s' u) \<le> thread_work (wthrinfo (pool s) ! u) (wst s u)"
      using assms(3) [of u] assms(4) by (cases "u = t") simp_all
  qed
qed (use assms(1,4) in auto)

lemma start_send_write_cases:
  assumes "start_send_write wr t s = Some s'"
  shows "pool s' = pool s \<and> calls s' = calls s \<and> (\<forall>u. u \<noteq> t \<longrightarrow> wst s' u = wst s u) \<and> wst s t \<noteq> WPop \<and> wst s t \<noteq> WExit \<and>
    pc_work (unat (num_socks (wthrinfo (pool s) ! t))) (wst s' t) < pc_work (unat (num_socks (wthrinfo (pool s) ! t))) (wst s t) \<and>
    wst s' t \<noteq> WExit"
  using assms by (auto simp: start_send_write_def Let_def split: wthread.splits option.splits if_splits)

lemma thread_step_works:
  assumes "thread_step wr s s'" "pool_inv S (pool s)"
  shows "pool_work s' < pool_work s"
  using assms(1)
proof cases
  case (pop t)
  let ?i = "wthrinfo (pool s) ! t"
  from pop obtain m ms where q: "msgq ?i = m # ms" by (auto simp: neq_Nil_conv)
  have "t < length (wthrinfo (pool s))" using assms(2) pop by (simp add: pool_inv_def Let_def)
  then show ?thesis using pop q
    by (intro one_thread_works [of t])
      (auto simp: start_send_pop_def set_info_def nth_list_update thread_work_def split: msg_type.splits)
next
  case (wrt t)
  with start_send_write_cases [OF wrt(2)] show ?thesis
    by (intro one_thread_works [of t]) (auto simp: thread_work_def)
qed

section \<open>Every thread comes to its exit message\<close>

lemma exit_eq: "mtype m \<noteq> WRITE \<longleftrightarrow> mtype m = EXIT"
  by (cases "mtype m") simp_all

text \<open>Before the stop no thread has ended or has an exit message waiting; after it each has one, at the end of its queue.\<close>

definition open_pool :: "'w pool_sys \<Rightarrow> bool" where
  "open_pool s \<longleftrightarrow> (\<forall>t<thrs s. wst s t \<noteq> WExit \<and> (\<forall>m \<in> set (msgq (wthrinfo (pool s) ! t)). mtype m = WRITE))"

definition thr_closing :: "msg_t list \<Rightarrow> wthread \<Rightarrow> bool" where
  "thr_closing q st =
     (if st = WExit then q = [] else q \<noteq> [] \<and> mtype (last q) = EXIT \<and> (\<forall>m \<in> set (butlast q). mtype m = WRITE))"

definition closing :: "'w pool_sys \<Rightarrow> bool" where
  "closing s \<longleftrightarrow> (\<forall>t<thrs s. thr_closing (msgq (wthrinfo (pool s) ! t)) (wst s t))"

lemma stop_closes:
  assumes "open_pool s" "pool_inv S (pool s)" "stop_all_signal (pool s) = Inr (0, p)"
  shows "closing (s\<lparr>pool := p\<rparr>) \<and> num_thrs p = num_thrs (pool s)"
proof -
  have len: "length (wthrinfo (pool s)) = thrs s" using assms(2) by (simp add: pool_inv_def Let_def)
  have "running (pool s)" using assms(3) by (auto simp: stop_all_signal_def split: if_splits)
  define m where "m = \<lparr>mtype = EXIT, mdata = le32 0, mlen = 4, msock = - 1\<rparr>"
  have m: "mtype m = EXIT" "p = fold (\<lambda>i. push_msg i m) [0..<thrs s] (pool s)"
    using assms(3) \<open>running (pool s)\<close> by (simp_all add: stop_all_signal_def make_msg_def m_def)
  have q: "queued {..<thrs s} m (pool s) p" unfolding m(2) using len by (intro queued_fold) simp
  have "msgq (wthrinfo p ! t) = msgq (wthrinfo (pool s) ! t) @ [m]" if "t < thrs s" for t
    using q that len by (simp add: queued_def)
  moreover have T: "num_thrs p = num_thrs (pool s)" by (simp add: m(2))
  ultimately show ?thesis using assms(1) m(1) by (auto simp: closing_def thr_closing_def open_pool_def)
qed

lemma closing_step:
  assumes "thread_step wr s s'" "closing s" "pool_inv S (pool s)"
  shows "closing s' \<and> num_thrs (pool s') = num_thrs (pool s) \<and> calls s' = calls s"
  using assms(1)
proof cases
  case (pop t)
  let ?i = "wthrinfo (pool s) ! t"
  from pop obtain m ms where q: "msgq ?i = m # ms" by (auto simp: neq_Nil_conv)
  define st where "st = (case mtype m of EXIT \<Rightarrow> WExit | WRITE \<Rightarrow> if sint (msock m) < 0 then WBcast m 0 else WOne m)"
  have s': "s' = s\<lparr>pool := set_info t (?i\<lparr>msgq := ms\<rparr>) (pool s), wst := (wst s)(t := st)\<rparr>"
    using pop(1) q by (simp add: start_send_pop_def st_def)
  have "t < length (wthrinfo (pool s))" using assms(3) pop by (simp add: pool_inv_def Let_def)
  moreover have "thr_closing (m # ms) WPop" using assms(2) pop q by (metis closing_def)
  then have "thr_closing ms st"
    by (cases "mtype m"; cases "ms = []") (auto simp: thr_closing_def st_def)
  ultimately have "closing s'" using assms(2)
    by (simp add: closing_def s' set_info_def nth_list_update)
  then show ?thesis by (simp add: s' set_info_def)
next
  case (wrt t)
  note c = start_send_write_cases [OF wrt(2)]
  have "thr_closing (msgq (wthrinfo (pool s') ! u)) (wst s' u)" if "u < thrs s" for u
    using c assms(2) that by (cases "u = t") (auto simp: closing_def thr_closing_def)
  then show ?thesis using c by (simp add: closing_def)
qed

lemma thread_step_threads_ok:
  assumes "thread_step wr s s'" "threads_ok S s"
  shows "threads_ok S s' \<and> thrs s' = thrs s \<and> calls s' = calls s"
  using assms(1)
proof cases
  case (pop t)
  then obtain m ms where q: "msgq (wthrinfo (pool s) ! t) = m # ms" by (auto simp: neq_Nil_conv)
  note p = pop_threads_ok [OF assms(2) pop(2) q refl]
  with pop(1) show ?thesis by (simp add: p(1))
next
  case (wrt t)
  with start_send_write_threads_ok [OF assms(2) wrt] start_send_write_cases [OF wrt(2)] show ?thesis by simp
qed

lemma thread_can_step:
  assumes ok: "threads_ok S s"
    and wr: "\<And>fd m. msg_ok n m \<Longrightarrow> mtype m = WRITE \<Longrightarrow> \<exists>y. writen wr fd (mdata m) (ucast (mlen m)) (net s) = Some y"
    and t: "t < thrs s" "wst s t \<noteq> WExit" and q: "wst s t = WPop \<Longrightarrow> msgq (wthrinfo (pool s) ! t) \<noteq> []"
    and n: "n = cnt (thrs s) t (length S)"
  shows "\<exists>s'. thread_step wr s s'"
proof (cases "wst s t = WPop")
  case True
  then show ?thesis using t(1) q thread_step.pop by blast
next
  case False
  have "wst_ok n (wst s t)" using ok t(1) n by (simp add: threads_ok_def)
  then obtain m where m: "(\<exists>i. wst s t = WBcast m i) \<or> wst s t = WOne m" "msg_ok n m" "mtype m = WRITE"
    using False t(2) by (cases "wst s t") auto
  then have "\<exists>s'. start_send_write wr t s = Some s'"
    using wr [OF m(2,3)] by (auto simp: start_send_write_def Let_def split: option.splits if_splits) (metis option.distinct(1))+
  then show ?thesis using t(1) thread_step.wrt by blast
qed

lemma thread_progress:
  assumes px: "posix_stream rd wr pend sent" and ok: "threads_ok S s"
    and t: "t < thrs s" "wst s t \<noteq> WExit" and q: "wst s t = WPop \<Longrightarrow> msgq (wthrinfo (pool s) ! t) \<noteq> []"
  shows "\<exists>s'. thread_step wr s s'"
proof (rule thread_can_step [OF ok _ t q refl])
  show "\<exists>y. writen wr fd (mdata m) (ucast (mlen m)) (net s) = Some y" if "msg_ok n m" "mtype m = WRITE" for fd m n
    using that posix_stream.writen_exact [OF px, of "ucast (mlen m)" "mdata m" fd "net s"] by (auto simp: msg_ok_def)
qed

text \<open>A pool that is not being stopped writes everything it has queued, if the threads are left alone.\<close>

definition idle :: "'w pool_sys \<Rightarrow> bool" where
  "idle s \<longleftrightarrow> (\<forall>t<thrs s. wst s t = WPop \<and> msgq (wthrinfo (pool s) ! t) = [])"

lemma open_step:
  assumes "thread_step wr s s'" "open_pool s" "pool_inv S (pool s)"
  shows "open_pool s' \<and> calls s' = calls s"
  using assms(1)
proof cases
  case (pop t)
  then obtain m ms where q: "msgq (wthrinfo (pool s) ! t) = m # ms" by (auto simp: neq_Nil_conv)
  have "t < length (wthrinfo (pool s))" using assms(3) pop by (simp add: pool_inv_def Let_def)
  moreover have "mtype m = WRITE" "\<forall>m \<in> set ms. mtype m = WRITE" using assms(2) pop q by (auto simp: open_pool_def)
  ultimately show ?thesis using assms(2) pop(1) q
    by (auto simp: open_pool_def start_send_pop_def set_info_def nth_list_update)
next
  case (wrt t)
  note c = start_send_write_cases [OF wrt(2)]
  have "wst s' u \<noteq> WExit" if "u < thrs s" for u using c assms(2) that by (cases "u = t") (auto simp: open_pool_def)
  then show ?thesis using c assms(2) by (simp add: open_pool_def)
qed

lemma pool_drains:
  assumes "posix_stream rd wr pend sent" "distinct S" "open_pool s" "sys_ok sent S w0 s" "\<forall>c \<in> set (calls s). small c"
  shows "\<exists>u. (thread_step wr)\<^sup>*\<^sup>* s u \<and> idle u \<and> calls u = calls s"
  using assms(3-5)
proof (induction "pool_work s" arbitrary: s rule: less_induct)
  case less
  then have ok: "threads_ok S s" by (simp add: sys_ok_def)
  then have inv: "pool_inv S (pool s)" by (simp add: threads_ok_def)
  show ?case
  proof (cases "idle s")
    case False
    then obtain t where t: "t < thrs s" "wst s t = WPop \<Longrightarrow> msgq (wthrinfo (pool s) ! t) \<noteq> []" by (auto simp: idle_def)
    moreover have "wst s t \<noteq> WExit" using less.prems(1) t(1) by (simp add: open_pool_def)
    ultimately obtain s' where s': "thread_step wr s s'" using thread_progress [OF assms(1) ok] by blast
    note o = open_step [OF s' less.prems(1) inv]
    from pool_step_ok [OF assms(1,2) thread_step_pool_step [OF s'] less.prems(2)] o less.prems(3)
      less.hyps [OF thread_step_works [OF s' inv]]
    obtain u where "(thread_step wr)\<^sup>*\<^sup>* s' u" "idle u" "calls u = calls s" by auto
    then show ?thesis using converse_rtranclp_into_rtranclp [of "thread_step wr", OF s'] by blast
  qed blast
qed

lemma thread_steps_reach: "(thread_step wr)\<^sup>*\<^sup>* s u \<Longrightarrow> pool_reach wr p0 w0 s \<Longrightarrow> pool_reach wr p0 w0 u"
  by (induction rule: rtranclp_induct) (blast intro: pool_reach.step thread_step_pool_step)+

definition stopping :: "(c_int \<Rightarrow> 'w \<Rightarrow> byte list) \<Rightarrow> c_int list \<Rightarrow> 'w \<Rightarrow> 'w pool_sys \<Rightarrow> bool" where
  "stopping sent S w0 s \<longleftrightarrow> threads_ok S s \<and> delivered sent S w0 s \<and> closing s \<and> (\<forall>c \<in> set (calls s). small c)"

lemma stopping_step:
  assumes "posix_stream rd wr pend sent" "distinct S" "thread_step wr s s'" "stopping sent S w0 s"
  shows "stopping sent S w0 s' \<and> num_thrs (pool s') = num_thrs (pool s) \<and> calls s' = calls s \<and> pool_work s' < pool_work s"
proof -
  have inv: "pool_inv S (pool s)" using assms(4) by (simp add: stopping_def threads_ok_def)
  from assms(4) have "sys_ok sent S w0 s" by (simp add: stopping_def sys_ok_def)
  from pool_step_ok [OF assms(1,2) thread_step_pool_step [OF assms(3)] this]
    closing_step [OF assms(3) _ inv] thread_step_works [OF assms(3) inv] assms(4)
  show ?thesis by (auto simp: stopping_def sys_ok_def)
qed

lemma stopping_steps:
  assumes "posix_stream rd wr pend sent" "distinct S" "(thread_step wr)\<^sup>*\<^sup>* s u" "stopping sent S w0 s"
  shows "stopping sent S w0 u \<and> num_thrs (pool u) = num_thrs (pool s) \<and> calls u = calls s"
  using assms(3) by induction (use assms(4) stopping_step [OF assms(1,2)] in fastforce)+

lemma stopping_end:
  assumes "stopping sent S w0 u" "\<forall>t<thrs u. wst u t = WExit" "c < length S"
  shows "sent (S ! c) (net u) = sent (S ! c) w0 @ concat (map (bytes_for (thrs u) c) (calls u))"
proof -
  have "c mod thrs u < thrs u" using assms(1) by (auto simp: stopping_def threads_ok_def pool_inv_def Let_def unat_gt_0)
  then have e: "wst u (c mod thrs u) = WExit" "msgq (wthrinfo (pool u) ! (c mod thrs u)) = []"
    using assms(1,2) by (auto simp: stopping_def closing_def thr_closing_def)
  from assms(1,3) have "sent (S ! c) (net u) @ cur (c div thrs u) (wst u (c mod thrs u)) @
      concat (map (out (c div thrs u)) (msgq (wthrinfo (pool u) ! (c mod thrs u)))) =
      sent (S ! c) w0 @ concat (map (bytes_for (thrs u) c) (calls u))"
    by (simp add: stopping_def delivered_def Let_def)
  with e show ?thesis by simp
qed

lemma stopping_ends:
  assumes "posix_stream rd wr pend sent" "distinct S" "stopping sent S w0 (f 0)"
  shows "\<not> (\<forall>n. thread_step wr (f n) (f (Suc n)))"
proof
  assume run: "\<forall>n. thread_step wr (f n) (f (Suc n))"
  then have st: "stopping sent S w0 (f n)" for n
    by (induction n) (use assms(3) stopping_step [OF assms(1,2)] in blast)+
  have "pool_work (f (Suc n)) < pool_work (f n)" for n
    using stopping_step [OF assms(1,2) _ st] run by blast
  then show False using infinite_descent_measure [where V = "\<lambda>n. pool_work (f n)" and P = "\<lambda>_. False"] by blast
qed

text \<open>
  C15. After \<open>stop_all\<close> queued its exit messages in a running pool, the write threads end: however they
  interleave, they cannot go on for ever, and when no thread can make a step all have ended. Then
  every message of every call before the stop has been written to its connections, if these have stayed open, and
  \<open>stop_all\<close> returns 0 once the read threads have ended, too. (That the read threads close the connections is the subject of
  theory \<open>Sock_Run\<close>.)
\<close>

theorem stop_all_completes:
  assumes "posix_stream rd wr pend sent" and "started_pool nthr cs p0" and "distinct (map fst cs)"
    and "pool_reach wr p0 w0 s" and "\<forall>c \<in> set (calls s). small c" and "open_pool s"
    and "stop_all_signal (pool s) = Inr (0, p)"
  shows "(\<forall>f. f 0 = s\<lparr>pool := p\<rparr> \<longrightarrow> \<not> (\<forall>n. thread_step wr (f n) (f (Suc n)))) \<and>
    (\<forall>u. (thread_step wr)\<^sup>*\<^sup>* (s\<lparr>pool := p\<rparr>) u \<longrightarrow> (\<exists>v. thread_step wr u v) \<or>
       (\<forall>c<length cs. sent (fst (cs ! c)) (net u) = sent (fst (cs ! c)) w0 @ concat (map (bytes_for (unat nthr) c) (calls s))) \<and>
       (\<forall>rj. (\<forall>t<unat nthr. rj t = Some 0) \<longrightarrow> stop_all_join (wjoin u) rj [0..<unat nthr] = Some (Inr 0)))"
proof -
  let ?S = "map fst cs" and ?s = "s\<lparr>pool := p\<rparr>"
  note p0 = started_pool_inv [OF assms(2)]
  from pool_reach_ok [OF assms(1,3,4)] p0 assms(5) have ok: "threads_ok ?S s" "delivered sent ?S w0 s"
    by (auto simp: sys_ok_def)
  then have inv: "pool_inv ?S (pool s)" by (simp add: threads_ok_def)
  note cl = stop_closes [OF assms(6) inv assms(7)]
  with stop_ok [OF ok assms(7)] assms(5) have st: "stopping sent ?S w0 ?s" by (simp add: stopping_def)
  have T: "thrs s = unat nthr" using pool_reach_thrs [OF assms(4)] p0 by simp
  have "(\<exists>v. thread_step wr u v) \<or>
      (\<forall>c<length cs. sent (fst (cs ! c)) (net u) = sent (fst (cs ! c)) w0 @ concat (map (bytes_for (unat nthr) c) (calls s))) \<and>
      (\<forall>rj. (\<forall>t<unat nthr. rj t = Some 0) \<longrightarrow> stop_all_join (wjoin u) rj [0..<unat nthr] = Some (Inr 0))"
    if u: "(thread_step wr)\<^sup>*\<^sup>* ?s u" for u
  proof (cases "\<forall>t<thrs u. wst u t = WExit")
    case True
    note su = stopping_steps [OF assms(1,3) u st]
    then have "thrs u = unat nthr" "calls u = calls s" using cl T by simp_all
    then have "wjoin u t = Some 0" if "t < unat nthr" for t using True that by (simp add: wjoin_def)
    then have "stop_all_join (wjoin u) rj [0..<unat nthr] = Some (Inr 0)" if "\<forall>t<unat nthr. rj t = Some 0" for rj
      using that by (intro stop_all_join_done) simp
    moreover have "\<forall>c<length cs. sent (fst (cs ! c)) (net u) =
        sent (fst (cs ! c)) w0 @ concat (map (bytes_for (unat nthr) c) (calls s))"
    proof (intro allI impI)
      fix c assume "c < length cs"
      with stopping_end [OF conjunct1 [OF su] True, of c] \<open>thrs u = unat nthr\<close> \<open>calls u = calls s\<close>
      show "sent (fst (cs ! c)) (net u) = sent (fst (cs ! c)) w0 @ concat (map (bytes_for (unat nthr) c) (calls s))" by simp
    qed
    ultimately show ?thesis by blast
  next
    case False
    then obtain t where t: "t < thrs u" "wst u t \<noteq> WExit" by blast
    from stopping_steps [OF assms(1,3) u st] have ok: "threads_ok ?S u" "closing u" by (simp_all add: stopping_def)
    have "msgq (wthrinfo (pool u) ! t) \<noteq> []" using ok(2) t by (auto simp: closing_def thr_closing_def)
    from thread_progress [OF assms(1) ok(1) t this] show ?thesis ..
  qed
  moreover have "\<forall>f. f 0 = ?s \<longrightarrow> \<not> (\<forall>n. thread_step wr (f n) (f (Suc n)))"
  proof (intro allI impI)
    fix f :: "nat \<Rightarrow> 'a pool_sys"
    assume "f 0 = ?s"
    with st show "\<not> (\<forall>n. thread_step wr (f n) (f (Suc n)))"
      by (intro stopping_ends [OF assms(1,3)]) simp
  qed
  ultimately show ?thesis by blast
qed

text \<open>A pool with two threads that is stopped at once; the witness also gives a state in which it has ended.\<close>

theorem stop_all_completes_witness:
  "\<exists>p0 p. started_pool 2 [(5, []), (6, []), (7, [])] p0 \<and> stop_all_signal p0 = Inr (0, p) \<and>
     (\<forall>f. f 0 = (pool_init p0 (demo_world []))\<lparr>pool := p\<rparr> \<longrightarrow> \<not> (\<forall>n. thread_step seg_write (f n) (f (Suc n))))"
proof -
  define cs :: "(c_int \<times> byte list) list" where "cs = [(5, []), (6, []), (7, [])]"
  obtain p0 where p0: "started_pool 2 cs p0" unfolding cs_def using demo_started_pool by blast
  let ?s = "pool_init p0 (demo_world [])"
  note inv = started_pool_inv [OF p0]
  then have "\<exists>p. stop_all_signal p0 = Inr (0, p)" by (simp add: stop_all_signal_def make_msg_def)
  then obtain p where p: "stop_all_signal p0 = Inr (0, p)" ..
  then have st: "stop_all_signal (pool ?s) = Inr (0, p)" by (simp add: pool_init_def)
  have "msgq (wthrinfo p0 ! t) = []" if "t < unat (num_thrs p0)" for t
    using inv that by (auto simp: pool_inv_def Let_def)
  then have o: "open_pool ?s" by (simp add: open_pool_def pool_init_def)
  have "distinct (map fst cs)" "\<forall>c \<in> set (calls ?s). small c" by (simp_all add: cs_def pool_init_def)
  from stop_all_completes [OF segmented.posix_stream_axioms p0 this(1) pool_reach.start this(2) o st]
  show ?thesis using p0 p unfolding cs_def by blast
qed

end
