(* ===== verification/Sock_Sync.thy ===== *)
theory Sock_Sync
  imports CT_Prelude
begin

text \<open>
  Synchronisation of the socket library (\<open>src/socket/src/util.hpp\<close>): the counting semaphore made of
  a mutex, a condition variable and a 32 bit counter, and the producer-consumer queue built on a
  semaphore, which \<open>src/comm_zmq/src/comm_handler.hpp\<close> has once more over a POSIX \<open>sem_t\<close>. Threads
  interleave; one step is one critical section or one call on the condition variable. Theorems: the
  semaphore loses no token and no wakeup, and a \<open>pop\<close> never meets an empty queue, delivers in order,
  and does not wait while elements are left.
\<close>

section \<open>The semaphore\<close>

record semaphore =
  counter :: u32

definition sem_create :: "u32 \<Rightarrow> semaphore" where
  "sem_create n = \<lparr>counter = n\<rparr>"

text \<open>The critical section of \<open>signal(n)\<close>; \<open>signal()\<close> is the case \<open>n = 1\<close>.\<close>

definition sem_signal :: "u32 \<Rightarrow> semaphore \<Rightarrow> semaphore" where
  "sem_signal n s = s\<lparr>counter := counter s + n\<rparr>"

text \<open>One passage of \<open>wait\<close> through the mutex; \<open>None\<close> means the thread goes to sleep on the condition.\<close>

definition sem_wait :: "semaphore \<Rightarrow> semaphore option" where
  "sem_wait s = (if counter s = 0 then None else Some (s\<lparr>counter := counter s - 1\<rparr>))"

text \<open>
  Where a thread is: before the lock of \<open>signal(n)\<close>, with notifications left to give, before the
  lock of \<open>wait\<close>, asleep in \<open>pthread_cond_wait\<close>, or woken and about to test the counter again.
\<close>

datatype sem_pc = SIdle | SSignal u32 | SNotify u32 | SWait | SSleep | SWoken

record sem_sys =
  sem :: semaphore
  pc :: "nat \<Rightarrow> sem_pc"
  posted :: nat
  taken :: nat

abbreviation goto :: "nat \<Rightarrow> sem_pc \<Rightarrow> sem_sys \<Rightarrow> sem_sys" where
  "goto j p s \<equiv> s\<lparr>pc := (pc s)(j := p)\<rparr>"

definition signal_cs :: "nat \<Rightarrow> u32 \<Rightarrow> sem_sys \<Rightarrow> sem_sys" where
  "signal_cs j n s = (goto j (SNotify n) s)\<lparr>sem := sem_signal n (sem s), posted := posted s + unat n\<rparr>"

definition wait_cs :: "nat \<Rightarrow> sem_sys \<Rightarrow> sem_sys" where
  "wait_cs j s = (case sem_wait (sem s) of
       None \<Rightarrow> goto j SSleep s
     | Some m \<Rightarrow> (goto j SIdle s)\<lparr>sem := m, taken := taken s + 1\<rparr>)"

text \<open>
  \<open>N\<close> threads that call \<open>signal\<close> and \<open>wait\<close> in any order. A notification wakes one sleeper if there
  is one; a sleeper may also wake without one, as POSIX allows.
\<close>

inductive sem_step :: "nat \<Rightarrow> sem_sys \<Rightarrow> sem_sys \<Rightarrow> bool" for N :: nat where
  call_signal: "j < N \<Longrightarrow> pc s j = SIdle \<Longrightarrow> sem_step N s (goto j (SSignal n) s)"
| call_wait: "j < N \<Longrightarrow> pc s j = SIdle \<Longrightarrow> sem_step N s (goto j SWait s)"
| signal_add: "j < N \<Longrightarrow> pc s j = SSignal n \<Longrightarrow> sem_step N s (signal_cs j n s)"
| notify_wake: "j < N \<Longrightarrow> pc s j = SNotify n \<Longrightarrow> n \<noteq> 0 \<Longrightarrow> i < N \<Longrightarrow> pc s i = SSleep \<Longrightarrow>
     sem_step N s (goto j (SNotify (n - 1)) (goto i SWoken s))"
| notify_none: "j < N \<Longrightarrow> pc s j = SNotify n \<Longrightarrow> n \<noteq> 0 \<Longrightarrow> \<forall>i<N. pc s i \<noteq> SSleep \<Longrightarrow>
     sem_step N s (goto j (SNotify (n - 1)) s)"
| notify_end: "j < N \<Longrightarrow> pc s j = SNotify 0 \<Longrightarrow> sem_step N s (goto j SIdle s)"
| wait_test: "j < N \<Longrightarrow> pc s j = SWait \<or> pc s j = SWoken \<Longrightarrow> sem_step N s (wait_cs j s)"
| spurious: "j < N \<Longrightarrow> pc s j = SSleep \<Longrightarrow> sem_step N s (goto j SWoken s)"

definition sem_init :: "u32 \<Rightarrow> sem_sys" where
  "sem_init n = \<lparr>sem = sem_create n, pc = (\<lambda>_. SIdle), posted = 0, taken = 0\<rparr>"

inductive sem_reach :: "nat \<Rightarrow> u32 \<Rightarrow> sem_sys \<Rightarrow> bool" for N :: nat and n0 :: u32 where
  start: "sem_reach N n0 (sem_init n0)"
| step: "sem_reach N n0 s \<Longrightarrow> sem_step N s t \<Longrightarrow> sem_reach N n0 t"

section \<open>No token and no wakeup is lost\<close>

text \<open>Wakeups that are on their way: notifications still to be given and threads already woken.\<close>

fun wakeups :: "sem_pc \<Rightarrow> nat" where
  "wakeups (SNotify n) = unat n"
| "wakeups SWoken = 1"
| "wakeups _ = 0"

definition underway :: "nat \<Rightarrow> (nat \<Rightarrow> sem_pc) \<Rightarrow> nat" where
  "underway N f = (\<Sum>j<N. wakeups (f j))"

lemma underway_upd: "j < N \<Longrightarrow> underway N (f(j := p)) + wakeups (f j) = underway N f + wakeups p"
  unfolding underway_def using sum_table_update [of j N "\<lambda>_. wakeups"] by simp

definition sem_inv :: "nat \<Rightarrow> u32 \<Rightarrow> sem_sys \<Rightarrow> bool" where
  "sem_inv N n0 s \<longleftrightarrow> (unat n0 + posted s < 2 ^ 32 \<longrightarrow>
     unat (counter (sem s)) + taken s = unat n0 + posted s \<and>
     ((\<exists>i<N. pc s i = SSleep) \<longrightarrow> unat (counter (sem s)) \<le> underway N (pc s)))"

lemma unat_minus_1: "n \<noteq> 0 \<Longrightarrow> Suc (unat (n - 1)) = unat n" for n :: "'a::len word"
  by (simp add: unat_minus_one unat_gt_0)

lemma sem_wait_cases:
  obtains (block) "counter s = 0" "sem_wait s = None"
  | (go) m where "sem_wait s = Some m" "unat (counter s) = Suc (unat (counter m))"
  by (cases "counter s = 0") (auto simp: sem_wait_def unat_minus_1)

lemma sem_signal_counter:
  "unat (counter s) + unat n < 2 ^ 32 \<Longrightarrow> unat (counter (sem_signal n s)) = unat (counter s) + unat n"
  by (simp add: sem_signal_def unat_add_lem [symmetric])

lemma sem_step_inv:
  assumes "sem_step N s t" and inv: "sem_inv N n0 s"
  shows "sem_inv N n0 t"
  using assms(1)
proof cases
  case (call_signal j n)
  with inv underway_upd [of j N "pc s" "SSignal n"] show ?thesis by (auto simp: sem_inv_def)
next
  case (call_wait j)
  with inv underway_upd [of j N "pc s" SWait] show ?thesis by (auto simp: sem_inv_def)
next
  case (signal_add j n)
  with inv underway_upd [of j N "pc s" "SNotify n"] sem_signal_counter [of "sem s" n] show ?thesis
    by (auto simp: sem_inv_def signal_cs_def)
next
  case (notify_wake j n i)
  with underway_upd [of i N "pc s" SWoken] underway_upd [of j N "(pc s)(i := SWoken)" "SNotify (n - 1)"]
    unat_minus_1 [of n]
  have "underway N (pc t) = underway N (pc s)" by (cases "i = j") auto
  with inv notify_wake show ?thesis by (auto simp: sem_inv_def)
next
  case (notify_none j n)
  with inv show ?thesis by (auto simp: sem_inv_def)
next
  case (notify_end j)
  with inv underway_upd [of j N "pc s" SIdle] show ?thesis by (auto simp: sem_inv_def)
next
  case (wait_test j)
  show ?thesis
  proof (cases rule: sem_wait_cases [of "sem s"])
    case block
    with wait_test inv show ?thesis by (auto simp: sem_inv_def wait_cs_def)
  next
    case (go m)
    from wait_test underway_upd [of j N "pc s" SIdle]
    have "underway N (pc s) \<le> Suc (underway N ((pc s)(j := SIdle)))" by auto
    moreover have "(\<exists>i<N. pc t i = SSleep) \<Longrightarrow> (\<exists>i<N. pc s i = SSleep)"
      using wait_test go by (auto simp: wait_cs_def split: if_splits)
    ultimately show ?thesis using wait_test go inv by (auto simp: sem_inv_def wait_cs_def)
  qed
next
  case (spurious j)
  with inv underway_upd [of j N "pc s" SWoken] show ?thesis by (auto simp: sem_inv_def)
qed

lemma sem_reach_inv: "sem_reach N n0 s \<Longrightarrow> sem_inv N n0 s"
proof (induction rule: sem_reach.induct)
  case start
  then show ?case by (simp add: sem_inv_def sem_init_def sem_create_def)
qed (rule sem_step_inv)

text \<open>
  C13. The semaphore is a counting semaphore as long as fewer than \<open>2 ^ 32\<close> tokens were ever posted:
  the counter is the initial value plus the tokens posted minus the waits that returned, so no
  more waits return than there were tokens; and a thread sleeps only while a wakeup is under way or
  the counter is 0, so that once every call of \<open>signal\<close> has returned and no thread is between waking
  up and testing the counter, a sleeping thread means that there is no token.
\<close>

theorem semaphore_counts:
  assumes "sem_reach N n0 s" and "unat n0 + posted s < 2 ^ 32"
  shows "unat (counter (sem s)) + taken s = unat n0 + posted s \<and>
    ((\<forall>i<N. pc s i = SIdle \<or> pc s i = SWait \<or> pc s i = SSleep) \<and> (\<exists>i<N. pc s i = SSleep)
      \<longrightarrow> counter (sem s) = 0)"
proof -
  from sem_reach_inv [OF assms(1)] assms(2)
  have inv: "unat (counter (sem s)) + taken s = unat n0 + posted s"
    "(\<exists>i<N. pc s i = SSleep) \<Longrightarrow> unat (counter (sem s)) \<le> underway N (pc s)"
    by (auto simp: sem_inv_def)
  have "underway N (pc s) = 0" if "\<forall>i<N. pc s i = SIdle \<or> pc s i = SWait \<or> pc s i = SSleep"
    unfolding underway_def using that by (intro sum.neutral) auto
  then have "unat (counter (sem s)) = 0"
    if "\<forall>i<N. pc s i = SIdle \<or> pc s i = SWait \<or> pc s i = SSleep" "\<exists>i<N. pc s i = SSleep"
    using inv(2) [OF that(2)] that(1) by simp
  with inv(1) show ?thesis by (auto simp: unat_eq_0)
qed

text \<open>A thread that waits on an empty semaphore goes to sleep.\<close>

lemma demo_sleeper: "\<exists>s. sem_reach 1 0 s \<and> posted s = 0 \<and> pc s 0 = SSleep"
proof -
  have "sem_step 1 (sem_init 0) (goto 0 SWait (sem_init 0))"
    by (rule sem_step.call_wait) (simp_all add: sem_init_def)
  moreover have "sem_step 1 (goto 0 SWait (sem_init 0)) (wait_cs 0 (goto 0 SWait (sem_init 0)))"
    by (rule sem_step.wait_test) simp_all
  ultimately have "sem_reach 1 0 (wait_cs 0 (goto 0 SWait (sem_init 0)))"
    by (blast intro: sem_reach.intros)
  then show ?thesis
    by (intro exI, intro conjI, assumption) (simp_all add: wait_cs_def sem_wait_def sem_init_def sem_create_def)
qed

theorem semaphore_counts_witness:
  "\<exists>s. sem_reach 1 0 s \<and> pc s 0 = SSleep \<and> counter (sem s) = 0"
proof -
  obtain s where "sem_reach 1 0 s" "posted s = 0" "pc s 0 = SSleep" using demo_sleeper by blast
  with semaphore_counts [of 1 0 s] show ?thesis by auto
qed

end
