(* ===== verification/Pc_Queue.thy ===== *)
theory Pc_Queue
  imports Sock_Sync
begin

text \<open>
  The producer-consumer queue \<open>pcqueue\<close>: a \<open>std::queue\<close> under a mutex and a semaphore that counts its
  elements. The source has it twice, over its own semaphore (\<open>src/socket/src/util.hpp\<close>) and over a
  POSIX \<open>sem_t\<close> (\<open>src/comm_zmq/src/comm_handler.hpp\<close>), so the queue is modelled over the two
  operations of a semaphore and its lemmas are proved from the contract of a counting semaphore,
  which both semaphores are shown to satisfy.
\<close>

section \<open>The contract of a semaphore\<close>

text \<open>\<open>cap\<close> is the largest count the semaphore can hold.\<close>

locale counting_semaphore =
  fixes tokens :: "'s \<Rightarrow> nat"
    and cap :: nat
    and post :: "u32 \<Rightarrow> 's \<Rightarrow> 's"
    and acquire :: "'s \<Rightarrow> 's option"
  assumes tokens_post: "tokens s + unat n \<le> cap \<Longrightarrow> tokens (post n s) = tokens s + unat n"
    and acquire_None: "acquire s = None \<longleftrightarrow> tokens s = 0"
    and acquire_Some: "acquire s = Some s' \<Longrightarrow> tokens s = Suc (tokens s')"
    and cap_word: "cap < 2 ^ 32"

text \<open>The semaphore of the socket library.\<close>

interpretation socket_sem: counting_semaphore "\<lambda>s. unat (counter s)" "2 ^ 32 - 1" sem_signal sem_wait
proof
  show "unat (counter s) + unat n \<le> 2 ^ 32 - 1 \<Longrightarrow> unat (counter (sem_signal n s)) = unat (counter s) + unat n" for s n
    by (rule sem_signal_counter) simp
  show "sem_wait s = None \<longleftrightarrow> unat (counter s) = 0" for s
    by (simp add: sem_wait_def unat_eq_0)
  show "sem_wait s = Some m \<Longrightarrow> unat (counter s) = Suc (unat (counter m))" for s m
    by (cases rule: sem_wait_cases [of s]) auto
qed simp

text \<open>
  The POSIX \<open>sem_t\<close>: \<open>sem_post\<close> adds one unless the value is \<open>SEM_VALUE_MAX\<close> (then it fails and the
  caller ignores it), \<open>sem_wait\<close> takes one or blocks. The queue posts one at a time.
\<close>

definition SEM_VALUE_MAX :: nat where "SEM_VALUE_MAX = 2 ^ 31 - 1"

definition posix_post :: "u32 \<Rightarrow> nat \<Rightarrow> nat" where
  "posix_post n s = ((\<lambda>v. if v < SEM_VALUE_MAX then v + 1 else v) ^^ unat n) s"

definition posix_wait :: "nat \<Rightarrow> nat option" where
  "posix_wait s = (case s of 0 \<Rightarrow> None | Suc v \<Rightarrow> Some v)"

lemma posix_post_funpow:
  "s + k \<le> SEM_VALUE_MAX \<Longrightarrow> ((\<lambda>v. if v < SEM_VALUE_MAX then v + 1 else v) ^^ k) s = s + k"
  by (induction k) simp_all

interpretation posix_sem: counting_semaphore "\<lambda>s. s" SEM_VALUE_MAX posix_post posix_wait
proof
  show "s + unat n \<le> SEM_VALUE_MAX \<Longrightarrow> posix_post n s = s + unat n" for s and n :: u32
    by (simp add: posix_post_def posix_post_funpow)
qed (auto simp: posix_wait_def SEM_VALUE_MAX_def split: nat.splits)

section \<open>The queue\<close>

text \<open>
  Where a thread is: outside, before the lock of \<open>push\<close> with the elements to push, before the
  signal of the semaphore, waiting for the semaphore, before the lock of \<open>pop\<close>, or after an access
  outside an array or to the front of an empty queue.
\<close>

datatype 'a pcq_pc = PIdle | PPush "'a list" int | PSignal u32 | PWait | PFront | PCrash

record ('a, 's) pcqueue =
  q :: "'a list"
  pcq_sem :: 's
  thr :: "nat \<Rightarrow> 'a pcq_pc"
  pushed :: "'a list"
  popped :: "'a list"

text \<open>\<open>push(T t[], int n)\<close> under the mutex; \<open>push(T t)\<close> is the case \<open>[t]\<close>, 1. Then \<open>sem.signal(n)\<close>.\<close>

definition push_cs :: "nat \<Rightarrow> 'a list \<Rightarrow> int \<Rightarrow> ('a, 's) pcqueue \<Rightarrow> ('a, 's) pcqueue" where
  "push_cs j t n s =
     (if int (length t) < n then s\<lparr>thr := (thr s)(j := PCrash)\<rparr>
      else let els = take (nat n) t in
        s\<lparr>q := q s @ els, pushed := pushed s @ els, thr := (thr s)(j := PSignal (word_of_int n))\<rparr>)"

definition push_signal :: "(u32 \<Rightarrow> 's \<Rightarrow> 's) \<Rightarrow> nat \<Rightarrow> u32 \<Rightarrow> ('a, 's) pcqueue \<Rightarrow> ('a, 's) pcqueue" where
  "push_signal post j n s = s\<lparr>pcq_sem := post n (pcq_sem s), thr := (thr s)(j := PIdle)\<rparr>"

text \<open>\<open>pop\<close>: pass the semaphore, then take the front element under the mutex.\<close>

definition pop_wait :: "('s \<Rightarrow> 's option) \<Rightarrow> nat \<Rightarrow> ('a, 's) pcqueue \<Rightarrow> ('a, 's) pcqueue option" where
  "pop_wait acquire j s =
     (case acquire (pcq_sem s) of
        None \<Rightarrow> None
      | Some m \<Rightarrow> Some (s\<lparr>pcq_sem := m, thr := (thr s)(j := PFront)\<rparr>))"

definition pop_cs :: "nat \<Rightarrow> ('a, 's) pcqueue \<Rightarrow> ('a, 's) pcqueue" where
  "pop_cs j s =
     (case q s of
        [] \<Rightarrow> s\<lparr>thr := (thr s)(j := PCrash)\<rparr>
      | t # ts \<Rightarrow> s\<lparr>q := ts, popped := popped s @ [t], thr := (thr s)(j := PIdle)\<rparr>)"

text \<open>\<open>N\<close> threads; a caller of \<open>push\<close> passes the length of its array.\<close>

inductive pcq_step :: "(u32 \<Rightarrow> 's \<Rightarrow> 's) \<Rightarrow> ('s \<Rightarrow> 's option) \<Rightarrow> nat \<Rightarrow> ('a, 's) pcqueue \<Rightarrow> ('a, 's) pcqueue \<Rightarrow> bool"
  for post :: "u32 \<Rightarrow> 's \<Rightarrow> 's" and acquire :: "'s \<Rightarrow> 's option" and N :: nat where
  call_push: "j < N \<Longrightarrow> thr s j = PIdle \<Longrightarrow> n = int (length t) \<Longrightarrow>
     pcq_step post acquire N s (s\<lparr>thr := (thr s)(j := PPush t n)\<rparr>)"
| call_pop: "j < N \<Longrightarrow> thr s j = PIdle \<Longrightarrow> pcq_step post acquire N s (s\<lparr>thr := (thr s)(j := PWait)\<rparr>)"
| do_push: "j < N \<Longrightarrow> thr s j = PPush t n \<Longrightarrow> pcq_step post acquire N s (push_cs j t n s)"
| do_signal: "j < N \<Longrightarrow> thr s j = PSignal n \<Longrightarrow> pcq_step post acquire N s (push_signal post j n s)"
| do_wait: "j < N \<Longrightarrow> thr s j = PWait \<Longrightarrow> pop_wait acquire j s = Some t \<Longrightarrow> pcq_step post acquire N s t"
| do_pop: "j < N \<Longrightarrow> thr s j = PFront \<Longrightarrow> pcq_step post acquire N s (pop_cs j s)"

definition pcq_init :: "'s \<Rightarrow> ('a, 's) pcqueue" where
  "pcq_init s0 = \<lparr>q = [], pcq_sem = s0, thr = (\<lambda>_. PIdle), pushed = [], popped = []\<rparr>"

inductive pcq_reach :: "(u32 \<Rightarrow> 's \<Rightarrow> 's) \<Rightarrow> ('s \<Rightarrow> 's option) \<Rightarrow> nat \<Rightarrow> 's \<Rightarrow> ('a, 's) pcqueue \<Rightarrow> bool"
  for post :: "u32 \<Rightarrow> 's \<Rightarrow> 's" and acquire :: "'s \<Rightarrow> 's option" and N :: nat and s0 :: 's where
  start: "pcq_reach post acquire N s0 (pcq_init s0)"
| step: "pcq_reach post acquire N s0 s \<Longrightarrow> pcq_step post acquire N s t \<Longrightarrow> pcq_reach post acquire N s0 t"

section \<open>What the queue keeps\<close>

text \<open>The share of the queue that a thread has claimed or not yet announced.\<close>

fun claim :: "'a pcq_pc \<Rightarrow> nat" where
  "claim (PSignal n) = unat n"
| "claim PFront = 1"
| "claim _ = 0"

definition claims :: "nat \<Rightarrow> (nat \<Rightarrow> 'a pcq_pc) \<Rightarrow> nat" where
  "claims N f = (\<Sum>j<N. claim (f j))"

lemma claims_upd: "j < N \<Longrightarrow> claims N (f(j := p)) + claim (f j) = claims N f + claim p"
  unfolding claims_def using sum_table_update [of j N "\<lambda>_. claim"] by simp

lemma claim_le: "j < N \<Longrightarrow> claim (f j) \<le> claims N f"
  unfolding claims_def by (rule member_le_sum) auto

text \<open>A thread inside \<open>push\<close> has an array of the length it passed, and none has crashed.\<close>

definition pc_sane :: "'a pcq_pc \<Rightarrow> bool" where
  "pc_sane p = (case p of PPush t n \<Rightarrow> n = int (length t) | PCrash \<Rightarrow> False | _ \<Rightarrow> True)"

context counting_semaphore
begin

definition pcq_inv :: "nat \<Rightarrow> ('a, 's) pcqueue \<Rightarrow> bool" where
  "pcq_inv N s \<longleftrightarrow> (length (pushed s) \<le> cap \<longrightarrow>
     pushed s = popped s @ q s \<and>
     tokens (pcq_sem s) + claims N (thr s) = length (q s) \<and> (\<forall>j<N. pc_sane (thr s j)))"

lemma pcq_inv_I:
  assumes "length (pushed t) \<le> cap \<Longrightarrow> pushed t = popped t @ q t"
    and "length (pushed t) \<le> cap \<Longrightarrow> tokens (pcq_sem t) + claims N (thr t) = length (q t)"
    and "length (pushed t) \<le> cap \<Longrightarrow> (\<forall>j<N. pc_sane (thr t j))"
  shows "pcq_inv N t"
  using assms by (auto simp: pcq_inv_def)

lemma pcq_push_inv:
  assumes inv: "pcq_inv N s" and j: "j < N" "thr s j = PPush t n"
  shows "pcq_inv N (push_cs j t n s)"
proof (cases "length (pushed s) \<le> cap")
  case True
  with inv j have h: "pushed s = popped s @ q s" "tokens (pcq_sem s) + claims N (thr s) = length (q s)"
    "\<forall>j<N. pc_sane (thr s j)" "n = int (length t)"
    by (auto simp: pcq_inv_def pc_sane_def dest: spec [of _ j])
  have "length t < 2 ^ 32" if "length (pushed s) + length t \<le> cap" using that cap_word by simp
  with h j claims_upd [OF j(1), of "thr s" "PSignal (word_of_int n)"] show ?thesis
    by (intro pcq_inv_I) (auto simp: push_cs_def pc_sane_def unat_of_nat take_bit_nat_eq_self)
next
  case False
  then have "\<not> length (pushed (push_cs j t n s)) \<le> cap" by (simp add: push_cs_def Let_def)
  then show ?thesis by (simp add: pcq_inv_def)
qed

lemma pcq_step_inv:
  assumes "pcq_step post acquire N s t" and inv: "pcq_inv N s"
  shows "pcq_inv N t"
  using assms(1)
proof cases
  case (call_push j n ts)
  with inv claims_upd [of j N "thr s" "PPush ts n"] show ?thesis by (auto simp: pcq_inv_def pc_sane_def)
next
  case (call_pop j)
  with inv claims_upd [of j N "thr s" PWait] show ?thesis by (auto simp: pcq_inv_def pc_sane_def)
next
  case (do_push j ts n)
  with inv pcq_push_inv show ?thesis by blast
next
  case (do_signal j n)
  from do_signal claim_le [of j N "thr s"] have le: "unat n \<le> claims N (thr s)" by simp
  have "tokens (post n (pcq_sem s)) = tokens (pcq_sem s) + unat n" if "length (pushed s) \<le> cap"
    using inv le that by (intro tokens_post) (auto simp: pcq_inv_def)
  with do_signal inv claims_upd [of j N "thr s" PIdle] show ?thesis
    by (auto simp: pcq_inv_def pc_sane_def push_signal_def)
next
  case (do_wait j)
  then obtain m where "acquire (pcq_sem s) = Some m" "t = s\<lparr>pcq_sem := m, thr := (thr s)(j := PFront)\<rparr>"
    by (auto simp: pop_wait_def split: option.splits)
  with do_wait inv claims_upd [of j N "thr s" PFront] acquire_Some show ?thesis
    by (auto simp: pcq_inv_def pc_sane_def)
next
  case (do_pop j)
  from do_pop claim_le [of j N "thr s"] have "1 \<le> claims N (thr s)" by simp
  with do_pop inv claims_upd [of j N "thr s" PIdle] show ?thesis
    by (auto simp: pcq_inv_def pc_sane_def pop_cs_def split: list.splits)
qed

lemma pcq_reach_inv: "pcq_reach post acquire N s0 s \<Longrightarrow> tokens s0 = 0 \<Longrightarrow> pcq_inv N s"
proof (induction rule: pcq_reach.induct)
  case start
  then show ?case by (simp add: pcq_inv_def pcq_init_def claims_def pc_sane_def)
qed (auto intro: pcq_step_inv)

text \<open>No crash, first in first out, and nobody waits while elements are unclaimed.\<close>

lemma pcqueue_safe:
  assumes "pcq_reach post acquire N s0 s" "tokens s0 = 0" "length (pushed s) \<le> cap"
  shows "(\<forall>j<N. thr s j \<noteq> PCrash) \<and> pushed s = popped s @ q s"
  using pcq_reach_inv [OF assms(1,2)] assms(3) by (auto simp: pcq_inv_def pc_sane_def)

lemma pcqueue_live:
  assumes "pcq_reach post acquire N s0 s" "tokens s0 = 0" "length (pushed s) \<le> cap"
    and "\<forall>j<N. thr s j = PIdle \<or> thr s j = PWait" "q s \<noteq> []" "j < N" "thr s j = PWait"
  shows "pop_wait acquire j s \<noteq> None"
proof -
  have "claims N (thr s) = 0" unfolding claims_def using assms(4) by (intro sum.neutral) auto
  with pcq_reach_inv [OF assms(1,2)] assms(3,5) have "0 < tokens (pcq_sem s)" by (auto simp: pcq_inv_def)
  then show ?thesis using acquire_None by (auto simp: pop_wait_def split: option.splits)
qed

end

section \<open>The two queues of the source\<close>

text \<open>
  C12. The queue of the socket library with any number of producers and consumers: while fewer
  than \<open>2 ^ 32\<close> elements were pushed, no \<open>pop\<close> reads the front of an empty queue, the elements popped are
  the oldest elements pushed, in order, and when no call is in progress but waiting ones, a
  waiting \<open>pop\<close> can go on as long as an element is there.
\<close>

theorem socket_pcqueue:
  fixes s :: "('a, semaphore) pcqueue"
  assumes "pcq_reach sem_signal sem_wait N (sem_create 0) s" and "length (pushed s) < 2 ^ 32"
  shows "(\<forall>j<N. thr s j \<noteq> PCrash) \<and> pushed s = popped s @ q s \<and>
    ((\<forall>j<N. thr s j = PIdle \<or> thr s j = PWait) \<and> q s \<noteq> [] \<longrightarrow>
      (\<forall>j<N. thr s j = PWait \<longrightarrow> pop_wait sem_wait j s \<noteq> None))"
proof -
  have h: "unat (counter (sem_create 0)) = 0" "length (pushed s) \<le> 2 ^ 32 - 1"
    using assms(2) by (simp_all add: sem_create_def)
  from socket_sem.pcqueue_safe [OF assms(1) h] socket_sem.pcqueue_live [OF assms(1) h] show ?thesis
    by blast
qed

text \<open>A run in which one thread pushes an element and another one waits for it.\<close>

lemma demo_pcq_run:
  "\<exists>s :: (nat, 's) pcqueue. pcq_reach post acquire 2 s0 s \<and> pushed s = [7] \<and> q s = [7] \<and>
     thr s 0 = PIdle \<and> thr s 1 = PWait"
proof -
  let ?s1 = "(pcq_init s0)\<lparr>thr := (thr (pcq_init s0 :: (nat, 's) pcqueue))(0 := PPush [7] 1)\<rparr>"
  let ?s2 = "push_cs 0 [7] 1 ?s1"
  let ?s3 = "push_signal post 0 1 ?s2"
  let ?s4 = "?s3\<lparr>thr := (thr ?s3)(1 := PWait)\<rparr>"
  have "pcq_step post acquire 2 (pcq_init s0) ?s1"
    by (rule pcq_step.call_push) (simp_all add: pcq_init_def)
  from pcq_reach.step [OF pcq_reach.start this] have "pcq_reach post acquire 2 s0 ?s1" .
  moreover have "pcq_step post acquire 2 ?s1 ?s2"
    by (rule pcq_step.do_push) simp_all
  ultimately have "pcq_reach post acquire 2 s0 ?s2" by (rule pcq_reach.step)
  moreover have "pcq_step post acquire 2 ?s2 ?s3"
    by (rule pcq_step.do_signal) (simp_all add: push_cs_def Let_def)
  ultimately have "pcq_reach post acquire 2 s0 ?s3" by (rule pcq_reach.step)
  moreover have "pcq_step post acquire 2 ?s3 ?s4"
    by (rule pcq_step.call_pop) (simp_all add: push_cs_def push_signal_def pcq_init_def Let_def)
  ultimately have "pcq_reach post acquire 2 s0 ?s4" by (rule pcq_reach.step)
  then show ?thesis
    by (intro exI, intro conjI, assumption) (simp_all add: push_cs_def push_signal_def pcq_init_def Let_def)
qed

theorem socket_pcqueue_witness:
  "\<exists>s :: (nat, semaphore) pcqueue. pcq_reach sem_signal sem_wait 2 (sem_create 0) s \<and>
     q s = [7] \<and> thr s 1 = PWait \<and> pop_wait sem_wait 1 s \<noteq> None"
proof -
  obtain s :: "(nat, semaphore) pcqueue" where s: "pcq_reach sem_signal sem_wait 2 (sem_create 0) s"
    "pushed s = [7]" "q s = [7]" "thr s 0 = PIdle" "thr s 1 = PWait"
    using demo_pcq_run by metis
  have "\<forall>j<2. thr s j = PIdle \<or> thr s j = PWait" using s(4,5) by (simp add: numeral_2_eq_2 All_less_Suc)
  then have "\<forall>j<2. thr s j = PWait \<longrightarrow> pop_wait sem_wait j s \<noteq> None"
    using socket_pcqueue [OF s(1)] s(2,3) by simp
  then have "pop_wait sem_wait 1 s \<noteq> None" using s(5) by simp
  with s show ?thesis by blast
qed

text \<open>
  The same for the queue of new clients in the ZeroMQ handler, whose semaphore is a POSIX \<open>sem_t\<close>,
  while fewer than \<open>2 ^ 31\<close> elements were pushed.
\<close>

lemma zmq_pcqueue:
  fixes s :: "('a, nat) pcqueue"
  assumes "pcq_reach posix_post posix_wait N 0 s" and "length (pushed s) < 2 ^ 31"
  shows "(\<forall>j<N. thr s j \<noteq> PCrash) \<and> pushed s = popped s @ q s \<and>
    ((\<forall>j<N. thr s j = PIdle \<or> thr s j = PWait) \<and> q s \<noteq> [] \<longrightarrow>
      (\<forall>j<N. thr s j = PWait \<longrightarrow> pop_wait posix_wait j s \<noteq> None))"
proof -
  have h: "(0::nat) = 0" "length (pushed s) \<le> SEM_VALUE_MAX" using assms(2) by (simp_all add: SEM_VALUE_MAX_def)
  from posix_sem.pcqueue_safe [OF assms(1) h] posix_sem.pcqueue_live [OF assms(1) h] show ?thesis
    by blast
qed

lemma zmq_pcqueue_witness:
  "\<exists>s :: (nat, nat) pcqueue. pcq_reach posix_post posix_wait 2 0 s \<and>
     q s = [7] \<and> thr s 1 = PWait \<and> pop_wait posix_wait 1 s \<noteq> None"
proof -
  obtain s :: "(nat, nat) pcqueue" where s: "pcq_reach posix_post posix_wait 2 0 s"
    "pushed s = [7]" "q s = [7]" "thr s 0 = PIdle" "thr s 1 = PWait"
    using demo_pcq_run by metis
  have "\<forall>j<2. thr s j = PIdle \<or> thr s j = PWait" using s(4,5) by (simp add: numeral_2_eq_2 All_less_Suc)
  then have "\<forall>j<2. thr s j = PWait \<longrightarrow> pop_wait posix_wait j s \<noteq> None"
    using zmq_pcqueue [OF s(1)] s(2,3) by simp
  then have "pop_wait posix_wait 1 s \<noteq> None" using s(5) by simp
  with s show ?thesis by blast
qed

end
