(* ===== verification/Sock_Programs.thy ===== *)
theory Sock_Programs
  imports Sock_Read Sock_Stop Pc_Queue
begin

text \<open>
  The two programs of the socket test: \<open>src/socket/src/worker.cpp\<close>, which sends back the message it receives, and
  \<open>src/socket/src/scheduler.cpp\<close>, which accepts its workers, broadcasts a greeting and waits for one answer.
  The options are arguments (the command line is read by Boost); closing a socket has no effect in the model.
  Theorems: a worker echoes a message of fewer than 20 bytes and runs over its buffer on a longer one; the
  scheduler ends up with a running pool that has its workers as connections in the order they were accepted.
\<close>

section \<open>The worker\<close>

text \<open>\<open>buff\<close> is the uninitialised array of 20 bytes; \<open>buff[rsize] = 0\<close> is out of range from 20 bytes on.\<close>

definition worker_main :: "(int \<Rightarrow> int \<Rightarrow> int \<Rightarrow> 'w \<Rightarrow> int \<times> 'w) \<Rightarrow> (string \<Rightarrow> int \<times> byte list) \<Rightarrow>
    (c_int \<Rightarrow> byte list \<Rightarrow> 'w \<Rightarrow> int \<times> 'w) \<Rightarrow> 'w sys_read \<Rightarrow> 'w sys_write \<Rightarrow> (nat \<Rightarrow> byte list) \<Rightarrow> byte list \<Rightarrow> byte list \<Rightarrow>
    string \<Rightarrow> u16 \<Rightarrow> 'w \<Rightarrow> (int outcome \<times> 'w) option" where
  "worker_main socket pton conn rd wr fresh msglen0 buff sip sport w =
     (case tcp_socket socket w of (ssock, w) \<Rightarrow>
        if ssock < 0 then Some (Inl Abort, w)
        else case tcp_connect pton conn (word_of_int ssock) sip sport w of (success, w) \<Rightarrow>
          if success < 0 then Some (Inl Abort, w)
          else case tcp_read rd fresh msglen0 (word_of_int ssock) buff 20 w of
            None \<Rightarrow> None
          | Some (Inl e, w) \<Rightarrow> Some (Inl e, w)
          | Some (Inr r, w) \<Rightarrow>
              if \<not> 0 < sint (ret r) then Some (Inl Abort, w)
              else if length buff \<le> unat (ret r) then Some (Inl Undefined, w)
              else
                let buff = (if use_tempbuf r then buff else contents r)[unat (ret r) := 0]
                in case tcp_write wr (word_of_int ssock) buff (ret r) w of
                     None \<Rightarrow> None
                   | Some (n, w) \<Rightarrow> Some (Inr 0, w))"

lemma ret_sendable:
  assumes "sendable m" "unat (r :: c_int) = length m"
  shows "0 < sint r \<and> r = of_nat (length m)"
proof -
  have "r = of_nat (length m)" using assms(2) by (metis of_nat_unat ucast_id)
  then show ?thesis using assms(1) int_of_small(1) [of "length m"] by (auto simp: sendable_def)
qed

lemma worker_echo:
  assumes "duplex_stream rd wr pend sent" and "length msglen0 = 4" and "\<forall>n. length (fresh n) = n" and "length buff = 20"
    and "tcp_socket socket v = (k, v1)" and "0 \<le> k"
    and "tcp_connect pton conn (word_of_int k) sip sport v1 = (r, v2)" and "0 \<le> r"
    and "sendable m" and "pend (word_of_int k) v2 = frame m @ rest"
  shows "\<exists>v'. if length m < 20
    then worker_main socket pton conn rd wr fresh msglen0 buff sip sport v = Some (Inr 0, v') \<and>
      sent (word_of_int k) v' = sent (word_of_int k) v2 @ frame m
    else worker_main socket pton conn rd wr fresh msglen0 buff sip sport v = Some (Inl Undefined, v')"
proof -
  let ?fd = "word_of_int k :: c_int"
  note px = duplex_stream.axioms(1) [OF assms(1)]
  have l: "unat (20 :: dsize_t) \<le> length buff" using assms(4) by simp
  from assms(3) posix_stream.tcp_read_unframes [OF px assms(9,10,2) l] obtain q w1 where
    q: "tcp_read rd fresh msglen0 ?fd buff 20 v2 = Some (Inr q, w1)" "unat (ret q) = length m"
    "take (length m) (contents q) = m" "use_tempbuf q \<longleftrightarrow> unat (20 :: dsize_t) < length m"
    "\<not> use_tempbuf q \<longrightarrow> length (contents q) = length buff" by blast
  have sent1: "sent ?fd w1 = sent ?fd v2" using duplex_stream.tcp_read_sent [OF assms(1) q(1)] .
  note ret = ret_sendable [OF assms(9) q(2)]
  show ?thesis
  proof (cases "length m < 20")
    case True
    then have nt: "\<not> use_tempbuf q" using q(4) by simp
    define b where "b = (contents q)[unat (ret q) := 0]"
    have "m = take (length m) b" using q(2,3) by (simp add: b_def take_update_cancel)
    from posix_stream.tcp_write_prefix [OF px assms(9) this, of ?fd w1] obtain w2 where
      w2: "tcp_write wr ?fd b (ret q) w1 = Some (of_nat (length m), w2)" "sent ?fd w2 = sent ?fd w1 @ frame m"
      using ret by auto
    have "worker_main socket pton conn rd wr fresh msglen0 buff sip sport v = Some (Inr 0, w2)"
      using True assms(4-8) q conjunct1 [OF ret] nt w2(1) by (simp add: worker_main_def Let_def b_def)
    with True w2(2) sent1 show ?thesis by auto
  next
    case False
    then have "worker_main socket pton conn rd wr fresh msglen0 buff sip sport v = Some (Inl Undefined, w1)"
      using assms(4-8) q(1,2) conjunct1 [OF ret] by (simp add: worker_main_def)
    with False show ?thesis by auto
  qed
qed

text \<open>
  C28. A worker whose socket connects and on which a message is waiting: with fewer than 20 bytes it sends
  exactly this message back, as one message, and exits with 0; with 20 bytes or more it writes outside
  its buffer.
\<close>

theorem worker_echoes:
  assumes "duplex_stream rd wr pend sent" and "length msglen0 = 4" and "\<forall>n. length (fresh n) = n" and "length buff = 20"
    and "tcp_socket socket v = (k, v1)" and "0 \<le> k"
    and "tcp_connect pton conn (word_of_int k) sip sport v1 = (r, v2)" and "0 \<le> r"
    and "sendable m" and "pend (word_of_int k) v2 = frame m @ rest"
  shows "\<exists>v'. if length m < 20
    then worker_main socket pton conn rd wr fresh msglen0 buff sip sport v = Some (Inr 0, v') \<and>
      sent (word_of_int k) v' = sent (word_of_int k) v2 @ frame m
    else worker_main socket pton conn rd wr fresh msglen0 buff sip sport v = Some (Inl Undefined, v')"
  using assms by (rule worker_echo)

theorem worker_echoes_witness:
  "\<exists>v'. worker_main (\<lambda>_ _ _ w. (5, w)) (\<lambda>_. (1, [127, 0, 0, 1])) (\<lambda>_ _ w. (0, w)) seg_read seg_write (\<lambda>n. replicate n 0)
      [0, 0, 0, 0] (replicate 20 0) ''127.0.0.1'' 9999 (demo_world (frame [1, 2, 3])) = Some (Inr 0, v') \<and>
    outb v' 5 = frame [1, 2, 3]"
proof -
  have "tcp_socket (\<lambda>_ _ _ w. (5, w)) (demo_world (frame [1, 2, 3])) = (5, demo_world (frame [1, 2, 3]))"
    by (simp add: tcp_socket_def)
  from worker_echoes [OF segmented_duplex.duplex_stream_axioms, of "[0, 0, 0, 0]" "\<lambda>n. replicate n 0" "replicate 20 0",
      OF _ _ _ this, of "\<lambda>_. (1, [127, 0, 0, 1])" "\<lambda>_ _ w. (0, w)" "''127.0.0.1''" 9999 0 "demo_world (frame [1, 2, 3])"
      "[1, 2, 3]" "[]"]
  show ?thesis by (simp add: tcp_connect_def sendable_def demo_world_def)
qed

section \<open>The scheduler\<close>

text \<open>\<open>inc_cnt\<close>, the callback: one token for every message received.\<close>

definition inc_cnt :: "nat \<Rightarrow> nat" where
  "inc_cnt n = posix_post 1 n"

definition hello :: "byte list" where "hello = [104, 101, 108, 108, 111, 119, 111, 114, 108, 100]"

text \<open>The loop that accepts \<open>max_conns\<close> connections; the result of \<open>add_conn\<close> is ignored.\<close>

fun accept_loop :: "(c_int \<Rightarrow> int \<Rightarrow> 'w \<Rightarrow> int \<times> 'w) \<Rightarrow> (c_int \<Rightarrow> 'w \<Rightarrow> (int \<times> nat \<times> byte list) \<times> 'w) \<Rightarrow> (byte list \<Rightarrow> bool) \<Rightarrow>
    c_int \<Rightarrow> nat \<Rightarrow> tcpthreadpool \<Rightarrow> 'w \<Rightarrow> tcpthreadpool outcome \<times> 'w" where
  "accept_loop listen acc ntop ssock 0 netmgr w = (Inr netmgr, w)"
| "accept_loop listen acc ntop ssock (Suc n) netmgr w =
     (case tcp_listen listen ssock w of (success, w) \<Rightarrow>
        if success < 0 then (Inl Abort, w)
        else case tcp_accept acc ntop ssock w of
          (Inl e, w) \<Rightarrow> (Inl e, w)
        | (Inr (connsock, clientaddr), w) \<Rightarrow>
            if connsock < 0 then (Inl Abort, w)
            else case add_conn (word_of_int connsock) clientaddr netmgr of
              Inl e \<Rightarrow> (Inl e, w)
            | Inr (_, netmgr) \<Rightarrow> accept_loop listen acc ntop ssock n netmgr w)"

text \<open>
  \<open>main\<close> up to \<open>start_all\<close>, for experiment 1. The constructor's arguments are those of \<open>tcpthreadpool_create\<close>.
\<close>

definition scheduler_setup :: "(int \<Rightarrow> int \<Rightarrow> int \<Rightarrow> 'w \<Rightarrow> int \<times> 'w) \<Rightarrow> (string \<Rightarrow> int \<times> byte list) \<Rightarrow>
    (c_int \<Rightarrow> byte list \<Rightarrow> 'w \<Rightarrow> int \<times> 'w) \<Rightarrow> (c_int \<Rightarrow> int \<Rightarrow> 'w \<Rightarrow> int \<times> 'w) \<Rightarrow>
    (c_int \<Rightarrow> 'w \<Rightarrow> (int \<times> nat \<times> byte list) \<times> 'w) \<Rightarrow> (byte list \<Rightarrow> bool) \<Rightarrow> tcpthreadpool outcome \<Rightarrow> int list \<Rightarrow>
    string \<Rightarrow> u16 \<Rightarrow> u16 \<Rightarrow> 'w \<Rightarrow> tcpthreadpool outcome \<times> 'w" where
  "scheduler_setup socket pton bind listen acc ntop made rets ip port maxc w =
     (case tcp_socket socket w of (ssock, w) \<Rightarrow>
        if ssock < 0 then (Inl Abort, w)
        else case tcp_bind pton bind (word_of_int ssock) ip port w of (success, w) \<Rightarrow>
          if success < 0 then (Inl Abort, w)
          else case made of
            Inl e \<Rightarrow> (Inl e, w)
          | Inr netmgr \<Rightarrow>
              (case accept_loop listen acc ntop (word_of_int ssock) (unat maxc) netmgr w of
                 (Inl e, w) \<Rightarrow> (Inl e, w)
               | (Inr netmgr, w) \<Rightarrow> (Inr (snd (start_all rets netmgr)), w)))"

text \<open>The connections the loop is given: what \<open>accept\<close> returns, with world passing.\<close>

fun accepts :: "(c_int \<Rightarrow> int \<Rightarrow> 'w \<Rightarrow> int \<times> 'w) \<Rightarrow> (c_int \<Rightarrow> 'w \<Rightarrow> (int \<times> nat \<times> byte list) \<times> 'w) \<Rightarrow> (byte list \<Rightarrow> bool) \<Rightarrow>
    c_int \<Rightarrow> (c_int \<times> byte list) list \<Rightarrow> 'w \<Rightarrow> 'w \<Rightarrow> bool" where
  "accepts listen acc ntop ssock [] w w' \<longleftrightarrow> w' = w"
| "accepts listen acc ntop ssock ((fd, a) # cs) w w' \<longleftrightarrow>
     (\<exists>s k w1 w2. tcp_listen listen ssock w = (s, w1) \<and> 0 \<le> s \<and> acc ssock w1 = ((k, 16, a), w2) \<and> 0 \<le> k \<and>
        ntop a \<and> fd = word_of_int k \<and> accepts listen acc ntop ssock cs w2 w')"

lemma accept_loop_adds:
  assumes "accepts listen acc ntop ssock cs w w'" "add_conns cs p = Inr (ids, p')"
  shows "accept_loop listen acc ntop ssock (length cs) p w = (Inr p', w')"
  using assms
proof (induction cs arbitrary: w p ids)
  case (Cons c cs)
  obtain fd a where c: "c = (fd, a)" by (cases c)
  from Cons.prems(2) c obtain i p1 ids' where p1: "add_conn fd a p = Inr (i, p1)" "add_conns cs p1 = Inr (ids', p')"
    by (auto simp: andthen_eq_Inr_iff)
  from Cons.prems(1) c obtain s k w1 w2 where w: "tcp_listen listen ssock w = (s, w1)" "0 \<le> s"
    "acc ssock w1 = ((k, 16, a), w2)" "0 \<le> k" "ntop a" "fd = word_of_int k" "accepts listen acc ntop ssock cs w2 w'"
    by auto
  from Cons.IH [OF w(7) p1(2)] w p1(1) c show ?case by (simp add: tcp_accept_def)
qed simp

lemma accept_loop_refuses:
  assumes "accepts listen acc ntop ssock cs w w'" "\<forall>fd a. add_conn fd a p = Inr (i, p)"
  shows "accept_loop listen acc ntop ssock (length cs) p w = (Inr p, w')"
  using assms(1)
proof (induction cs arbitrary: w)
  case (Cons c cs)
  obtain fd a where c: "c = (fd, a)" by (cases c)
  from Cons.prems c obtain s k w1 w2 where w: "tcp_listen listen ssock w = (s, w1)" "0 \<le> s"
    "acc ssock w1 = ((k, 16, a), w2)" "0 \<le> k" "ntop a" "fd = word_of_int k" "accepts listen acc ntop ssock cs w2 w'"
    by auto
  from Cons.IH [OF w(7)] w assms(2) c show ?case by (simp add: tcp_accept_def)
qed simp

lemma scheduler_setup_runs:
  assumes "tcp_socket socket w = (k, w1)" "0 \<le> k" "tcp_bind pton bind (word_of_int k) ip port w1 = (r, w2)" "0 \<le> r"
    and "accept_loop listen acc ntop (word_of_int k) (unat maxc) p0 w2 = (Inr p1, w3)" "\<not> running p1" "\<forall>r \<in> set rets. 0 \<le> r"
  shows "scheduler_setup socket pton bind listen acc ntop (Inr p0) rets ip port maxc w = (Inr (p1\<lparr>running := True\<rparr>), w3)"
    and "start_all rets p1 = (0, p1\<lparr>running := True\<rparr>)"
proof -
  show "start_all rets p1 = (0, p1\<lparr>running := True\<rparr>)"
    using assms(6,7) by (auto simp: start_all_def dest!: in_set_takeD)
  with assms(1-5) show "scheduler_setup socket pton bind listen acc ntop (Inr p0) rets ip port maxc w = (Inr (p1\<lparr>running := True\<rparr>), w3)"
    by (simp add: scheduler_setup_def)
qed


text \<open>A world in which \<open>accept\<close> hands out the descriptors 5, 6, 7 and so on.\<close>

definition demo_accept :: "c_int \<Rightarrow> nat \<Rightarrow> (int \<times> nat \<times> byte list) \<times> nat" where
  "demo_accept s n = ((int n + 5, 16, replicate 16 0), Suc n)"


section \<open>The exchange\<close>

lemma sendable_hello: "sendable hello" "length hello < 20" "small (ToAll hello)"
  by (simp_all add: sendable_def hello_def)

definition callbacks :: "'a list \<Rightarrow> nat \<Rightarrow> nat" where
  "callbacks evs n = fold (\<lambda>_. inc_cnt) evs n"

lemma callbacks_count: "n + length evs \<le> SEM_VALUE_MAX \<Longrightarrow> callbacks evs n = n + length evs"
  unfolding callbacks_def by (induction evs arbitrary: n) (auto simp: inc_cnt_def posix_post_def)

lemma thread_socks:
  assumes "info_ok T t mx S info" "t < T" "length S \<le> mx"
  shows "take (unat (num_socks info)) (socks info) = map (\<lambda>k. S ! (k * T + t)) [0..<cnt T t (length S)]"
proof (rule nth_equalityI)
  have "cnt T t (length S) \<le> cnt T t mx"
  proof (rule ccontr)
    assume "\<not> ?thesis"
    then have "cnt T t mx * T + t < length S" "\<not> cnt T t mx * T + t < mx" using less_cnt [OF assms(2)] by (auto simp: not_le)
    with assms(3) show False by simp
  qed
  with assms(1) show "length (take (unat (num_socks info)) (socks info)) = length (map (\<lambda>k. S ! (k * T + t)) [0..<cnt T t (length S)])"
    by (simp add: info_ok_def)
qed (use assms(1) in \<open>simp add: info_ok_def\<close>)

lemma filter_one: "distinct xs \<Longrightarrow> x \<in> set xs \<Longrightarrow> filter (\<lambda>y. y = x) xs = [x]"
  by (induction xs) (auto simp: filter_empty_conv)

text \<open>The connections of a thread: every \<open>T\<close>-th of the pool, no connection twice.\<close>

lemma thread_conns:
  assumes "info_ok T t mx S info" "t < T" "length S \<le> mx" "distinct S"
  shows "distinct (take (unat (num_socks info)) (socks info))"
    and "set (take (unat (num_socks info)) (socks info)) = {S ! c |c. c < length S \<and> c mod T = t}"
proof -
  let ?n = "cnt T t (length S)"
  note fds = thread_socks [OF assms(1-3)]
  have lt: "k * T + t < length S \<longleftrightarrow> k < ?n" for k using less_cnt [OF assms(2)] by simp
  have "inj_on (\<lambda>k. S ! (k * T + t)) {0..<?n}"
    using assms(2,4) lt by (intro inj_onI) (auto simp: nth_eq_iff_index_eq)
  then show "distinct (take (unat (num_socks info)) (socks info))" unfolding fds by (simp add: distinct_map)
  have "S ! c \<in> (\<lambda>k. S ! (k * T + t)) ` {0..<?n}" if "c < length S" "c mod T = t" for c
  proof -
    have "c = c div T * T + t" using that(2) by auto
    with that(1) lt [of "c div T"] show ?thesis by (intro image_eqI [of _ _ "c div T"]) auto
  qed
  moreover have "\<exists>c<length S. S ! (k * T + t) = S ! c \<and> c mod T = t" if "k < ?n" for k
    using that assms(2) lt by (intro exI [of _ "k * T + t"]) simp
  ultimately show "set (take (unat (num_socks info)) (socks info)) = {S ! c |c. c < length S \<and> c mod T = t}"
    unfolding fds by fastforce
qed

lemma reader_socks:
  assumes "pool_inv S p" "distinct S" "c < length S" "T = unat (num_thrs p)" "info = rthrinfo p ! (c mod T)"
  shows "distinct (take (unat (num_socks info)) (socks info)) \<and>
    filter (\<lambda>fd. fd = S ! c) (take (unat (num_socks info)) (socks info)) = [S ! c]"
proof -
  have t: "c mod T < T" using assms(1,4) by (auto simp: pool_inv_def Let_def unat_gt_0)
  with assms have ok: "info_ok T (c mod T) (unat (max_conns p)) S info" "length S \<le> unat (max_conns p)"
    by (auto simp: pool_inv_def Let_def)
  note tc = thread_conns [OF ok(1) t ok(2) assms(2)]
  with assms(3) have "S ! c \<in> set (take (unat (num_socks info)) (socks info))" by blast
  with filter_one [OF tc(1) this] tc(1) show ?thesis by blast
qed

text \<open>
  C19. The whole exchange: when the scheduler has broadcast its greeting and its write threads are idle, each worker
  that has received what was written to its connection sends the greeting back and exits with 0; and when
  the answer of a worker has arrived, the scheduler's read thread of this connection calls \<open>inc_cnt\<close> with the greeting, so that
  the \<open>sem_wait\<close> of the scheduler does not block.
\<close>

theorem hello_exchange:
  assumes server: "duplex_stream rd wr pend sent" and pool: "started_pool nthr cs p" "distinct (map fst cs)"
    and run: "pool_reach wr p w0 s" "calls s = [ToAll hello]"
    and idle: "idle s" and c: "c < length cs"
    and worker: "duplex_stream rd2 wr2 pend2 sent2" "length msglen0 = 4" "\<forall>n. length (fresh n) = n" "length buff = 20"
      "tcp_socket socket v = (k, v1)" "0 \<le> k" "tcp_connect pton conn (word_of_int k) sip sport v1 = (r, v2)" "0 \<le> r"
      "sent2 (word_of_int k) v2 = []"
    and there: "sent (fst (cs ! c)) (net s) = sent (fst (cs ! c)) w0 @ pend2 (word_of_int k) v2"
    and reader: "info = rthrinfo (pool s) ! (c mod unat nthr)"
  shows "\<exists>v'. worker_main socket pton conn rd2 wr2 fresh msglen0 buff sip sport v = Some (Inr 0, v') \<and>
    (\<forall>w. pend (fst (cs ! c)) w = sent2 (word_of_int k) v' \<longrightarrow>
       (\<exists>evs buf' w'. start_read_round rd fresh msglen0 (\<lambda>fd. fd = fst (cs ! c)) info w = Some (Inr (evs, False, buf', w')) \<and>
          map (\<lambda>(n, d). take (unat n) d) evs = [hello] \<and> posix_wait (callbacks evs 0) = Some 0))"
proof -
  let ?fd = "fst (cs ! c)" and ?k = "word_of_int k :: c_int"
  note px = duplex_stream.axioms(1) [OF server]
  have small: "\<forall>c \<in> set (calls s). small c" using run(2) sendable_hello(3) by simp
  note p = started_pool_inv [OF pool(1)]
  have T: "unat nthr = unat (num_thrs (pool s))" using pool_reach_thrs [OF run(1)] p by simp
  from pool_written [OF px pool run(1) small c] idle run(2) T
  have "sent ?fd (net s) = sent ?fd w0 @ frame hello" by (auto simp: idle_def)
  with there have "pend2 ?k v2 = frame hello @ []" by simp
  from worker_echo [OF worker(1-8) sendable_hello(1) this] sendable_hello(2) worker(9) obtain v' where
    v': "worker_main socket pton conn rd2 wr2 fresh msglen0 buff sip sport v = Some (Inr 0, v')" "sent2 ?k v' = frame hello"
    by auto
  from pool_reach_ok [OF px pool(2) run(1)] p small have inv: "pool_inv (map fst cs) (pool s)"
    by (auto simp: sys_ok_def threads_ok_def)
  have fd: "map fst cs ! c = ?fd" "c < length (map fst cs)" using c by simp_all
  note socks = reader_socks [OF inv pool(2) fd(2) T reader, unfolded fd(1)]
  have "info \<in> set (rthrinfo (pool s))" using inv T reader by (auto simp: pool_inv_def Let_def unat_gt_0)
  then have info: "unat (bufsize info) \<le> length (rdbuf info)" "rdfd info \<noteq> ?fd"
    using started_pool_readers [OF pool(1)] pool_reach_thrs [OF run(1)] c by (auto simp: image_iff)
  have "\<exists>evs buf' w'. start_read_round rd fresh msglen0 (\<lambda>fd. fd = ?fd) info w = Some (Inr (evs, False, buf', w')) \<and>
      map (\<lambda>(n, d). take (unat n) d) evs = [hello] \<and> posix_wait (callbacks evs 0) = Some 0"
    if w: "pend ?fd w = frame hello" for w
  proof -
    have "\<forall>fd \<in> set (take (unat (num_socks info)) (socks info)). fd = ?fd \<longrightarrow> sendable hello \<and> pend fd w = frame hello @ []"
      using w sendable_hello(1) by simp
    from read_round_delivers [OF px worker(2,3) conjunct1 [OF socks] info(1) this] info(2) socks obtain evs buf' w' where
      e: "start_read_round rd fresh msglen0 (\<lambda>fd. fd = ?fd) info w = Some (Inr (evs, False, buf', w'))"
      "map (\<lambda>(n, d). take (unat n) d) evs = [hello]" by auto
    then have "length evs = 1" by (metis length_map One_nat_def length_Cons list.size(3))
    then have "posix_wait (callbacks evs 0) = Some 0" by (simp add: callbacks_count SEM_VALUE_MAX_def posix_wait_def)
    with e show ?thesis by (intro exI conjI)
  qed
  with v' show ?thesis by auto
qed

lemma demo_broadcast:
  "\<exists>p s. started_pool 2 [(5, []), (6, []), (7, [])] p \<and> pool_reach seg_write p (demo_world []) s \<and>
     calls s = [ToAll hello] \<and> idle s"
proof -
  define cs :: "(c_int \<times> byte list) list" where "cs = [(5, []), (6, []), (7, [])]"
  obtain p where p: "started_pool 2 cs p" unfolding cs_def using demo_started_pool by blast
  note inv = started_pool_inv [OF p]
  let ?s0 = "pool_init p (demo_world [])"
  define m where "m = \<lparr>mtype = WRITE, mdata = le32 10 @ take 10 hello, mlen = 14, msock = - 1\<rparr>"
  define p' where "p' = fold (\<lambda>i. push_msg i m) [0..<unat (num_thrs p)] p"
  have b: "broadcast hello 10 (pool ?s0) = Inr (0, p')"
    using inv by (simp add: broadcast_def make_msg_def m_def p'_def pool_init_def hello_def)
  let ?s = "log_call 0 (ToAll (take (unat (10 :: u32)) hello)) p' ?s0"
  from pool_reach.step [OF pool_reach.start pool_step.call_broadcast [OF b]]
  have r: "pool_reach seg_write p (demo_world []) ?s" .
  have c: "calls ?s = [ToAll hello]" by (simp add: log_call_def pool_init_def hello_def)
  have S: "distinct (map fst cs)" by (simp add: cs_def)
  have ok: "sys_ok (\<lambda>fd w. outb w fd) (map fst cs) (demo_world []) ?s"
    using pool_reach_ok [OF segmented.posix_stream_axioms S r] inv by blast
  have len: "length (wthrinfo p) = unat (num_thrs p)" using inv by (simp add: pool_inv_def Let_def)
  have "queued {..<unat (num_thrs p)} m p p'" unfolding p'_def using len by (intro queued_fold) simp
  then have "msgq (wthrinfo p' ! t) = [m]" if "t < unat (num_thrs p)" for t
    using that inv len by (simp add: queued_def)
  then have "open_pool ?s" by (simp add: open_pool_def log_call_def pool_init_def m_def p'_def)
  from pool_drains [OF segmented.posix_stream_axioms S this ok] c sendable_hello(3) obtain u where
    "(thread_step seg_write)\<^sup>*\<^sup>* ?s u" "idle u" "calls u = calls ?s" by auto
  then show ?thesis using thread_steps_reach [OF _ r] p c unfolding cs_def by metis
qed

theorem hello_exchange_witness:
  "\<exists>p s v'. started_pool 2 [(5, []), (6, []), (7, [])] p \<and> pool_reach seg_write p (demo_world []) s \<and> calls s = [ToAll hello] \<and>
     worker_main (\<lambda>_ _ _ w. (5, w)) (\<lambda>_. (1, [127, 0, 0, 1])) (\<lambda>_ _ w. (0, w)) seg_read seg_write (\<lambda>n. replicate n 0)
       [0, 0, 0, 0] (replicate 20 0) ''127.0.0.1'' 9999 (demo_world (frame hello)) = Some (Inr 0, v')"
proof -
  define cs :: "(c_int \<times> byte list) list" where "cs = [(5, []), (6, []), (7, [])]"
  obtain p s where s: "started_pool 2 cs p" "pool_reach seg_write p (demo_world []) s" "calls s = [ToAll hello]" "idle s"
    unfolding cs_def using demo_broadcast by blast
  have S: "distinct (map fst cs)" "0 < length cs" "fst (cs ! 0) = 5" by (simp_all add: cs_def)
  have small: "\<forall>c \<in> set (calls s). small c" using s(3) sendable_hello(3) by simp
  have T: "unat (2 :: u16) = thrs s" using pool_reach_thrs [OF s(2)] started_pool_inv [OF s(1)] by simp
  from pool_written [OF segmented.posix_stream_axioms s(1) S(1) s(2) small S(2)] s(3,4) T
  have w: "outb (net s) (fst (cs ! 0)) = outb (demo_world []) (fst (cs ! 0)) @ inb (demo_world (frame hello)) (word_of_int 5)"
    by (auto simp: idle_def demo_world_def)
  have k: "tcp_socket (\<lambda>_ _ _ w. (5, w)) (demo_world (frame hello)) = (5, demo_world (frame hello))"
    "tcp_connect (\<lambda>_. (1, [127, 0, 0, 1])) (\<lambda>_ _ w. (0, w)) (word_of_int 5) ''127.0.0.1'' 9999 (demo_world (frame hello)) =
       (0, demo_world (frame hello))" "outb (demo_world (frame hello)) (word_of_int 5) = []"
    by (simp_all add: tcp_socket_def tcp_connect_def demo_world_def)
  have b: "length [0, 0, 0, 0 :: byte] = 4" "\<forall>n. length (replicate n (0 :: byte)) = n" "length (replicate 20 (0 :: byte)) = 20"
    "(0 :: int) \<le> 5" "(0 :: int) \<le> 0" by simp_all
  from hello_exchange [OF segmented_duplex.duplex_stream_axioms s(1) S(1) s(2,3,4) S(2) segmented_duplex.duplex_stream_axioms
      b(1-3) k(1) b(4) k(2) b(5) k(3) w refl]
  obtain v' where "worker_main (\<lambda>_ _ _ w. (5, w)) (\<lambda>_. (1, [127, 0, 0, 1])) (\<lambda>_ _ w. (0, w)) seg_read seg_write (\<lambda>n. replicate n 0)
       [0, 0, 0, 0] (replicate 20 0) ''127.0.0.1'' 9999 (demo_world (frame hello)) = Some (Inr 0, v')" by (elim exE conjE)
  with s(1-3) show ?thesis unfolding cs_def by (intro exI conjI)
qed

end
