(* ===== verification/Sock_Run.thy ===== *)
theory Sock_Run
  imports Sock_Programs
begin

text \<open>
  The scheduler program of the socket test after its set-up (\<open>src/socket/src/scheduler.cpp\<close>): the main thread, which
  broadcasts its greeting, waits for the semaphore and stops the pool, together with all write threads and all read
  threads of the pool in one step relation, while workers answer and hang up at any time. A read thread that ends closes the
  sockets, which its write thread may still want to write to; a write to a closed descriptor fails. Theorems: every execution comes to
  its end, apart from idle rounds of read threads, and it ends with the program returning after an answer
  was received or, when no worker answers, waiting; and the greeting of a worker can be lost when the pool is stopped.
\<close>

section \<open>The running program\<close>

datatype main_pc = MBroadcast | MWait | MStop | MJoin | MExit

text \<open>
  \<open>rdone\<close> tells which read threads have ended, \<open>shut\<close> lists the descriptors they have closed, \<open>sem\<close> is the semaphore.
  \<open>got\<close> records the messages the callback was given; the program does not have it.
\<close>

record 'w run_sys =
  sys :: "'w pool_sys"
  rdone :: "nat \<Rightarrow> bool"
  shut :: "c_int list"
  sem :: nat
  mpc :: main_pc
  got :: "byte list list"

definition run_init :: "tcpthreadpool \<Rightarrow> 'w \<Rightarrow> 'w run_sys" where
  "run_init p w = \<lparr>sys = pool_init p w, rdone = (\<lambda>_. False), shut = [], sem = 0, mpc = MBroadcast, got = []\<rparr>"

definition scheduler_main :: "int \<Rightarrow> (int \<Rightarrow> int \<Rightarrow> int \<Rightarrow> 'w \<Rightarrow> int \<times> 'w) \<Rightarrow> (string \<Rightarrow> int \<times> byte list) \<Rightarrow>
    (c_int \<Rightarrow> byte list \<Rightarrow> 'w \<Rightarrow> int \<times> 'w) \<Rightarrow> (c_int \<Rightarrow> int \<Rightarrow> 'w \<Rightarrow> int \<times> 'w) \<Rightarrow>
    (c_int \<Rightarrow> 'w \<Rightarrow> (int \<times> nat \<times> byte list) \<times> 'w) \<Rightarrow> (byte list \<Rightarrow> bool) \<Rightarrow> tcpthreadpool outcome \<Rightarrow> int list \<Rightarrow>
    string \<Rightarrow> u16 \<Rightarrow> u16 \<Rightarrow> 'w \<Rightarrow> 'w run_sys outcome" where
  "scheduler_main exp socket pton bind listen acc ntop made rets ip port maxc w =
     (if exp \<noteq> 1 then Inl (Exit 0)
      else case scheduler_setup socket pton bind listen acc ntop made rets ip port maxc w of
        (Inl e, w) \<Rightarrow> Inl e
      | (Inr netmgr, w) \<Rightarrow> Inr (run_init netmgr w))"

text \<open>\<open>stop_all\<close> closes the pipes of the read threads; a write to a closed descriptor fails and writes nothing.\<close>

definition pipes_closed :: "main_pc \<Rightarrow> bool" where
  "pipes_closed m \<longleftrightarrow> m = MJoin \<or> m = MExit"

definition shut_write :: "c_int list \<Rightarrow> 'w sys_write \<Rightarrow> 'w sys_write" where
  "shut_write fds wr fd data w = (if fd \<in> set fds then (- 1, w) else wr fd data w)"

definition set_rinfo :: "nat \<Rightarrow> tcpthrinfo_t \<Rightarrow> tcpthreadpool \<Rightarrow> tcpthreadpool" where
  "set_rinfo t i p = p\<lparr>rthrinfo := (rthrinfo p)[t := i]\<rparr>"

abbreviation conns_of :: "tcpthrinfo_t \<Rightarrow> c_int list" where
  "conns_of i \<equiv> take (unat (num_socks i)) (socks i)"

abbreviation rinfo :: "'w run_sys \<Rightarrow> nat \<Rightarrow> tcpthrinfo_t" where
  "rinfo s t \<equiv> rthrinfo (pool (sys s)) ! t"

text \<open>
  What \<open>select\<close> reports to a read thread: connections with bytes waiting, connections whose worker has hung up
  (\<open>gone\<close>), and the pipe once it is closed.
\<close>

definition readable :: "(c_int \<Rightarrow> 'w \<Rightarrow> byte list) \<Rightarrow> (c_int \<Rightarrow> 'w \<Rightarrow> bool) \<Rightarrow> main_pc \<Rightarrow> tcpthrinfo_t \<Rightarrow> 'w \<Rightarrow> c_int \<Rightarrow> bool" where
  "readable pend gone m info w fd \<longleftrightarrow> (if fd = rdfd info then pipes_closed m else pend fd w \<noteq> [] \<or> gone fd w)"

text \<open>The state after a round of read thread \<open>t\<close>: the callback posted the semaphore for every message.\<close>

definition after_round :: "nat \<Rightarrow> (c_int \<times> byte list) list \<Rightarrow> bool \<Rightarrow> byte list \<Rightarrow> 'w \<Rightarrow> 'w run_sys \<Rightarrow> 'w run_sys" where
  "after_round t evs ended buf w s =
     s\<lparr>sys := (sys s)\<lparr>net := w, pool := set_rinfo t ((rinfo s t)\<lparr>rdbuf := buf\<rparr>) (pool (sys s))\<rparr>,
       rdone := (rdone s)(t := ended), shut := (if ended then conns_of (rinfo s t) @ [rdfd (rinfo s t)] else []) @ shut s,
       sem := callbacks evs (sem s), got := got s @ map (\<lambda>(n, d). take (unat n) d) evs\<rparr>"

text \<open>
  One step is a step of a write thread, a round of a read thread whose \<open>select\<close> returns, or a step of the main thread, for which
  the loop of \<open>broadcast\<close> over the queues and the first loop of \<open>stop_all\<close> are one step each. A thread that is to abort has no step.
\<close>

inductive run_step :: "'w sys_read \<Rightarrow> 'w sys_write \<Rightarrow> (c_int \<Rightarrow> 'w \<Rightarrow> byte list) \<Rightarrow> (c_int \<Rightarrow> 'w \<Rightarrow> bool) \<Rightarrow>
    (nat \<Rightarrow> byte list) \<Rightarrow> byte list \<Rightarrow> 'w run_sys \<Rightarrow> 'w run_sys \<Rightarrow> bool"
  for rd :: "'w sys_read" and wr :: "'w sys_write" and pend :: "c_int \<Rightarrow> 'w \<Rightarrow> byte list"
    and gone :: "c_int \<Rightarrow> 'w \<Rightarrow> bool" and fresh :: "nat \<Rightarrow> byte list" and msglen0 :: "byte list" where
  wthr: "thread_step (shut_write (shut s) wr) (sys s) u \<Longrightarrow> run_step rd wr pend gone fresh msglen0 s (s\<lparr>sys := u\<rparr>)"
| rthr: "t < thrs (sys s) \<Longrightarrow> \<not> rdone s t \<Longrightarrow> ready = readable pend gone (mpc s) (rinfo s t) (net (sys s)) \<Longrightarrow>
     \<exists>fd \<in> set (conns_of (rinfo s t) @ [rdfd (rinfo s t)]). ready fd \<Longrightarrow>
     start_read_round rd fresh msglen0 ready (rinfo s t) (net (sys s)) = Some (Inr (evs, ended, buf, w)) \<Longrightarrow>
     run_step rd wr pend gone fresh msglen0 s (after_round t evs ended buf w s)"
| bcast: "mpc s = MBroadcast \<Longrightarrow> broadcast hello (of_nat (length hello)) (pool (sys s)) = Inr (r, p) \<Longrightarrow>
     run_step rd wr pend gone fresh msglen0 s (s\<lparr>sys := log_call r (ToAll hello) p (sys s), mpc := MWait\<rparr>)"
| semw: "mpc s = MWait \<Longrightarrow> posix_wait (sem s) = Some n \<Longrightarrow>
     run_step rd wr pend gone fresh msglen0 s (s\<lparr>sem := n, mpc := MStop\<rparr>)"
| stop: "mpc s = MStop \<Longrightarrow> stop_all_signal (pool (sys s)) = Inr (r, p) \<Longrightarrow>
     run_step rd wr pend gone fresh msglen0 s (s\<lparr>sys := (sys s)\<lparr>pool := p\<rparr>, mpc := MJoin\<rparr>)"
| join: "mpc s = MJoin \<Longrightarrow>
     stop_all_join (wjoin (sys s)) (\<lambda>t. if rdone s t then Some 0 else None) [0..<thrs (sys s)] = Some (Inr r) \<Longrightarrow>
     run_step rd wr pend gone fresh msglen0 s (s\<lparr>mpc := MExit\<rparr>)"

text \<open>At any time workers may send whole messages or hang up.\<close>

definition arrives :: "(c_int \<Rightarrow> 'w \<Rightarrow> byte list) \<Rightarrow> (c_int \<Rightarrow> 'w \<Rightarrow> byte list) \<Rightarrow> (c_int \<Rightarrow> 'w \<Rightarrow> bool) \<Rightarrow> 'w \<Rightarrow> 'w \<Rightarrow> bool" where
  "arrives pend sent gone w w' \<longleftrightarrow> (\<forall>fd. sent fd w' = sent fd w \<and> (gone fd w \<longrightarrow> gone fd w' \<and> pend fd w' = pend fd w) \<and>
     (\<exists>ms. (\<forall>m \<in> set ms. sendable m) \<and> pend fd w' = pend fd w @ concat (map frame ms)))"

inductive run_reach :: "'w sys_read \<Rightarrow> 'w sys_write \<Rightarrow> (c_int \<Rightarrow> 'w \<Rightarrow> byte list) \<Rightarrow> (c_int \<Rightarrow> 'w \<Rightarrow> byte list) \<Rightarrow>
    (c_int \<Rightarrow> 'w \<Rightarrow> bool) \<Rightarrow> (nat \<Rightarrow> byte list) \<Rightarrow> byte list \<Rightarrow> 'w run_sys \<Rightarrow> 'w run_sys \<Rightarrow> bool"
  for rd :: "'w sys_read" and wr :: "'w sys_write" and pend sent :: "c_int \<Rightarrow> 'w \<Rightarrow> byte list"
    and gone :: "c_int \<Rightarrow> 'w \<Rightarrow> bool" and fresh :: "nat \<Rightarrow> byte list" and msglen0 :: "byte list" and s0 :: "'w run_sys" where
  start: "run_reach rd wr pend sent gone fresh msglen0 s0 s0"
| step: "run_reach rd wr pend sent gone fresh msglen0 s0 s \<Longrightarrow> run_step rd wr pend gone fresh msglen0 s t \<Longrightarrow>
     run_reach rd wr pend sent gone fresh msglen0 s0 t"
| arrive: "run_reach rd wr pend sent gone fresh msglen0 s0 s \<Longrightarrow> arrives pend sent gone (net (sys s)) w \<Longrightarrow>
     run_reach rd wr pend sent gone fresh msglen0 s0 (s\<lparr>sys := (sys s)\<lparr>net := w\<rparr>\<rparr>)"

section \<open>Writes to closed descriptors\<close>

lemma writen_loop_cong:
  "writen_loop wr fd b len i w = Some y \<Longrightarrow> wr' fd = wr fd \<Longrightarrow> writen_loop wr' fd b len i w = Some y"
proof (induction rule: writen_loop.raw_induct [rotated, consumes 1, case_names step])
  case (step loop r fd b len i w y)
  obtain k w1 where k: "r fd (slice (unat i) (unat (len - i)) b) w = (k, w1)"
    by (cases "r fd (slice (unat i) (unat (len - i)) b) w")
  have "writen_loop wr' fd b len j w1 = Some y" if "loop r fd b len j w1 = Some y" for j
    using step.IH [OF that step.prems] .
  with step.hyps step.prems k show ?case
    by (subst writen_loop.simps) (auto simp: Let_def split: if_splits)
qed

lemma writen_shut:
  assumes "msg_ok n m" "mtype m = WRITE"
  shows "writen (shut_write X wr) fd (mdata m) (ucast (mlen m)) w =
    (if fd \<in> set X then Some (if mlen m = 0 then 0 else - 1, w) else writen wr fd (mdata m) (ucast (mlen m)) w)"
proof (cases "fd \<in> set X")
  case True
  have "(0 :: u64) < ucast (mlen m) \<longleftrightarrow> mlen m \<noteq> 0" by (simp add: word_less_nat_alt word_unat_eq_iff)
  with True show ?thesis by (auto simp: writen_def writen_loop.simps shut_write_def Let_def)
next
  case False
  then have eq: "shut_write X wr fd = wr fd" by (intro ext) (simp add: shut_write_def)
  have "writen_loop (shut_write X wr) fd b len i w = writen_loop wr fd b len i w" for b len i w
    using writen_loop_cong [of wr fd b len i w _ "shut_write X wr"] writen_loop_cong [of "shut_write X wr" fd b len i w _ wr] eq
    by (cases "writen_loop wr fd b len i w"; cases "writen_loop (shut_write X wr) fd b len i w") auto
  with False show ?thesis by (simp add: writen_def)
qed

section \<open>A round of a read thread\<close>

text \<open>
  The network of the pool: a read of a connection whose worker has hung up, and on which nothing is waiting, gives the end of the
  stream; a read or a write does not make a worker hang up. \<open>fresh\<close> and \<open>msglen0\<close> have the size of the objects they stand for.
\<close>

locale pool_net = duplex_stream rd wr pend sent
  for rd :: "'w sys_read" and wr :: "'w sys_write" and pend sent :: "c_int \<Rightarrow> 'w \<Rightarrow> byte list" +
  fixes gone :: "c_int \<Rightarrow> 'w \<Rightarrow> bool"
    and fresh :: "nat \<Rightarrow> byte list"
    and msglen0 :: "byte list"
  assumes gone_eof: "gone fd w \<Longrightarrow> pend fd w = [] \<Longrightarrow> rd fd n w = (Some [], w)"
    and rd_gone: "gone fd' (snd (rd fd n w)) = gone fd' w"
    and wr_gone: "gone fd' (snd (wr fd data w)) = gone fd' w"
    and fresh_length: "length (fresh k) = k"
    and msglen0_length: "length msglen0 = 4"
begin

lemma tcp_read_gone: "tcp_read rd fresh msglen0 sock buff maxsize w = Some (r, w') \<Longrightarrow> gone fd' w' = gone fd' w"
  by (erule tcp_read_obs [where obs = "gone fd'"]) (simp add: rd_gone)

lemma tcp_read_hung_up:
  "gone fd w \<Longrightarrow> pend fd w = [] \<Longrightarrow>
     tcp_read rd fresh msglen0 fd buf n w = Some (Inr \<lparr>ret = 0, contents = buf, use_tempbuf = False\<rparr>, w)"
  using gone_eof [of fd w] by (simp add: tcp_read_def readn_def read_size_def read_into_def blit_def Let_def)

lemma read_socks_round:
  assumes "distinct fds" "unat bsize \<le> length buf"
    and "\<forall>fd \<in> set fds. (\<forall>m \<in> set (ms fd). sendable m) \<and> pend fd w = concat (map frame (ms fd)) \<and>
      (ready fd \<longleftrightarrow> ms fd \<noteq> [] \<or> gone fd w)"
  shows "\<exists>evs buf' w'. read_socks rd fresh msglen0 ready bsize fds buf w = Some (Inr (evs, buf', w')) \<and>
    map (\<lambda>(n, d). take (unat n) d) evs = concat (map (\<lambda>fd. take 1 (ms fd)) fds) \<and> length buf' = length buf \<and>
    (\<forall>fd. pend fd w' = (if fd \<in> set fds then concat (map frame (tl (ms fd))) else pend fd w)) \<and>
    (\<forall>fd. sent fd w' = sent fd w) \<and> ((\<forall>fd \<in> set fds. ms fd = []) \<longrightarrow> buf' = buf \<and> w' = w)"
  using assms
proof (induction fds arbitrary: buf w)
  case (Cons fd fds)
  show ?case
  proof (cases "ms fd")
    case Nil
    then have p: "pend fd w = []" using Cons.prems(3) by simp
    have "\<forall>fd \<in> set fds. (\<forall>m \<in> set (ms fd). sendable m) \<and> pend fd w = concat (map frame (ms fd)) \<and>
        (ready fd \<longleftrightarrow> ms fd \<noteq> [] \<or> gone fd w)" "distinct fds" "ready fd \<longrightarrow> gone fd w" using Cons.prems(1,3) Nil by auto
    note h = this
    from Cons.IH [OF h(2) Cons.prems(2) h(1)] obtain evs buf' w' where
      rec: "read_socks rd fresh msglen0 ready bsize fds buf w = Some (Inr (evs, buf', w'))"
      "map (\<lambda>(n, d). take (unat n) d) evs = concat (map (\<lambda>fd. take 1 (ms fd)) fds)" "length buf' = length buf"
      "\<forall>fd. pend fd w' = (if fd \<in> set fds then concat (map frame (tl (ms fd))) else pend fd w)"
      "\<forall>fd. sent fd w' = sent fd w" "(\<forall>fd \<in> set fds. ms fd = []) \<longrightarrow> buf' = buf \<and> w' = w" by blast
    have "read_socks rd fresh msglen0 ready bsize (fd # fds) buf w = Some (Inr (evs, buf', w'))"
      using rec(1) h(3) tcp_read_hung_up [OF _ p] by (simp add: Let_def)
    with rec(2-6) Nil p show ?thesis by (intro exI [of _ evs] exI [of _ buf'] exI [of _ w']) auto
  next
    case ms: (Cons m rest)
    then have m: "sendable m" "pend fd w = frame m @ concat (map frame rest)" "ready fd" using Cons.prems(3) by auto
    from tcp_read_unframes [OF m(1,2) msglen0_length Cons.prems(2) fresh_length] obtain r w1 where
      r: "tcp_read rd fresh msglen0 fd buf bsize w = Some (Inr r, w1)" "unat (ret r) = length m"
      "take (length m) (contents r) = m" "pend fd w1 = concat (map frame rest)"
      "\<not> use_tempbuf r \<longrightarrow> length (contents r) = length buf" "\<forall>fd'. fd' \<noteq> fd \<longrightarrow> pend fd' w1 = pend fd' w" by blast
    let ?buf = "if use_tempbuf r then buf else contents r"
    have b: "unat bsize \<le> length ?buf" "distinct fds" using r(5) Cons.prems(1,2) by simp_all
    have "pend fd' w1 = pend fd' w" if "fd' \<in> set fds" for fd'
      using r(6) Cons.prems(1) that by (metis distinct.simps(2))
    then have "\<forall>fd \<in> set fds. (\<forall>m \<in> set (ms fd). sendable m) \<and> pend fd w1 = concat (map frame (ms fd)) \<and>
        (ready fd \<longleftrightarrow> ms fd \<noteq> [] \<or> gone fd w1)"
      using Cons.prems(3) tcp_read_gone [OF r(1)] by simp
    from Cons.IH [OF b(2,1) this] obtain evs buf' w' where
      rec: "read_socks rd fresh msglen0 ready bsize fds ?buf w1 = Some (Inr (evs, buf', w'))"
      "map (\<lambda>(n, d). take (unat n) d) evs = concat (map (\<lambda>fd. take 1 (ms fd)) fds)" "length buf' = length ?buf"
      "\<forall>fd. pend fd w' = (if fd \<in> set fds then concat (map frame (tl (ms fd))) else pend fd w1)"
      "\<forall>fd. sent fd w' = sent fd w1" by blast
    note ret = ret_sendable [OF m(1) r(2)]
    have "read_socks rd fresh msglen0 ready bsize (fd # fds) buf w = Some (Inr ((ret r, contents r) # evs, buf', w'))"
      using m(3) r(1) rec(1) conjunct1 [OF ret] by (auto simp: Let_def)
    with r rec(2-5) Cons.prems(1) ms tcp_read_sent [OF r(1)] show ?thesis
      by (intro exI [of _ "(ret r, contents r) # evs"] exI [of _ buf'] exI [of _ w']) auto
  qed
qed simp

text \<open>A whole round, with the pipe: it ends the thread exactly when the pipe is closed, and changes nothing if nothing has come in.\<close>

lemma read_round:
  assumes "distinct (conns_of info)" "unat (bufsize info) \<le> length (rdbuf info)" "rdfd info \<notin> set (conns_of info)"
    and "\<forall>n v. rd (rdfd info) n v = (Some [], v)"
    and "\<forall>fd \<in> set (conns_of info). (\<forall>m \<in> set (ms fd). sendable m) \<and> pend fd w = concat (map frame (ms fd))"
  shows "\<exists>evs buf w'. start_read_round rd fresh msglen0 (readable pend gone m info w) info w =
      Some (Inr (evs, pipes_closed m, buf, w')) \<and>
    map (\<lambda>(n, d). take (unat n) d) evs = concat (map (\<lambda>fd. take 1 (ms fd)) (conns_of info)) \<and> length buf = length (rdbuf info) \<and>
    (\<forall>fd. pend fd w' = (if fd \<in> set (conns_of info) then concat (map frame (tl (ms fd))) else pend fd w)) \<and>
    (\<forall>fd. sent fd w' = sent fd w) \<and> ((\<forall>fd \<in> set (conns_of info). ms fd = []) \<longrightarrow> buf = rdbuf info \<and> w' = w)"
proof -
  let ?ready = "readable pend gone m info w"
  have fr: "frame m \<noteq> []" for m by (simp add: frame_def le32_def)
  have "?ready fd \<longleftrightarrow> ms fd \<noteq> [] \<or> gone fd w" if "fd \<in> set (conns_of info)" for fd
    using that assms(3,5) fr by (cases "ms fd") (auto simp: readable_def)
  with assms(5) have "\<forall>fd \<in> set (conns_of info). (\<forall>m \<in> set (ms fd). sendable m) \<and> pend fd w = concat (map frame (ms fd)) \<and>
      (?ready fd \<longleftrightarrow> ms fd \<noteq> [] \<or> gone fd w)" by blast
  from read_socks_round [OF assms(1,2) this] obtain evs buf w' where
    r: "read_socks rd fresh msglen0 ?ready (bufsize info) (conns_of info) (rdbuf info) w = Some (Inr (evs, buf, w'))"
    "map (\<lambda>(n, d). take (unat n) d) evs = concat (map (\<lambda>fd. take 1 (ms fd)) (conns_of info))" "length buf = length (rdbuf info)"
    "\<forall>fd. pend fd w' = (if fd \<in> set (conns_of info) then concat (map frame (tl (ms fd))) else pend fd w)"
    "\<forall>fd. sent fd w' = sent fd w" "(\<forall>fd \<in> set (conns_of info). ms fd = []) \<longrightarrow> buf = rdbuf info \<and> w' = w" by blast
  have "?ready (rdfd info) \<longleftrightarrow> pipes_closed m" by (simp add: readable_def)
  with r(1) assms(4) have "start_read_round rd fresh msglen0 ?ready info w = Some (Inr (evs, pipes_closed m, buf, w'))"
    by (simp add: start_read_round_def read_size_def read_into_def blit_def Let_def)
  with r(2-6) show ?thesis by blast
qed

end

section \<open>The invariant\<close>

text \<open>Whole messages are waiting on the connections.\<close>

definition whole :: "(c_int \<Rightarrow> 'w \<Rightarrow> byte list) \<Rightarrow> c_int list \<Rightarrow> 'w \<Rightarrow> bool" where
  "whole pend S w \<longleftrightarrow> (\<forall>fd \<in> set S. \<exists>ms. (\<forall>m \<in> set ms. sendable m) \<and> pend fd w = concat (map frame ms))"

definition rinfo_ok :: "'w sys_read \<Rightarrow> c_int list \<Rightarrow> tcpthrinfo_t \<Rightarrow> bool" where
  "rinfo_ok rd S i \<longleftrightarrow> unat (bufsize i) \<le> length (rdbuf i) \<and> rdfd i \<notin> set S \<and> (\<forall>n v. rd (rdfd i) n v = (Some [], v))"

text \<open>Before the stop: nothing is closed and every message is accounted for.\<close>

definition before_stop :: "(c_int \<Rightarrow> 'w \<Rightarrow> byte list) \<Rightarrow> c_int list \<Rightarrow> 'w \<Rightarrow> 'w run_sys \<Rightarrow> bool" where
  "before_stop sent S w0 s \<longleftrightarrow> open_pool (sys s) \<and> delivered sent S w0 (sys s) \<and> shut s = [] \<and> (\<forall>t. \<not> rdone s t) \<and>
     calls (sys s) = (if mpc s = MBroadcast then [] else [ToAll hello]) \<and>
     (if mpc s = MStop then got s \<noteq> [] else sem s = 0 \<longleftrightarrow> got s = [])"

definition run_inv :: "'w sys_read \<Rightarrow> (c_int \<Rightarrow> 'w \<Rightarrow> byte list) \<Rightarrow> (c_int \<Rightarrow> 'w \<Rightarrow> byte list) \<Rightarrow> c_int list \<Rightarrow> 'w \<Rightarrow> 'w run_sys \<Rightarrow> bool" where
  "run_inv rd pend sent S w0 s \<longleftrightarrow> threads_ok S (sys s) \<and> running (pool (sys s)) \<and> (\<forall>t<thrs (sys s). rinfo_ok rd S (rinfo s t)) \<and>
     whole pend S (net (sys s)) \<and>
     (if pipes_closed (mpc s) then closing (sys s) \<and> got s \<noteq> [] else before_stop sent S w0 s) \<and>
     (mpc s = MExit \<longrightarrow> (\<forall>t<thrs (sys s). wst (sys s) t = WExit \<and> rdone s t))"

lemmas run_defs = run_inv_def before_stop_def pipes_closed_def

lemma thread_step_frame:
  assumes "thread_step wr s s'"
  shows "rthrinfo (pool s') = rthrinfo (pool s) \<and> running (pool s') = running (pool s) \<and> num_thrs (pool s') = num_thrs (pool s) \<and>
    (\<exists>t<thrs s. wst s t \<noteq> WExit)"
  using assms
proof cases
  case (pop t)
  then show ?thesis by (auto simp: start_send_pop_def set_info_def Let_def split: list.splits)
next
  case (wrt t)
  with start_send_write_cases [OF wrt(2)] show ?thesis by auto
qed

lemma thread_step_obs:
  assumes "thread_step wr s s'" "\<forall>fd data w. obs (snd (wr fd data w)) = obs w"
  shows "obs (net s') = obs (net s)"
  using assms(1)
proof cases
  case (wrt t)
  then show ?thesis using writen_obs [OF _ assms(2)]
    by (auto simp: start_send_write_def Let_def split: wthread.splits option.splits if_splits prod.splits)
qed (auto simp: start_send_pop_def Let_def split: list.splits)

lemma callbacks_zero: "callbacks evs n = 0 \<longleftrightarrow> n = 0 \<and> evs = []"
  unfolding callbacks_def by (induction evs arbitrary: n) (auto simp: inc_cnt_def posix_post_def SEM_VALUE_MAX_def)

lemma stop_all_join_all:
  "stop_all_join wj rj is = Some (Inr r) \<Longrightarrow> i \<in> set is \<Longrightarrow> wj i = Some 0 \<and> rj i = Some 0"
  by (induction "is") (auto split: option.splits if_splits)

lemma shut_write_nil: "shut_write [] wr = wr"
  by (intro ext) (simp add: shut_write_def)

lemma hello_broadcast:
  assumes "running p"
  obtains m where "broadcast hello (of_nat (length hello)) p = Inr (0, fold (\<lambda>i. push_msg i m) [0..<unat (num_thrs p)] p)"
    "mtype m = WRITE" "mdata m = frame hello" "sint (msock m) < 0"
  using assms by (auto simp: broadcast_def make_msg_def hello_def frame_def)

lemma running_fold [simp]: "running (fold (\<lambda>i. push_msg i m) is p) = running p"
  by (induction "is" arbitrary: p) (simp_all add: push_msg_def)

lemma stop_signal_running:
  assumes "running p"
  obtains m where "stop_all_signal p = Inr (0, fold (\<lambda>i. push_msg i m) [0..<unat (num_thrs p)] p)"
  using assms by (auto simp: stop_all_signal_def make_msg_def)

text \<open>A new read buffer of a read thread does not concern the write threads.\<close>

lemma set_rinfo_ok:
  assumes "threads_ok S s" "t < thrs s" "s' = s\<lparr>net := w, pool := set_rinfo t ((rthrinfo (pool s) ! t)\<lparr>rdbuf := buf\<rparr>) (pool s)\<rparr>"
  shows "threads_ok S s'" "open_pool s' = open_pool s" "closing s' = closing s" "pool_work s' = pool_work s"
    "\<forall>fd. sent fd w = sent fd (net s) \<Longrightarrow> delivered sent S w0 s' = delivered sent S w0 s"
proof -
  have "info_ok T u mx S (((rthrinfo (pool s))[t := (rthrinfo (pool s) ! t)\<lparr>rdbuf := buf\<rparr>]) ! u) = info_ok T u mx S (rthrinfo (pool s) ! u)"
    for T u mx
  proof (cases "u = t \<and> t < length (rthrinfo (pool s))")
    case True
    then show ?thesis by (simp add: info_ok_def)
  qed (auto simp: nth_list_update list_update_beyond)
  then have "pool_inv S (pool s') = pool_inv S (pool s)" by (simp add: pool_inv_def Let_def assms(3) set_rinfo_def)
  then show "threads_ok S s'" using assms(1) by (simp add: threads_ok_def assms(3) set_rinfo_def)
qed (simp_all add: assms(3) set_rinfo_def open_pool_def closing_def pool_work_def delivered_def)

lemma whole_msgs:
  assumes "whole pend S w"
  obtains ms where "\<forall>fd \<in> set S. (\<forall>m \<in> set (ms fd). sendable m) \<and> pend fd w = concat (map frame (ms fd))"
  using assms unfolding whole_def by (metis (no_types, lifting))

lemma run_msgs:
  assumes "run_inv rd pend sent S w0 s"
  obtains ms where "\<forall>fd \<in> set S. (\<forall>m \<in> set (ms fd). sendable m) \<and> pend fd (net (sys s)) = concat (map frame (ms fd))"
proof -
  from assms have "whole pend S (net (sys s))" by (simp add: run_inv_def)
  from whole_msgs [OF this] that show thesis .
qed

lemma run_conns:
  assumes "run_inv rd pend sent S w0 s" "distinct S" "t < thrs (sys s)"
  shows "distinct (conns_of (rinfo s t))" "set (conns_of (rinfo s t)) = {S ! c |c. c < length S \<and> c mod thrs (sys s) = t}"
    "set (conns_of (rinfo s t)) \<subseteq> set S"
proof -
  from assms(1,3) have "info_ok (thrs (sys s)) t (unat (max_conns (pool (sys s)))) S (rinfo s t)" "length S \<le> unat (max_conns (pool (sys s)))"
    by (auto simp: run_inv_def threads_ok_def pool_inv_def Let_def)
  note c = thread_conns [OF this(1) assms(3) this(2) assms(2)]
  then show "distinct (conns_of (rinfo s t))" "set (conns_of (rinfo s t)) = {S ! c |c. c < length S \<and> c mod thrs (sys s) = t}" by blast+
  then show "set (conns_of (rinfo s t)) \<subseteq> set S" by auto
qed

lemma after_round_simps [simp]:
  "mpc (after_round t evs ended buf w s) = mpc s" "rdone (after_round t evs ended buf w s) = (rdone s)(t := ended)"
  "sem (after_round t evs ended buf w s) = callbacks evs (sem s)"
  "got (after_round t evs ended buf w s) = got s @ map (\<lambda>(n, d). take (unat n) d) evs"
  "calls (sys (after_round t evs ended buf w s)) = calls (sys s)" "wst (sys (after_round t evs ended buf w s)) = wst (sys s)"
  "net (sys (after_round t evs ended buf w s)) = w" "num_thrs (pool (sys (after_round t evs ended buf w s))) = num_thrs (pool (sys s))"
  "shut (after_round t evs ended buf w s) = (if ended then conns_of (rinfo s t) @ [rdfd (rinfo s t)] else []) @ shut s"
  by (simp_all add: after_round_def set_rinfo_def)

context pool_net
begin

text \<open>The round of a read thread in a state that satisfies the invariant.\<close>

lemma run_round:
  assumes inv: "run_inv rd pend sent S w0 s" and S: "distinct S" and t: "t < thrs (sys s)"
    and ms: "\<forall>fd \<in> set S. (\<forall>m \<in> set (ms fd). sendable m) \<and> pend fd (net (sys s)) = concat (map frame (ms fd))"
  shows "\<exists>evs buf w'. start_read_round rd fresh msglen0 (readable pend gone (mpc s) (rinfo s t) (net (sys s))) (rinfo s t) (net (sys s)) =
      Some (Inr (evs, pipes_closed (mpc s), buf, w')) \<and>
    map (\<lambda>(n, d). take (unat n) d) evs = concat (map (\<lambda>fd. take 1 (ms fd)) (conns_of (rinfo s t))) \<and>
    length buf = length (rdbuf (rinfo s t)) \<and>
    (\<forall>fd. pend fd w' = (if fd \<in> set (conns_of (rinfo s t)) then concat (map frame (tl (ms fd))) else pend fd (net (sys s)))) \<and>
    (\<forall>fd. sent fd w' = sent fd (net (sys s))) \<and>
    ((\<forall>fd \<in> set (conns_of (rinfo s t)). ms fd = []) \<longrightarrow> buf = rdbuf (rinfo s t) \<and> w' = net (sys s))"
proof -
  note c = run_conns [OF inv S t]
  have i: "rinfo_ok rd S (rinfo s t)" using inv t by (simp add: run_inv_def)
  then have "rdfd (rinfo s t) \<notin> set (conns_of (rinfo s t))" using c(3) by (auto simp: rinfo_ok_def)
  moreover have "\<forall>fd \<in> set (conns_of (rinfo s t)). (\<forall>m \<in> set (ms fd). sendable m) \<and> pend fd (net (sys s)) = concat (map frame (ms fd))"
    using ms c(3) by blast
  ultimately show ?thesis using i c(1) by (intro read_round) (auto simp: rinfo_ok_def)
qed

lemma run_inv_wthr:
  assumes inv: "run_inv rd pend sent S w0 s" and S: "distinct S" and st: "thread_step (shut_write (shut s) wr) (sys s) u"
  shows "run_inv rd pend sent S w0 (s\<lparr>sys := u\<rparr>)"
proof -
  note fr = thread_step_frame [OF st]
  have ok: "threads_ok S (sys s)" and pi: "pool_inv S (pool (sys s))" using inv by (simp_all add: run_inv_def threads_ok_def)
  note ok' = thread_step_threads_ok [OF st ok]
  have "pend fd (net u) = pend fd (net (sys s))" for fd
    using thread_step_obs [OF st, where obs = "pend fd"] by (simp add: shut_write_def wr_pend)
  then have w: "whole pend S (net u)" using inv by (simp add: run_inv_def whole_def)
  have ex: "mpc s \<noteq> MExit" using fr inv by (auto simp: run_inv_def)
  show ?thesis
  proof (cases "pipes_closed (mpc s)")
    case True
    with closing_step [OF st _ pi] inv w ok' fr ex show ?thesis by (simp add: run_inv_def)
  next
    case False
    with inv have b: "before_stop sent S w0 s" by (simp add: run_inv_def)
    then have st': "thread_step wr (sys s) u" using st by (simp add: before_stop_def shut_write_nil)
    have "\<forall>c \<in> set (calls (sys s)). small c" "sys_ok sent S w0 (sys s)"
      using b ok sendable_hello(3) by (auto simp: before_stop_def sys_ok_def)
    with pool_step_ok [OF posix_stream_axioms S thread_step_pool_step [OF st']] ok' have "delivered sent S w0 u"
      by (simp add: sys_ok_def)
    with open_step [OF st' _ pi] b have "before_stop sent S w0 (s\<lparr>sys := u\<rparr>)" by (simp add: before_stop_def)
    with False inv w ok' fr ex show ?thesis by (simp add: run_inv_def)
  qed
qed

lemma run_inv_rthr:
  assumes inv: "run_inv rd pend sent S w0 s" and S: "distinct S" and t: "t < thrs (sys s)" "\<not> rdone s t"
    and r: "start_read_round rd fresh msglen0 (readable pend gone (mpc s) (rinfo s t) (net (sys s))) (rinfo s t) (net (sys s)) =
      Some (Inr (evs, ended, buf, w))"
  shows "run_inv rd pend sent S w0 (after_round t evs ended buf w s)"
proof -
  let ?s = "after_round t evs ended buf w s"
  obtain ms where ms: "\<forall>fd \<in> set S. (\<forall>m \<in> set (ms fd). sendable m) \<and> pend fd (net (sys s)) = concat (map frame (ms fd))"
    using run_msgs [OF inv] .
  from run_round [OF inv S t(1) ms] r have rr: "ended = pipes_closed (mpc s)" "length buf = length (rdbuf (rinfo s t))"
    "\<forall>fd. pend fd w = (if fd \<in> set (conns_of (rinfo s t)) then concat (map frame (tl (ms fd))) else pend fd (net (sys s)))"
    "\<forall>fd. sent fd w = sent fd (net (sys s))" by auto
  have ok: "threads_ok S (sys s)" using inv by (simp add: run_inv_def)
  have sys: "sys ?s = (sys s)\<lparr>net := w, pool := set_rinfo t ((rinfo s t)\<lparr>rdbuf := buf\<rparr>) (pool (sys s))\<rparr>" by (simp add: after_round_def)
  note k = set_rinfo_ok [OF ok t(1) sys]
  have "whole pend S w"
    unfolding whole_def
  proof
    fix fd assume "fd \<in> set S"
    with ms rr(3) show "\<exists>ms. (\<forall>m \<in> set ms. sendable m) \<and> pend fd w = concat (map frame ms)"
      by (intro exI [of _ "if fd \<in> set (conns_of (rinfo s t)) then tl (ms fd) else ms fd"]) (auto dest: in_set_tl)
  qed
  moreover have "rinfo_ok rd S (rinfo ?s u)" if "u < thrs (sys s)" for u
    using inv that rr(2) by (cases "u = t"; cases "t < length (rthrinfo (pool (sys s)))")
      (auto simp: run_inv_def rinfo_ok_def sys set_rinfo_def nth_list_update list_update_beyond)
  moreover have "mpc s \<noteq> MExit" using inv t by (auto simp: run_inv_def)
  moreover have "before_stop sent S w0 ?s" if "\<not> pipes_closed (mpc s)"
    using that inv rr(1) k(2) k(5) [OF rr(4)] by (simp add: run_inv_def before_stop_def callbacks_zero)
  ultimately show ?thesis using inv k(1,3) by (auto simp: run_inv_def sys set_rinfo_def)
qed

lemma run_inv_main:
  assumes inv: "run_inv rd pend sent S w0 s" and S: "distinct S"
  shows "mpc s = MBroadcast \<Longrightarrow> broadcast hello (of_nat (length hello)) (pool (sys s)) = Inr (r, p) \<Longrightarrow>
      run_inv rd pend sent S w0 (s\<lparr>sys := log_call r (ToAll hello) p (sys s), mpc := MWait\<rparr>)"
    and "mpc s = MWait \<Longrightarrow> posix_wait (sem s) = Some n \<Longrightarrow> run_inv rd pend sent S w0 (s\<lparr>sem := n, mpc := MStop\<rparr>)"
    and "mpc s = MStop \<Longrightarrow> stop_all_signal (pool (sys s)) = Inr (r, p) \<Longrightarrow>
      run_inv rd pend sent S w0 (s\<lparr>sys := (sys s)\<lparr>pool := p\<rparr>, mpc := MJoin\<rparr>)"
    and "mpc s = MJoin \<Longrightarrow>
      stop_all_join (wjoin (sys s)) (\<lambda>t. if rdone s t then Some 0 else None) [0..<thrs (sys s)] = Some (Inr r') \<Longrightarrow>
      run_inv rd pend sent S w0 (s\<lparr>mpc := MExit\<rparr>)"
proof -
  have ok: "threads_ok S (sys s)" and run: "running (pool (sys s))" using inv by (simp_all add: run_inv_def)
  then have pi: "pool_inv S (pool (sys s))" and len: "length (wthrinfo (pool (sys s))) = thrs (sys s)"
    by (simp_all add: threads_ok_def pool_inv_def Let_def)
  show "run_inv rd pend sent S w0 (s\<lparr>sys := log_call r (ToAll hello) p (sys s), mpc := MWait\<rparr>)"
    if m: "mpc s = MBroadcast" and b: "broadcast hello (of_nat (length hello)) (pool (sys s)) = Inr (r, p)"
  proof -
    let ?u = "log_call r (ToAll hello) p (sys s)"
    obtain m where r: "r = 0" "p = fold (\<lambda>i. push_msg i m) [0..<thrs (sys s)] (pool (sys s))" "mtype m = WRITE"
      using hello_broadcast [OF run] b by (metis Inr_inject prod.inject)
    have bs: "before_stop sent S w0 s" using inv m by (simp add: run_inv_def pipes_closed_def)
    then have "sys_ok sent S w0 (sys s)" using ok by (simp add: before_stop_def sys_ok_def)
    from pool_step_ok [OF posix_stream_axioms S pool_step.call_broadcast [OF b] this] bs sendable_hello(3) r(1) m
    have o: "threads_ok S ?u \<and> delivered sent S w0 ?u"
      by (simp add: sys_ok_def log_call_def before_stop_def unat_of_nat take_bit_nat_eq_self hello_def)
    have q: "queued {..<thrs (sys s)} m (pool (sys s)) p" unfolding r(2) using len by (intro queued_fold) simp
    have "open_pool ?u"
      using bs q len r(1,3) by (auto simp: before_stop_def open_pool_def log_call_def queued_def r(2))
    with o bs m have "before_stop sent S w0 (s\<lparr>sys := ?u, mpc := MWait\<rparr>)" using r(1) by (simp add: before_stop_def log_call_def)
    with o inv show ?thesis using r by (simp add: run_inv_def pipes_closed_def log_call_def)
  qed
  show "run_inv rd pend sent S w0 (s\<lparr>sem := n, mpc := MStop\<rparr>)" if "mpc s = MWait" "posix_wait (sem s) = Some n"
    using that inv by (auto simp: run_defs posix_wait_def split: nat.splits)
  show "run_inv rd pend sent S w0 (s\<lparr>sys := (sys s)\<lparr>pool := p\<rparr>, mpc := MJoin\<rparr>)"
    if m: "mpc s = MStop" and st: "stop_all_signal (pool (sys s)) = Inr (r, p)"
  proof -
    obtain e where r: "r = 0" "p = fold (\<lambda>i. push_msg i e) [0..<thrs (sys s)] (pool (sys s))"
      using stop_signal_running [OF run] st by (metis Inr_inject prod.inject)
    have bs: "before_stop sent S w0 s" using inv m by (simp add: run_inv_def pipes_closed_def)
    then have "closing ((sys s)\<lparr>pool := p\<rparr>)" "threads_ok S ((sys s)\<lparr>pool := p\<rparr>)"
      using stop_closes [OF _ pi st [unfolded r(1)]] stop_ok [OF ok _ st] by (auto simp: before_stop_def)
    with inv m bs r(2) show ?thesis by (simp add: run_inv_def pipes_closed_def before_stop_def)
  qed
  show "run_inv rd pend sent S w0 (s\<lparr>mpc := MExit\<rparr>)" if "mpc s = MJoin"
    and j: "stop_all_join (wjoin (sys s)) (\<lambda>t. if rdone s t then Some 0 else None) [0..<thrs (sys s)] = Some (Inr r')"
    using that(1) inv stop_all_join_all [OF j] by (fastforce simp: run_inv_def pipes_closed_def wjoin_def split: if_splits)
qed

lemma run_step_inv:
  assumes "run_step rd wr pend gone fresh msglen0 s u" "run_inv rd pend sent S w0 s" "distinct S"
  shows "run_inv rd pend sent S w0 u"
  using assms(1)
proof cases
  case wthr
  then show ?thesis using run_inv_wthr [OF assms(2,3)] by simp
next
  case rthr
  then show ?thesis using run_inv_rthr [OF assms(2,3)] by blast
qed (use run_inv_main [OF assms(2,3)] in auto)

lemma run_inv_arrive:
  assumes inv: "run_inv rd pend sent S w0 s" and a: "arrives pend sent gone (net (sys s)) w"
  shows "run_inv rd pend sent S w0 (s\<lparr>sys := (sys s)\<lparr>net := w\<rparr>\<rparr>)"
proof -
  have "whole pend S w"
    unfolding whole_def
  proof
    fix fd assume "fd \<in> set S"
    then obtain ms where ms: "\<forall>m \<in> set ms. sendable m" "pend fd (net (sys s)) = concat (map frame ms)"
      using inv by (auto simp: run_inv_def whole_def)
    from a obtain ms' where "\<forall>m \<in> set ms'. sendable m" "pend fd w = pend fd (net (sys s)) @ concat (map frame ms')"
      by (auto simp: arrives_def)
    with ms show "\<exists>ms. (\<forall>m \<in> set ms. sendable m) \<and> pend fd w = concat (map frame ms)"
      by (intro exI [of _ "ms @ ms'"]) auto
  qed
  moreover have "sent fd w = sent fd (net (sys s))" for fd using a by (simp add: arrives_def)
  then have "delivered sent S w0 ((sys s)\<lparr>net := w\<rparr>) = delivered sent S w0 (sys s)" by (simp add: delivered_def)
  moreover have "open_pool ((sys s)\<lparr>net := w\<rparr>) = open_pool (sys s)" "closing ((sys s)\<lparr>net := w\<rparr>) = closing (sys s)"
    "threads_ok S ((sys s)\<lparr>net := w\<rparr>) = threads_ok S (sys s)" by (simp_all add: open_pool_def closing_def threads_ok_def)
  ultimately show ?thesis using inv
    by (cases "pipes_closed (mpc s)") (simp_all add: run_inv_def before_stop_def, simp add: pipes_closed_def)
qed

lemma run_reach_inv:
  assumes "run_reach rd wr pend sent gone fresh msglen0 s0 s" "run_inv rd pend sent S w0 s0" "distinct S"
  shows "run_inv rd pend sent S w0 s"
  using assms(1) by induction (use assms(2,3) run_step_inv run_inv_arrive in blast)+

end

section \<open>Every execution ends\<close>

fun run_rank :: "main_pc \<Rightarrow> nat" where
  "run_rank MBroadcast = 4" | "run_rank MWait = 3" | "run_rank MStop = 2" | "run_rank MJoin = 1" | "run_rank MExit = 0"

text \<open>The work left: messages to write, bytes to read, read threads to end.\<close>

definition run_work :: "(c_int \<Rightarrow> 'w \<Rightarrow> byte list) \<Rightarrow> c_int list \<Rightarrow> 'w run_sys \<Rightarrow> nat" where
  "run_work pend S s = pool_work (sys s) + (\<Sum>fd\<in>set S. length (pend fd (net (sys s)))) + card {t. t < thrs (sys s) \<and> \<not> rdone s t}"

definition run_less :: "(c_int \<Rightarrow> 'w \<Rightarrow> byte list) \<Rightarrow> c_int list \<Rightarrow> ('w run_sys \<times> 'w run_sys) set" where
  "run_less pend S = measures [\<lambda>s. run_rank (mpc s), run_work pend S]"

lemma wf_run_less: "wf (run_less pend S)"
  by (simp add: run_less_def)

lemma idle_round: "\<not> rdone s t \<Longrightarrow> after_round t [] False (rdbuf (rinfo s t)) (net (sys s)) s = s"
  by (simp add: after_round_def set_rinfo_def callbacks_def fun_upd_idem)

lemma round_empty:
  "map f evs = concat (map (\<lambda>fd. take 1 (ms fd)) fds) \<Longrightarrow> \<forall>fd \<in> set fds. ms fd = [] \<Longrightarrow> evs = []"
  by (metis (no_types, lifting) concat_eq_Nil_conv imageE list.set_map map_is_Nil_conv take_Nil)

context pool_net
begin

lemma rthr_work:
  assumes inv: "run_inv rd pend sent S w0 s" and S: "distinct S" and t: "t < thrs (sys s)" "\<not> rdone s t"
    and r: "start_read_round rd fresh msglen0 (readable pend gone (mpc s) (rinfo s t) (net (sys s))) (rinfo s t) (net (sys s)) =
      Some (Inr (evs, ended, buf, w))"
  shows "after_round t evs ended buf w s = s \<or> run_work pend S (after_round t evs ended buf w s) < run_work pend S s"
proof -
  let ?u = "after_round t evs ended buf w s" and ?A = "{u. u < thrs (sys s) \<and> \<not> rdone s u}"
    and ?B = "{u. u < thrs (sys s) \<and> \<not> ((rdone s)(t := ended)) u}"
  obtain ms where ms: "\<forall>fd \<in> set S. (\<forall>m \<in> set (ms fd). sendable m) \<and> pend fd (net (sys s)) = concat (map frame (ms fd))"
    using run_msgs [OF inv] .
  from run_round [OF inv S t(1) ms] r have rr: "ended = pipes_closed (mpc s)"
    "map (\<lambda>(n, d). take (unat n) d) evs = concat (map (\<lambda>fd. take 1 (ms fd)) (conns_of (rinfo s t)))"
    "\<forall>fd. pend fd w = (if fd \<in> set (conns_of (rinfo s t)) then concat (map frame (tl (ms fd))) else pend fd (net (sys s)))"
    "(\<forall>fd \<in> set (conns_of (rinfo s t)). ms fd = []) \<longrightarrow> buf = rdbuf (rinfo s t) \<and> w = net (sys s)" by auto
  note c = run_conns [OF inv S t(1)]
  have pw: "pool_work (sys ?u) = pool_work (sys s)"
    using inv t(1) by (intro set_rinfo_ok(4) [of S]) (simp_all add: run_inv_def after_round_def)
  have le: "length (pend fd w) \<le> length (pend fd (net (sys s)))" if "fd \<in> set S" for fd
    using ms that rr(3) by (cases "ms fd") auto
  have sub: "?B \<subseteq> ?A" "finite ?A" using t(2) by auto
  have work: "run_work pend S ?u = pool_work (sys s) + (\<Sum>fd\<in>set S. length (pend fd w)) + card ?B"
    by (simp add: run_work_def pw)
  show ?thesis
  proof (cases "\<forall>fd \<in> set (conns_of (rinfo s t)). ms fd = []")
    case True
    with rr round_empty have e: "evs = []" "buf = rdbuf (rinfo s t)" "w = net (sys s)" by blast+
    show ?thesis
    proof (cases ended)
      case True
      have "t \<in> ?A" "t \<notin> ?B" using t True by simp_all
      then have "card ?B < card ?A" using sub by (intro psubset_card_mono) auto
      with work e show ?thesis by (simp add: run_work_def)
    qed (use e t(2) idle_round [of s t] in simp)
  next
    case False
    then obtain fd where fd: "fd \<in> set (conns_of (rinfo s t))" "ms fd \<noteq> []" by blast
    then have "length (pend fd w) < length (pend fd (net (sys s)))"
      using ms rr(3) c(3) by (cases "ms fd") (auto simp: frame_def le32_def)
    then have "(\<Sum>fd\<in>set S. length (pend fd w)) < (\<Sum>fd\<in>set S. length (pend fd (net (sys s))))"
      using le fd(1) c(3) by (intro sum_strict_mono_ex1) auto
    with work card_mono [OF sub(2,1)] show ?thesis by (simp add: run_work_def)
  qed
qed

lemma wthr_work:
  assumes inv: "run_inv rd pend sent S w0 s" and st: "thread_step (shut_write (shut s) wr) (sys s) u"
  shows "run_work pend S (s\<lparr>sys := u\<rparr>) < run_work pend S s"
proof -
  have "pend fd (net u) = pend fd (net (sys s))" for fd
    using thread_step_obs [OF st, where obs = "pend fd"] by (simp add: shut_write_def wr_pend)
  moreover have "pool_work u < pool_work (sys s)" using thread_step_works [OF st] inv by (auto simp: run_inv_def threads_ok_def)
  ultimately show ?thesis using thread_step_frame [OF st] by (simp add: run_work_def)
qed

lemma run_step_less:
  assumes "run_step rd wr pend gone fresh msglen0 s u" "run_inv rd pend sent S w0 s" "distinct S"
  shows "u = s \<or> (u, s) \<in> run_less pend S"
  using assms(1)
proof cases
  case (wthr u)
  then show ?thesis using wthr_work [OF assms(2)] by (simp add: run_less_def)
next
  case (rthr t ready evs ended buf w)
  then show ?thesis using rthr_work [OF assms(2,3)] by (auto simp: run_less_def)
qed (simp_all add: run_less_def)

lemma writer_moves:
  assumes inv: "run_inv rd pend sent S w0 s" and t: "t < thrs (sys s)" "wst (sys s) t \<noteq> WExit"
    and q: "wst (sys s) t = WPop \<Longrightarrow> msgq (wthrinfo (pool (sys s)) ! t) \<noteq> []"
  shows "\<exists>u. run_step rd wr pend gone fresh msglen0 s u \<and> u \<noteq> s"
proof -
  have ok: "threads_ok S (sys s)" using inv by (simp add: run_inv_def)
  have "\<exists>y. writen (shut_write (shut s) wr) fd (mdata m) (ucast (mlen m)) (net (sys s)) = Some y"
    if "msg_ok n m" "mtype m = WRITE" for fd m n
    unfolding writen_shut [OF that] using that writen_exact [of "ucast (mlen m)" "mdata m" fd "net (sys s)"] by (auto simp: msg_ok_def)
  with thread_can_step [OF ok _ t q refl] obtain u where u: "thread_step (shut_write (shut s) wr) (sys s) u" by meson
  then have "s\<lparr>sys := u\<rparr> \<noteq> s" using wthr_work [OF inv u] by auto
  with run_step.wthr [OF u] show ?thesis by blast
qed

lemma reader_moves:
  assumes inv: "run_inv rd pend sent S w0 s" and S: "distinct S" and t: "t < thrs (sys s)" "\<not> rdone s t"
    and m: "pipes_closed (mpc s) \<or> (\<exists>fd \<in> set (conns_of (rinfo s t)). pend fd (net (sys s)) \<noteq> [])"
  shows "\<exists>u. run_step rd wr pend gone fresh msglen0 s u \<and> u \<noteq> s"
proof -
  let ?ready = "readable pend gone (mpc s) (rinfo s t) (net (sys s))"
  obtain ms where ms: "\<forall>fd \<in> set S. (\<forall>m \<in> set (ms fd). sendable m) \<and> pend fd (net (sys s)) = concat (map frame (ms fd))"
    using run_msgs [OF inv] .
  note c = run_conns [OF inv S t(1)]
  from run_round [OF inv S t(1) ms] obtain evs buf w where
    rr: "start_read_round rd fresh msglen0 ?ready (rinfo s t) (net (sys s)) = Some (Inr (evs, pipes_closed (mpc s), buf, w))"
    "\<forall>fd. pend fd w = (if fd \<in> set (conns_of (rinfo s t)) then concat (map frame (tl (ms fd))) else pend fd (net (sys s)))" by blast
  have i: "rdfd (rinfo s t) \<notin> set S" using inv t(1) by (simp add: run_inv_def rinfo_ok_def)
  have "\<exists>fd \<in> set (conns_of (rinfo s t) @ [rdfd (rinfo s t)]). ?ready fd"
  proof (cases "pipes_closed (mpc s)")
    case False
    with m obtain fd where "fd \<in> set (conns_of (rinfo s t))" "pend fd (net (sys s)) \<noteq> []" by blast
    with i c(3) show ?thesis by (intro bexI [of _ fd]) (auto simp: readable_def)
  qed (simp add: readable_def)
  from run_step.rthr [OF t refl this rr(1)]
  have "run_step rd wr pend gone fresh msglen0 s (after_round t evs (pipes_closed (mpc s)) buf w s)" .
  moreover have "after_round t evs (pipes_closed (mpc s)) buf w s \<noteq> s"
  proof (cases "pipes_closed (mpc s)")
    case True
    then have "rdone (after_round t evs (pipes_closed (mpc s)) buf w s) t" by simp
    with t(2) show ?thesis by metis
  next
    case False
    with m obtain fd where fd: "fd \<in> set (conns_of (rinfo s t))" "pend fd (net (sys s)) \<noteq> []" by blast
    with ms c(3) have "length (concat (map frame (tl (ms fd)))) < length (pend fd (net (sys s)))"
      by (cases "ms fd") (auto simp: frame_def le32_def)
    with rr(2) fd(1) have "pend fd w \<noteq> pend fd (net (sys s))" by auto
    then show ?thesis using after_round_simps(7) by metis
  qed
  ultimately show ?thesis by blast
qed

text \<open>A state in which no step changes anything.\<close>

lemma run_stuck:
  assumes inv: "run_inv rd pend sent S w0 s" and S: "distinct S"
    and stuck: "\<forall>u. run_step rd wr pend gone fresh msglen0 s u \<longrightarrow> u = s"
  shows "mpc s = MExit \<or> mpc s = MWait \<and> got s = [] \<and> idle (sys s) \<and> (\<forall>fd \<in> set S. pend fd (net (sys s)) = [])"
proof (cases "mpc s")
  case MBroadcast
  obtain m where "broadcast hello (of_nat (length hello)) (pool (sys s)) = Inr (0, fold (\<lambda>i. push_msg i m) [0..<thrs (sys s)] (pool (sys s)))"
    using inv hello_broadcast by (metis run_inv_def)
  from stuck run_step.bcast [OF MBroadcast this] have "mpc s = MWait" by (metis run_sys.select_convs(5) run_sys.surjective run_sys.update_convs(5))
  with MBroadcast show ?thesis by simp
next
  case MWait
  then have bs: "before_stop sent S w0 s" using inv by (simp add: run_inv_def pipes_closed_def)
  have "sem s = 0"
  proof (rule ccontr)
    assume "sem s \<noteq> 0"
    then obtain n where "posix_wait (sem s) = Some n" by (cases "sem s") (simp_all add: posix_wait_def)
    from stuck run_step.semw [OF MWait this] have "s\<lparr>sem := n, mpc := MStop\<rparr> = s" by blast
    then have "mpc s = MStop" by (metis run_sys.select_convs(5) run_sys.surjective run_sys.update_convs(5))
    with MWait show False by simp
  qed
  with bs MWait have "got s = []" by (simp add: before_stop_def)
  moreover have "idle (sys s)"
    unfolding idle_def
  proof (intro allI impI)
    fix t assume t: "t < thrs (sys s)"
    with bs have "wst (sys s) t \<noteq> WExit" by (simp add: before_stop_def open_pool_def)
    with writer_moves [OF inv t] stuck show "wst (sys s) t = WPop \<and> msgq (wthrinfo (pool (sys s)) ! t) = []" by blast
  qed
  moreover have "pend fd (net (sys s)) = []" if "fd \<in> set S" for fd
  proof -
    from that obtain c where c: "c < length S" "fd = S ! c" by (auto simp: in_set_conv_nth)
    have t: "c mod thrs (sys s) < thrs (sys s)" using inv by (auto simp: run_inv_def threads_ok_def pool_inv_def Let_def unat_gt_0)
    with c run_conns(2) [OF inv S t] have "fd \<in> set (conns_of (rinfo s (c mod thrs (sys s))))" by blast
    with reader_moves [OF inv S t] stuck bs show ?thesis by (auto simp: before_stop_def)
  qed
  ultimately show ?thesis using MWait by blast
next
  case MStop
  obtain e where "stop_all_signal (pool (sys s)) = Inr (0, fold (\<lambda>i. push_msg i e) [0..<thrs (sys s)] (pool (sys s)))"
    using inv stop_signal_running by (metis run_inv_def)
  from stuck run_step.stop [OF MStop this] have "mpc s = MJoin" by (metis run_sys.select_convs(5) run_sys.surjective run_sys.update_convs(5))
  with MStop show ?thesis by simp
next
  case MJoin
  then have cl: "closing (sys s)" "pipes_closed (mpc s)" using inv by (simp_all add: run_inv_def pipes_closed_def)
  have "wst (sys s) t = WExit \<and> rdone s t" if t: "t < thrs (sys s)" for t
    using writer_moves [OF inv t] reader_moves [OF inv S t] stuck cl t by (auto simp: closing_def thr_closing_def)
  then have "stop_all_join (wjoin (sys s)) (\<lambda>t. if rdone s t then Some 0 else None) [0..<thrs (sys s)] = Some (Inr 0)"
    by (intro stop_all_join_done) (simp add: wjoin_def)
  from stuck run_step.join [OF MJoin this] have "mpc s = MExit" by (metis run_sys.select_convs(5) run_sys.surjective run_sys.update_convs(5))
  then show ?thesis ..
qed simp

lemma run_terminates:
  assumes "run_inv rd pend sent S w0 (f 0)" "distinct S"
  shows "\<not> (\<forall>n. run_step rd wr pend gone fresh msglen0 (f n) (f (Suc n)) \<and> f (Suc n) \<noteq> f n)"
proof
  assume run: "\<forall>n. run_step rd wr pend gone fresh msglen0 (f n) (f (Suc n)) \<and> f (Suc n) \<noteq> f n"
  then have inv: "run_inv rd pend sent S w0 (f n)" for n
    by (induction n) (use assms run_step_inv in blast)+
  have "(f (Suc n), f n) \<in> run_less pend S" for n using run run_step_less [OF _ inv assms(2)] by blast
  then show False using wf_run_less by (metis wf_iff_no_infinite_down_chain)
qed

lemma run_to_end:
  assumes "run_inv rd pend sent S w0 s" "distinct S"
  shows "\<exists>u. (run_step rd wr pend gone fresh msglen0)\<^sup>*\<^sup>* s u \<and> (\<forall>v. run_step rd wr pend gone fresh msglen0 u v \<longrightarrow> v = u)"
  using assms(1)
proof (induction s rule: wf_induct_rule [OF wf_run_less [of pend S]])
  case (1 s)
  show ?case
  proof (cases "\<forall>v. run_step rd wr pend gone fresh msglen0 s v \<longrightarrow> v = s")
    case False
    then obtain v where v: "run_step rd wr pend gone fresh msglen0 s v" "v \<noteq> s" by blast
    with run_step_less [OF v(1) 1(2) assms(2)] 1(1) [of v] run_step_inv [OF v(1) 1(2) assms(2)] obtain u where
      "(run_step rd wr pend gone fresh msglen0)\<^sup>*\<^sup>* v u" "\<forall>v. run_step rd wr pend gone fresh msglen0 u v \<longrightarrow> v = u" by blast
    with converse_rtranclp_into_rtranclp [of "run_step rd wr pend gone fresh msglen0", OF v(1)] show ?thesis by blast
  qed blast
qed

end

lemma run_init_inv:
  assumes "started_pool nthr cs p" "\<forall>i \<in> set (rthrinfo p). \<forall>n v. rd (rdfd i) n v = (Some [], v)"
    and "\<forall>fd \<in> fst ` set cs. pend fd w0 = []"
  shows "run_inv rd pend sent (map fst cs) w0 (run_init p w0)"
proof -
  note p = started_pool_inv [OF assms(1)]
  then have len: "length (wthrinfo p) = unat (num_thrs p)" "length (rthrinfo p) = unat (num_thrs p)" "0 < unat (num_thrs p)"
    by (auto simp: pool_inv_def Let_def unat_gt_0)
  have q: "msgq (wthrinfo p ! t) = []" if "t < unat (num_thrs p)" for t using p len that by simp
  have "rinfo_ok rd (map fst cs) (rthrinfo p ! t)" if "t < unat (num_thrs p)" for t
    using started_pool_readers [OF assms(1)] assms(2) len that by (auto simp: rinfo_ok_def)
  moreover have "whole pend (map fst cs) w0" using assms(3) by (auto simp: whole_def intro: exI [of _ "[]"])
  moreover have "threads_ok (map fst cs) (pool_init p w0)" using p q by (simp add: threads_ok_def pool_init_def)
  moreover have "before_stop sent (map fst cs) w0 (run_init p w0)"
    using q len(3) by (simp add: before_stop_def run_init_def open_pool_def pool_init_def delivered_def)
  ultimately show ?thesis using p by (simp add: run_inv_def run_init_def pool_init_def pipes_closed_def)
qed

lemma idle_greeted:
  assumes "run_inv rd pend sent S w0 s" "mpc s = MWait" "idle (sys s)" "fd \<in> set S"
  shows "sent fd (net (sys s)) = sent fd w0 @ frame hello"
proof -
  from assms(4) obtain c where c: "c < length S" "fd = S ! c" by (auto simp: in_set_conv_nth)
  have t: "c mod thrs (sys s) < thrs (sys s)" using assms(1) by (auto simp: run_inv_def threads_ok_def pool_inv_def Let_def unat_gt_0)
  have "delivered sent S w0 (sys s)" "calls (sys s) = [ToAll hello]" using assms(1,2) by (simp_all add: run_defs)
  with c t assms(3) show ?thesis by (auto simp: delivered_def Let_def idle_def)
qed

text \<open>
  C5. The scheduler after \<open>start_all\<close>, with all its threads in any interleaving and workers that answer and hang up
  at any time: without further answers only finitely many steps change the state (the others are rounds of
  a read thread that finds a worker gone), and when no step changes it any more, either the program has returned, after
  an answer was received and all its threads have ended, or it waits for the semaphore, no worker has answered, and the
  greeting has been written to every worker.
\<close>

theorem scheduler_completes:
  assumes "pool_net rd wr pend sent gone fresh msglen0" and "started_pool nthr cs p" and "distinct (map fst cs)"
    and "\<forall>i \<in> set (rthrinfo p). \<forall>n v. rd (rdfd i) n v = (Some [], v)" and "\<forall>fd \<in> fst ` set cs. pend fd w0 = []"
    and "run_reach rd wr pend sent gone fresh msglen0 (run_init p w0) s"
  shows "(\<forall>f. f 0 = s \<longrightarrow> \<not> (\<forall>n. run_step rd wr pend gone fresh msglen0 (f n) (f (Suc n)) \<and> f (Suc n) \<noteq> f n)) \<and>
    ((\<forall>u. run_step rd wr pend gone fresh msglen0 s u \<longrightarrow> u = s) \<longrightarrow>
       mpc s = MExit \<and> got s \<noteq> [] \<and> (\<forall>t<thrs (sys s). wst (sys s) t = WExit \<and> rdone s t) \<or>
       mpc s = MWait \<and> got s = [] \<and>
         (\<forall>fd \<in> fst ` set cs. pend fd (net (sys s)) = [] \<and> sent fd (net (sys s)) = sent fd w0 @ frame hello))"
proof (intro conjI allI impI)
  have S: "fst ` set cs = set (map fst cs)" by simp
  note inv = pool_net.run_reach_inv [OF assms(1,6) run_init_inv [where rd = rd and pend = pend and ?w0.0 = w0, OF assms(2,4,5)] assms(3)]
  show "\<not> (\<forall>n. run_step rd wr pend gone fresh msglen0 (f n) (f (Suc n)) \<and> f (Suc n) \<noteq> f n)" if "f 0 = s" for f
    using pool_net.run_terminates [OF assms(1) _ assms(3)] inv that by blast
  assume stuck: "\<forall>u. run_step rd wr pend gone fresh msglen0 s u \<longrightarrow> u = s"
  from pool_net.run_stuck [OF assms(1) inv assms(3) stuck] show "mpc s = MExit \<and> got s \<noteq> [] \<and> (\<forall>t<thrs (sys s). wst (sys s) t = WExit \<and> rdone s t) \<or>
       mpc s = MWait \<and> got s = [] \<and>
         (\<forall>fd \<in> fst ` set cs. pend fd (net (sys s)) = [] \<and> sent fd (net (sys s)) = sent fd w0 @ frame hello)"
    unfolding S using idle_greeted [OF inv] inv by (auto simp: run_inv_def pipes_closed_def)
qed

section \<open>A network with workers that hang up\<close>

text \<open>The segmented network, with the descriptors \<open>P\<close> of closed pipes and a record of the workers that have gone.\<close>

type_synonym hup_world = "stream_world \<times> (c_int \<Rightarrow> bool)"

definition hup_read :: "c_int list \<Rightarrow> hup_world sys_read" where
  "hup_read P fd n v = (if fd \<in> set P then (Some [], v) else case seg_read fd n (fst v) of (r, w) \<Rightarrow> (r, (w, snd v)))"

definition hup_write :: "hup_world sys_write" where
  "hup_write fd data v = (case seg_write fd data (fst v) of (r, w) \<Rightarrow> (r, (w, snd v)))"

definition hup_pend :: "c_int list \<Rightarrow> c_int \<Rightarrow> hup_world \<Rightarrow> byte list" where
  "hup_pend P fd v = (if fd \<in> set P then [] else inb (fst v) fd)"

definition hup_sent :: "c_int \<Rightarrow> hup_world \<Rightarrow> byte list" where
  "hup_sent fd v = outb (fst v) fd"

definition hup_gone :: "c_int \<Rightarrow> hup_world \<Rightarrow> bool" where
  "hup_gone fd v = snd v fd"

lemmas hup_defs = hup_read_def hup_write_def hup_pend_def hup_sent_def hup_gone_def

interpretation hup_net: pool_net "hup_read P" hup_write "hup_pend P" hup_sent hup_gone "\<lambda>n. replicate n 0" "replicate 4 0" for P
proof
  show "hup_read P fd 0 v = (Some [], v)" for fd v by (simp add: hup_read_def segmented.rd_zero)
  show "\<exists>k v'. hup_read P fd len v = (Some (take k (hup_pend P fd v)), v') \<and> 0 < k \<and> k \<le> unat len \<and> k \<le> length (hup_pend P fd v) \<and>
      hup_pend P fd v' = drop k (hup_pend P fd v) \<and> (\<forall>fd'. fd' \<noteq> fd \<longrightarrow> hup_pend P fd' v' = hup_pend P fd' v)"
    if pd: "hup_pend P fd v \<noteq> []" "0 < len" for fd v and len :: u64
  proof -
    have fd: "fd \<notin> set P" "inb (fst v) fd \<noteq> []" using pd(1) by (auto simp: hup_pend_def split: if_splits)
    from segmented.rd_data [OF fd(2) pd(2)] obtain k w' where
      "seg_read fd len (fst v) = (Some (take k (inb (fst v) fd)), w')" "0 < k" "k \<le> unat len" "k \<le> length (inb (fst v) fd)"
      "inb w' fd = drop k (inb (fst v) fd)" "\<forall>fd'. fd' \<noteq> fd \<longrightarrow> inb w' fd' = inb (fst v) fd'" by blast
    with fd(1) show ?thesis by (intro exI [of _ k] exI [of _ "(w', snd v)"]) (simp add: hup_read_def hup_pend_def)
  qed
  show "\<exists>k v'. hup_write fd data v = (int k, v') \<and> 0 < k \<and> k \<le> length data \<and>
      hup_sent fd v' = hup_sent fd v @ take k data \<and> (\<forall>fd'. fd' \<noteq> fd \<longrightarrow> hup_sent fd' v' = hup_sent fd' v)"
    if "data \<noteq> []" for fd data v
    using segmented.wr_data [OF that, of fd "fst v"] by (auto simp: hup_write_def hup_sent_def)
  show "hup_sent fd' (snd (hup_read P fd len v)) = hup_sent fd' v" for fd' fd len v
    by (simp add: hup_defs seg_read_def Let_def)
  show "hup_pend P fd' (snd (hup_write fd data v)) = hup_pend P fd' v" for fd' fd data v
    by (simp add: hup_defs seg_write_def Let_def)
  show "hup_gone fd v \<Longrightarrow> hup_pend P fd v = [] \<Longrightarrow> hup_read P fd n v = (Some [], v)" for fd v n
    by (auto simp: hup_defs seg_read_def Let_def fun_upd_idem split: if_splits)
  show "hup_gone fd' (snd (hup_read P fd n v)) = hup_gone fd' v" for fd' fd n v
    by (simp add: hup_defs seg_read_def Let_def)
  show "hup_gone fd' (snd (hup_write fd data v)) = hup_gone fd' v" for fd' fd data v
    by (simp add: hup_defs seg_write_def Let_def)
qed simp_all

theorem scheduler_completes_witness:
  "\<exists>p. started_pool 2 [(5, []), (6, []), (7, [])] p \<and>
     (\<forall>f. f 0 = run_init p (demo_world [], \<lambda>_. False) \<longrightarrow>
        \<not> (\<forall>n. run_step (hup_read (map rdfd (rthrinfo p))) hup_write (hup_pend (map rdfd (rthrinfo p))) hup_gone (\<lambda>n. replicate n 0)
              (replicate 4 0) (f n) (f (Suc n)) \<and> f (Suc n) \<noteq> f n))"
proof -
  define cs :: "(c_int \<times> byte list) list" where "cs = [(5, []), (6, []), (7, [])]"
  obtain p where p: "started_pool 2 cs p" unfolding cs_def using demo_started_pool by blast
  let ?P = "map rdfd (rthrinfo p)"
  have h: "distinct (map fst cs)" "\<forall>i \<in> set (rthrinfo p). \<forall>n v. hup_read ?P (rdfd i) n v = (Some [], v)"
    "\<forall>fd \<in> fst ` set cs. hup_pend ?P fd (demo_world [], \<lambda>_. False) = []"
    by (simp_all add: cs_def hup_read_def hup_pend_def demo_world_def)
  from scheduler_completes [OF hup_net.pool_net_axioms p h run_reach.start] p show ?thesis unfolding cs_def by blast
qed

section \<open>A greeting that is lost\<close>

context pool_net
begin

lemma run_steps_reach:
  "(run_step rd wr pend gone fresh msglen0)\<^sup>*\<^sup>* s u \<Longrightarrow> run_reach rd wr pend sent gone fresh msglen0 s0 s \<Longrightarrow>
     run_reach rd wr pend sent gone fresh msglen0 s0 u"
  by (induction rule: rtranclp_induct) (blast intro: run_reach.step)+

text \<open>After the stop nothing more is written to a descriptor that a read thread has closed.\<close>

lemma shut_kept:
  assumes st: "run_step rd wr pend gone fresh msglen0 s u" and inv: "run_inv rd pend sent S w0 s" and S: "distinct S"
    and fd: "fd \<in> set (shut s)" and cl: "pipes_closed (mpc s)"
  shows "fd \<in> set (shut u) \<and> pipes_closed (mpc u) \<and> sent fd (net (sys u)) = sent fd (net (sys s))"
  using st
proof cases
  case (wthr v)
  have ok: "threads_ok S (sys s)" using inv by (simp add: run_inv_def)
  from wthr(2) have "sent fd (net v) = sent fd (net (sys s))"
  proof cases
    case (pop t)
    then show ?thesis by (auto simp: start_send_pop_def Let_def split: list.splits)
  next
    case (wrt t)
    from ok wrt show ?thesis
    proof (cases rule: start_send_write_steps)
      case (wrt m i st r w')
      have "writen wr fd' (mdata m) (ucast (mlen m)) (net (sys s)) = Some (r, w') \<Longrightarrow> fd' \<noteq> fd \<Longrightarrow> sent fd w' = sent fd (net (sys s))" for fd'
        using writen_exact [of "ucast (mlen m)" "mdata m" fd' "net (sys s)"] wrt(2,3) by (auto simp: msg_ok_def)
      with wrt(4,9) fd show ?thesis unfolding writen_shut [OF wrt(2,3)] by (auto split: if_splits)
    qed simp
  qed
  with wthr fd cl show ?thesis by simp
next
  case (rthr t ready evs ended buf w)
  obtain ms where ms: "\<forall>fd \<in> set S. (\<forall>m \<in> set (ms fd). sendable m) \<and> pend fd (net (sys s)) = concat (map frame (ms fd))"
    using run_msgs [OF inv] .
  from run_round [OF inv S rthr(2) ms] rthr fd cl show ?thesis by auto
qed (use fd cl in \<open>auto simp: pipes_closed_def\<close>)

lemma shut_kept_steps:
  assumes "(run_step rd wr pend gone fresh msglen0)\<^sup>*\<^sup>* s u" "run_inv rd pend sent S w0 s" "distinct S"
    and "set F \<subseteq> set (shut s)" "pipes_closed (mpc s)"
  shows "run_inv rd pend sent S w0 u \<and> set F \<subseteq> set (shut u) \<and> pipes_closed (mpc u) \<and>
    (\<forall>fd \<in> set F. sent fd (net (sys u)) = sent fd (net (sys s)))"
  using assms(1)
proof induction
  case (step v u)
  then have v: "run_inv rd pend sent S w0 v" "set F \<subseteq> set (shut v)" "pipes_closed (mpc v)" by simp_all
  have "pipes_closed (mpc u)" using step(2) v(3) by cases (auto simp: pipes_closed_def)
  with shut_kept [OF step(2) v(1) assms(3) _ v(3)] run_step_inv [OF step(2) v(1) assms(3)] v(2) step.IH show ?case
    by (simp add: subset_iff)
qed (use assms(2,4,5) in simp)

lemma reader_ends:
  assumes inv: "run_inv rd pend sent S w0 s" and S: "distinct S" and m: "mpc s = MJoin" and t: "t < thrs (sys s)" "\<not> rdone s t"
  shows "\<exists>u. run_step rd wr pend gone fresh msglen0 s u \<and> mpc u = MJoin \<and> rdone u = (rdone s)(t := True) \<and>
    thrs (sys u) = thrs (sys s) \<and> set (shut u) = set (conns_of (rinfo s t)) \<union> {rdfd (rinfo s t)} \<union> set (shut s) \<and>
    (\<forall>fd. sent fd (net (sys u)) = sent fd (net (sys s)))"
proof -
  let ?ready = "readable pend gone (mpc s) (rinfo s t) (net (sys s))"
  obtain ms where ms: "\<forall>fd \<in> set S. (\<forall>m \<in> set (ms fd). sendable m) \<and> pend fd (net (sys s)) = concat (map frame (ms fd))"
    using run_msgs [OF inv] .
  have cl: "pipes_closed (mpc s) = True" using m by (simp add: pipes_closed_def)
  from run_round [OF inv S t(1) ms] obtain evs buf w where
    rr: "start_read_round rd fresh msglen0 ?ready (rinfo s t) (net (sys s)) = Some (Inr (evs, True, buf, w))"
    "\<forall>fd. sent fd w = sent fd (net (sys s))" unfolding cl by blast
  have "\<exists>fd \<in> set (conns_of (rinfo s t) @ [rdfd (rinfo s t)]). ?ready fd" using cl by (simp add: readable_def)
  from run_step.rthr [OF t refl this rr(1)] m rr(2) show ?thesis
    by (intro exI [of _ "after_round t evs True buf w s"]) auto
qed

text \<open>The main thread broadcasts; then write thread 0 takes the greeting and writes it to its first connection.\<close>

lemma greeting_queued:
  assumes inv: "run_inv rd pend sent S w0 s" and S: "distinct S"
    and s: "mpc s = MBroadcast" "\<forall>t<thrs (sys s). msgq (wthrinfo (pool (sys s)) ! t) = []"
  shows "\<exists>u m. run_step rd wr pend gone fresh msglen0 s u \<and> run_inv rd pend sent S w0 u \<and> mpc u = MWait \<and> thrs (sys u) = thrs (sys s) \<and>
    wst (sys u) = wst (sys s) \<and> net (sys u) = net (sys s) \<and> mtype m = WRITE \<and> mdata m = frame hello \<and> sint (msock m) < 0 \<and>
    (\<forall>t<thrs (sys s). msgq (wthrinfo (pool (sys u)) ! t) = [m])"
proof -
  let ?T = "thrs (sys s)"
  have ok: "threads_ok S (sys s)" and run: "running (pool (sys s))" using inv by (simp_all add: run_inv_def)
  then have len: "length (wthrinfo (pool (sys s))) = ?T" by (auto simp: threads_ok_def pool_inv_def Let_def)
  obtain m where b: "broadcast hello (of_nat (length hello)) (pool (sys s)) = Inr (0, fold (\<lambda>i. push_msg i m) [0..<?T] (pool (sys s)))"
    and m: "mtype m = WRITE" "mdata m = frame hello" "sint (msock m) < 0" using hello_broadcast [OF run] .
  define p1 where "p1 = fold (\<lambda>i. push_msg i m) [0..<?T] (pool (sys s))"
  define s1 where "s1 = s\<lparr>sys := log_call 0 (ToAll hello) p1 (sys s), mpc := MWait\<rparr>"
  have st1: "run_step rd wr pend gone fresh msglen0 s s1" unfolding s1_def p1_def by (rule run_step.bcast [OF s(1) b])
  have "queued {..<?T} m (pool (sys s)) p1" unfolding p1_def using len by (intro queued_fold) simp
  then have "msgq (wthrinfo (pool (sys s1)) ! t) = [m]" if "t < ?T" for t
    using that len s(2) by (simp add: s1_def log_call_def queued_def)
  with st1 run_step_inv [OF st1 inv S] m show ?thesis
    by (intro exI [of _ s1] exI [of _ m]) (simp add: s1_def log_call_def p1_def)
qed

lemma first_write:
  assumes ok: "threads_ok S u" and S: "S \<noteq> []" and T: "0 < thrs u" and st: "wst u 0 = WBcast m 0"
  shows "\<exists>v. thread_step wr u v \<and> pool v = pool u \<and> wst v = (wst u)(0 := WBcast m 1) \<and> (\<forall>fd. gone fd (net v) = gone fd (net u))"
proof -
  let ?i = "wthrinfo (pool u) ! 0" and ?n = "cnt (thrs u) 0 (length S)"
  have "info_ok (thrs u) 0 (unat (max_conns (pool u))) S ?i" "length S \<le> unat (max_conns (pool u))" "wst_ok ?n (WBcast m 0)"
    using ok T st by (auto simp: threads_ok_def pool_inv_def Let_def)
  moreover have "0 < ?n" using less_cnt [OF T, of 0] S by simp
  ultimately have i: "0 < unat (num_socks ?i)" "\<not> length (socks ?i) \<le> 0" "msg_ok ?n m" "mtype m = WRITE"
    using less_cnt [OF T, of 0 "unat (max_conns (pool u))"] S by (auto simp: info_ok_def)
  from writen_exact [of "ucast (mlen m)" "mdata m" "socks ?i ! 0" "net u"] i(3,4) obtain w where
    w: "writen wr (socks ?i ! 0) (mdata m) (ucast (mlen m)) (net u) = Some (mlen m, w)" by (auto simp: msg_ok_def)
  then have "start_send_write wr 0 u = Some (u\<lparr>net := w, wst := (wst u)(0 := WBcast m 1)\<rparr>)"
    using i(1,2) st by (simp add: start_send_write_def Let_def)
  from thread_step.wrt [OF T this] writen_obs [OF w, where obs = "gone fd" for fd] wr_gone show ?thesis
    by (intro exI [of _ "u\<lparr>net := w, wst := (wst u)(0 := WBcast m 1)\<rparr>"]) simp
qed

lemma first_greeted:
  assumes inv: "run_inv rd pend sent S w0 s" and S: "distinct S" "S \<noteq> []"
    and s: "mpc s = MBroadcast" "\<forall>t. wst (sys s) t = WPop" "\<forall>t<thrs (sys s). msgq (wthrinfo (pool (sys s)) ! t) = []"
  shows "\<exists>u m. (run_step rd wr pend gone fresh msglen0)\<^sup>*\<^sup>* s u \<and> mpc u = MWait \<and> thrs (sys u) = thrs (sys s) \<and> out 0 m = frame hello \<and>
    wst (sys u) 0 = WBcast m 1 \<and> msgq (wthrinfo (pool (sys u)) ! 0) = [] \<and> (\<forall>fd. gone fd (net (sys u)) = gone fd (net (sys s))) \<and>
    (\<forall>t<thrs (sys s). t \<noteq> 0 \<longrightarrow> wst (sys u) t = WPop \<and> msgq (wthrinfo (pool (sys u)) ! t) = [m])"
proof -
  let ?step = "run_step rd wr pend gone fresh msglen0"
  from greeting_queued [OF inv S(1) s(1,3)] obtain s1 m where
    s1: "?step s s1" "run_inv rd pend sent S w0 s1" "mpc s1 = MWait" "thrs (sys s1) = thrs (sys s)" "wst (sys s1) = wst (sys s)"
    "net (sys s1) = net (sys s)" "mtype m = WRITE" "mdata m = frame hello" "sint (msock m) < 0"
    "\<forall>t<thrs (sys s). msgq (wthrinfo (pool (sys s1)) ! t) = [m]" by blast
  have ok1: "threads_ok S (sys s1)" and sh: "shut s1 = []" using s1(2,3) by (simp_all add: run_defs)
  have T: "0 < thrs (sys s1)" using ok1 by (auto simp: threads_ok_def pool_inv_def Let_def unat_gt_0)
  have q1: "msgq (wthrinfo (pool (sys s1)) ! 0) = m # []" using s1(4,10) T by simp
  define u2 where "u2 = start_send_pop 0 (sys s1)"
  have "thread_step wr (sys s1) u2" unfolding u2_def using T s1(5) s(2) q1 by (intro thread_step.pop) simp_all
  then have st2: "?step s1 (s1\<lparr>sys := u2\<rparr>)" using run_step.wthr [of s1 wr u2] sh by (simp add: shut_write_nil)
  note p2 = pop_threads_ok [OF ok1 T q1 refl, folded u2_def]
  have w2: "wst u2 = (wst (sys s1))(0 := WBcast m 0)" "net u2 = net (sys s1)" using p2(1) s1(7,9) by simp_all
  from first_write [OF p2(2) S(2)] p2(3) T w2(1) obtain u3 where
    u3: "thread_step wr u2 u3" "pool u3 = pool u2" "wst u3 = (wst u2)(0 := WBcast m 1)" "\<forall>fd. gone fd (net u3) = gone fd (net u2)" by auto
  have st3: "?step (s1\<lparr>sys := u2\<rparr>) (s1\<lparr>sys := u3\<rparr>)"
    using run_step.wthr [of "s1\<lparr>sys := u2\<rparr>" wr u3] u3(1) sh by (simp add: shut_write_nil)
  have "?step\<^sup>*\<^sup>* s (s1\<lparr>sys := u3\<rparr>)" using s1(1) st2 st3 by (meson converse_rtranclp_into_rtranclp rtranclp.rtrancl_refl)
  with s1 w2 u3 p2(3,4) T s(2) show ?thesis
    by (intro exI [of _ "s1\<lparr>sys := u3\<rparr>"] exI [of _ m]) (auto simp: out_def)
qed

text \<open>From an answer that has come in, the main thread gets to the joins without a step of a write thread.\<close>

lemma answer_posts:
  assumes inv: "run_inv rd pend sent S w0 s" and S: "distinct S" and m: "mpc s = MWait" and c: "c < length S"
    and pd: "pend (S ! c) (net (sys s)) \<noteq> []"
  shows "\<exists>u. run_step rd wr pend gone fresh msglen0 s u \<and> mpc u = MWait \<and> thrs (sys u) = thrs (sys s) \<and> sem u \<noteq> 0 \<and>
    rdone u = rdone s \<and> (\<forall>fd. sent fd (net (sys u)) = sent fd (net (sys s)))"
proof -
  let ?t = "c mod thrs (sys s)"
  have bs: "before_stop sent S w0 s" using inv m by (simp add: run_inv_def pipes_closed_def)
  have t: "?t < thrs (sys s)" using inv by (auto simp: run_inv_def threads_ok_def pool_inv_def Let_def unat_gt_0)
  have fd: "S ! c \<in> set (conns_of (rinfo s ?t))" "S ! c \<in> set S" using run_conns(2) [OF inv S t] c by auto
  have nd: "\<not> rdone s ?t" using bs by (simp add: before_stop_def)
  let ?ready = "readable pend gone (mpc s) (rinfo s ?t) (net (sys s))"
  obtain ms where ms: "\<forall>fd \<in> set S. (\<forall>m \<in> set (ms fd). sendable m) \<and> pend fd (net (sys s)) = concat (map frame (ms fd))"
    using run_msgs [OF inv] .
  have cl: "pipes_closed (mpc s) = False" using m by (simp add: pipes_closed_def)
  from run_round [OF inv S t ms] obtain evs buf w where
    rr: "start_read_round rd fresh msglen0 ?ready (rinfo s ?t) (net (sys s)) = Some (Inr (evs, False, buf, w))"
    "map (\<lambda>(n, d). take (unat n) d) evs = concat (map (\<lambda>fd. take 1 (ms fd)) (conns_of (rinfo s ?t)))"
    "\<forall>fd. sent fd w = sent fd (net (sys s))" unfolding cl by blast
  have "ms (S ! c) \<noteq> []" using ms fd(2) pd by auto
  with rr(2) fd(1) have evs: "evs \<noteq> []" by fastforce
  have "rdfd (rinfo s ?t) \<notin> set S" using inv t by (simp add: run_inv_def rinfo_ok_def)
  with fd pd have "?ready (S ! c)" by (auto simp: readable_def)
  with fd(1) have "\<exists>fd \<in> set (conns_of (rinfo s ?t) @ [rdfd (rinfo s ?t)]). ?ready fd" by auto
  from run_step.rthr [OF t nd refl this rr(1)] evs rr(3) m nd show ?thesis
    by (intro exI [of _ "after_round ?t evs False buf w s"]) (auto simp: callbacks_zero fun_upd_idem)
qed

lemma answer_stops:
  assumes inv: "run_inv rd pend sent S w0 s" and S: "distinct S" and m: "mpc s = MWait" and c: "c < length S"
    and pd: "pend (S ! c) (net (sys s)) \<noteq> []"
  shows "\<exists>u. (run_step rd wr pend gone fresh msglen0)\<^sup>*\<^sup>* s u \<and> mpc u = MJoin \<and> thrs (sys u) = thrs (sys s) \<and>
    (\<forall>t. \<not> rdone u t) \<and> (\<forall>fd. sent fd (net (sys u)) = sent fd (net (sys s)))"
proof -
  let ?step = "run_step rd wr pend gone fresh msglen0"
  have bs: "before_stop sent S w0 s" using inv m by (simp add: run_inv_def pipes_closed_def)
  from answer_posts [OF assms] obtain s1 where
    s1: "?step s s1" "mpc s1 = MWait" "thrs (sys s1) = thrs (sys s)" "sem s1 \<noteq> 0" "rdone s1 = rdone s"
    "\<forall>fd. sent fd (net (sys s1)) = sent fd (net (sys s))" by blast
  then obtain n where n: "posix_wait (sem s1) = Some n" by (cases "sem s1") (simp_all add: posix_wait_def)
  define s2 where "s2 = s1\<lparr>sem := n, mpc := MStop\<rparr>"
  have st2: "?step s1 s2" unfolding s2_def by (rule run_step.semw [OF s1(2) n])
  have m2: "mpc s2 = MStop" by (simp add: s2_def)
  have "running (pool (sys s2))" using run_step_inv [OF st2 run_step_inv [OF s1(1) inv S] S] by (simp add: run_inv_def)
  then obtain e where e: "stop_all_signal (pool (sys s2)) = Inr (0, fold (\<lambda>i. push_msg i e) [0..<thrs (sys s2)] (pool (sys s2)))"
    by (rule stop_signal_running)
  define s3 where "s3 = s2\<lparr>sys := (sys s2)\<lparr>pool := fold (\<lambda>i. push_msg i e) [0..<thrs (sys s2)] (pool (sys s2))\<rparr>, mpc := MJoin\<rparr>"
  have st3: "?step s2 s3" unfolding s3_def by (rule run_step.stop [OF m2 e])
  from s1(1) st2 st3 have "?step\<^sup>*\<^sup>* s s3" by (meson converse_rtranclp_into_rtranclp rtranclp.rtrancl_refl)
  with bs s1(3,5,6) show ?thesis by (intro exI [of _ s3]) (simp add: s3_def s2_def before_stop_def)
qed

text \<open>Read threads 1 and 0 end before the write threads go on: what the first two connections have been sent is final.\<close>

lemma readers_close:
  assumes inv: "run_inv rd pend sent S w0 s" and S: "distinct S" "1 < length S" and T: "1 < thrs (sys s)"
    and s: "mpc s = MJoin" "\<forall>t. \<not> rdone s t"
  shows "\<exists>u. (run_step rd wr pend gone fresh msglen0)\<^sup>*\<^sup>* s u \<and> mpc u = MExit \<and>
    (\<forall>fd \<in> {S ! 0, S ! 1}. sent fd (net (sys u)) = sent fd (net (sys s)))"
proof -
  let ?step = "run_step rd wr pend gone fresh msglen0"
  from reader_ends [OF inv S(1) s(1), of 1] T s(2) obtain s1 where
    s1: "?step s s1" "mpc s1 = MJoin" "rdone s1 = (rdone s)(1 := True)" "thrs (sys s1) = thrs (sys s)"
    "set (conns_of (rinfo s 1)) \<subseteq> set (shut s1)" "\<forall>fd. sent fd (net (sys s1)) = sent fd (net (sys s))" by auto
  note inv1 = run_step_inv [OF s1(1) inv S(1)]
  from reader_ends [OF inv1 S(1) s1(2), of 0] T s1(3,4) s(2) obtain s2 where
    s2: "?step s1 s2" "mpc s2 = MJoin" "set (conns_of (rinfo s1 0)) \<union> set (shut s1) \<subseteq> set (shut s2)"
    "\<forall>fd. sent fd (net (sys s2)) = sent fd (net (sys s1))" by auto
  note inv2 = run_step_inv [OF s2(1) inv1 S(1)]
  have "S ! 1 \<in> set (conns_of (rinfo s 1))" "S ! 0 \<in> set (conns_of (rinfo s1 0))"
    using run_conns(2) [OF inv S(1), of 1] run_conns(2) [OF inv1 S(1), of 0] T s1(4) S(2)
    by (fastforce intro: exI [of _ 1], fastforce intro: exI [of _ 0])
  then have F: "set [S ! 0, S ! 1] \<subseteq> set (shut s2)" using s1(5) s2(3) by auto
  from run_to_end [OF inv2 S(1)] obtain u where u: "?step\<^sup>*\<^sup>* s2 u" "\<forall>v. ?step u v \<longrightarrow> v = u" by blast
  have "pipes_closed (mpc s2)" using s2(2) by (simp add: pipes_closed_def)
  note k = shut_kept_steps [OF u(1) inv2 S(1) F this]
  with run_stuck [OF _ S(1) u(2)] have "mpc u = MExit" by (auto simp: pipes_closed_def)
  moreover have "?step\<^sup>*\<^sup>* s u" using s1(1) s2(1) u(1) by (meson converse_rtranclp_into_rtranclp)
  ultimately show ?thesis using k s1(6) s2(4) by auto
qed

lemma greeting_lost:
  assumes inv: "run_inv rd pend sent S w0 s" and S: "distinct S" "1 < length S" and T: "1 < thrs (sys s)"
    and s: "mpc s = MBroadcast" "\<forall>t. wst (sys s) t = WPop" "\<forall>t<thrs (sys s). msgq (wthrinfo (pool (sys s)) ! t) = []"
    and g: "\<not> gone (S ! 0) (net (sys s))"
    and answer: "\<forall>w. \<not> gone (S ! 0) w \<longrightarrow> (\<exists>w'. arrives pend sent gone w w' \<and> pend (S ! 0) w' = pend (S ! 0) w @ frame hello)"
  shows "\<exists>u. run_reach rd wr pend sent gone fresh msglen0 s u \<and> mpc u = MExit \<and>
    sent (S ! 0) (net (sys u)) = sent (S ! 0) w0 @ frame hello \<and> sent (S ! 1) (net (sys u)) = sent (S ! 1) w0"
proof -
  let ?step = "run_step rd wr pend gone fresh msglen0"
  have ne: "S \<noteq> []" using S(2) by auto
  from first_greeted [OF inv S(1) ne s] obtain s3 m where
    s3: "?step\<^sup>*\<^sup>* s s3" "mpc s3 = MWait" "thrs (sys s3) = thrs (sys s)" "out 0 m = frame hello"
    "wst (sys s3) 0 = WBcast m 1" "msgq (wthrinfo (pool (sys s3)) ! 0) = []" "\<forall>fd. gone fd (net (sys s3)) = gone fd (net (sys s))"
    "wst (sys s3) 1 = WPop" "msgq (wthrinfo (pool (sys s3)) ! 1) = [m]" using T by auto
  note r3 = run_steps_reach [OF s3(1) run_reach.start]
  note inv3 = run_reach_inv [OF r3 inv S(1)]
  have "delivered sent S w0 (sys s3)" "calls (sys s3) = [ToAll hello]" using inv3 s3(2) by (simp_all add: run_defs)
  then have d: "c < 2 \<Longrightarrow> sent (S ! c) (net (sys s3)) @ cur 0 (wst (sys s3) c) @ concat (map (out 0) (msgq (wthrinfo (pool (sys s3)) ! c))) =
      sent (S ! c) w0 @ frame hello" for c
    using S(2) T s3(3) by (auto simp: delivered_def Let_def dest!: spec [of _ c])
  from d [of 0] d [of 1] s3(4-9) have sent3: "sent (S ! 0) (net (sys s3)) = sent (S ! 0) w0 @ frame hello"
    "sent (S ! 1) (net (sys s3)) = sent (S ! 1) w0" by simp_all
  from answer g s3(7) obtain w where w: "arrives pend sent gone (net (sys s3)) w" "pend (S ! 0) w = pend (S ! 0) (net (sys s3)) @ frame hello"
    by blast
  note r4 = run_reach.arrive [OF r3 w(1)]
  have sw: "sent fd w = sent fd (net (sys s3))" for fd using w(1) by (simp add: arrives_def)
  have "frame hello \<noteq> []" by (simp add: frame_def hello_def)
  with w(2) s3(2) ne answer_stops [OF run_reach_inv [OF r4 inv S(1)] S(1), of 0] obtain s5 where
    s5: "?step\<^sup>*\<^sup>* (s3\<lparr>sys := (sys s3)\<lparr>net := w\<rparr>\<rparr>) s5" "mpc s5 = MJoin" "thrs (sys s5) = thrs (sys s)" "\<forall>t. \<not> rdone s5 t"
    "\<forall>fd. sent fd (net (sys s5)) = sent fd w" using s3(3) by auto
  note r5 = run_steps_reach [OF s5(1) r4]
  from readers_close [OF run_reach_inv [OF r5 inv S(1)] S _ s5(2,4)] T s5(3) obtain u where
    "?step\<^sup>*\<^sup>* s5 u" "mpc u = MExit" "\<forall>fd \<in> {S ! 0, S ! 1}. sent fd (net (sys u)) = sent fd (net (sys s5))" by auto
  with run_steps_reach [OF _ r5] s5(5) sw sent3 show ?thesis by auto
qed

end

text \<open>
  C17. \<open>stop_all\<close> can lose messages. With at least two threads and two workers there is an execution of the scheduler in which it
  returns normally after the answer of the first worker, while the second worker has been sent nothing: its read thread
  closes the connection as soon as the pipe is closed, and the later \<open>writen\<close> of the greeting fails unnoticed.
\<close>

theorem stop_all_loses_greeting:
  assumes "pool_net rd wr pend sent gone fresh msglen0" and "started_pool nthr cs p" and "distinct (map fst cs)"
    and "\<forall>i \<in> set (rthrinfo p). \<forall>n v. rd (rdfd i) n v = (Some [], v)" and "\<forall>fd \<in> fst ` set cs. pend fd w0 = []"
    and "1 < length cs" and "1 < unat nthr" and "\<not> gone (fst (cs ! 0)) w0"
    and "\<forall>w. \<not> gone (fst (cs ! 0)) w \<longrightarrow>
      (\<exists>w'. arrives pend sent gone w w' \<and> pend (fst (cs ! 0)) w' = pend (fst (cs ! 0)) w @ frame hello)"
  shows "\<exists>s. run_reach rd wr pend sent gone fresh msglen0 (run_init p w0) s \<and> mpc s = MExit \<and>
    sent (fst (cs ! 0)) (net (sys s)) = sent (fst (cs ! 0)) w0 @ frame hello \<and>
    sent (fst (cs ! 1)) (net (sys s)) = sent (fst (cs ! 1)) w0"
proof -
  let ?S = "map fst cs" and ?s = "run_init p w0"
  note p = started_pool_inv [OF assms(2)]
  note inv = run_init_inv [where rd = rd and pend = pend and sent = sent and ?w0.0 = w0, OF assms(2,4,5)]
  have T: "length (wthrinfo p) = unat (num_thrs p)" using p by (simp add: pool_inv_def Let_def)
  have s: "mpc ?s = MBroadcast" "\<forall>t. wst (sys ?s) t = WPop" "\<forall>t<thrs (sys ?s). msgq (wthrinfo (pool (sys ?s)) ! t) = []"
    using p T by (simp_all add: run_init_def pool_init_def)
  have c: "?S ! 0 = fst (cs ! 0)" "?S ! 1 = fst (cs ! 1)" using assms(6) by (auto intro!: nth_map)
  show ?thesis
    using pool_net.greeting_lost [OF assms(1) inv assms(3) _ _ s, unfolded c] assms(6-9) p
    by (simp add: run_init_def pool_init_def)
qed

theorem stop_all_loses_greeting_witness:
  "\<exists>p s. started_pool 2 [(5, []), (6, []), (7, [])] p \<and>
     run_reach (hup_read (map rdfd (rthrinfo p))) hup_write (hup_pend (map rdfd (rthrinfo p))) hup_sent hup_gone (\<lambda>n. replicate n 0)
       (replicate 4 0) (run_init p (demo_world [], \<lambda>_. False)) s \<and> mpc s = MExit \<and> hup_sent 6 (net (sys s)) = []"
proof -
  define cs :: "(c_int \<times> byte list) list" where "cs = [(5, []), (6, []), (7, [])]"
  obtain p where p: "started_pool 2 cs p" unfolding cs_def using demo_started_pool by blast
  let ?P = "map rdfd (rthrinfo p)" and ?w = "(demo_world [], \<lambda>_. False)"
  have P: "5 \<notin> set ?P" using started_pool_readers [OF p] by (auto simp: cs_def)
  have h: "distinct (map fst cs)" "\<forall>i \<in> set (rthrinfo p). \<forall>n v. hup_read ?P (rdfd i) n v = (Some [], v)"
    "\<forall>fd \<in> fst ` set cs. hup_pend ?P fd ?w = []" "1 < length cs" "1 < unat (2 :: u16)" "\<not> hup_gone (fst (cs ! 0)) ?w"
    by (simp_all add: cs_def hup_read_def hup_pend_def hup_gone_def demo_world_def)
  have "\<exists>v'. arrives (hup_pend ?P) hup_sent hup_gone v v' \<and> hup_pend ?P (fst (cs ! 0)) v' = hup_pend ?P (fst (cs ! 0)) v @ frame hello"
    if g: "\<not> hup_gone (fst (cs ! 0)) v" for v
  proof (intro exI conjI)
    let ?v = "((fst v)\<lparr>inb := (inb (fst v))(5 := inb (fst v) 5 @ frame hello)\<rparr>, snd v)"
    show "hup_pend ?P (fst (cs ! 0)) ?v = hup_pend ?P (fst (cs ! 0)) v @ frame hello" using P by (simp add: hup_pend_def cs_def)
    have "\<exists>ms. (\<forall>m \<in> set ms. sendable m) \<and> hup_pend ?P fd ?v = hup_pend ?P fd v @ concat (map frame ms)" for fd
      using P sendable_hello(1) by (intro exI [of _ "if fd = 5 then [hello] else []"]) (simp add: hup_pend_def)
    moreover have "hup_gone fd v \<longrightarrow> hup_gone fd ?v \<and> hup_pend ?P fd ?v = hup_pend ?P fd v" for fd
      using g by (auto simp: hup_defs cs_def)
    ultimately show "arrives (hup_pend ?P) hup_sent hup_gone v ?v" by (simp add: arrives_def hup_sent_def)
  qed
  then have "\<forall>v. \<not> hup_gone (fst (cs ! 0)) v \<longrightarrow>
    (\<exists>v'. arrives (hup_pend ?P) hup_sent hup_gone v v' \<and> hup_pend ?P (fst (cs ! 0)) v' = hup_pend ?P (fst (cs ! 0)) v @ frame hello)" by blast
  from stop_all_loses_greeting [OF hup_net.pool_net_axioms p h this] obtain s where
    "run_reach (hup_read ?P) hup_write (hup_pend ?P) hup_sent hup_gone (\<lambda>n. replicate n 0) (replicate 4 0) (run_init p ?w) s" "mpc s = MExit"
    "hup_sent (fst (cs ! 1)) (net (sys s)) = hup_sent (fst (cs ! 1)) ?w" by (elim exE conjE)
  moreover from this(3) have "hup_sent 6 (net (sys s)) = []" by (simp add: cs_def hup_sent_def demo_world_def)
  ultimately show ?thesis using p unfolding cs_def by (intro exI conjI)
qed

end
