(* ===== verification/Zmq_Util.thy ===== *)
theory Zmq_Util
  imports CT_Prelude
begin

text \<open>
  Sending and receiving ZeroMQ messages (\<open>src/comm_zmq/src/zmq_util.cpp\<close>). ZeroMQ and the C++ wrapper are
  not part of the repository: a record of functions over a world of their own stands for the calls the code
  makes. An exception \<open>zmq::error_t\<close> is \<open>None\<close>. The locale \<open>zmq_link\<close> states what the two ends of a working
  link between two sockets do; theorem: a message sent with the id of its destination is received with that id.
\<close>

type_synonym cliid_t = c_int

text \<open>
  \<open>zrecv\<close> takes the socket and the flag \<open>ZMQ_DONTWAIT\<close> and gives the result of \<open>recv\<close> and the
  contents of the message object (empty if nothing was received); \<open>zsend\<close> takes the bytes and the flag \<open>ZMQ_SNDMORE\<close> and gives the number of bytes
  sent; \<open>zagain\<close> tells whether \<open>zmq_errno() == EAGAIN\<close>, \<open>zalloc\<close> whether \<open>new uint8_t[n]\<close> succeeds; the others
  tell whether the call succeeds.
\<close>

record ('s, 'w) zmq =
  zrecv :: "'s \<Rightarrow> bool \<Rightarrow> 'w \<Rightarrow> (int \<times> byte list) option \<times> 'w"
  zsend :: "'s \<Rightarrow> byte list \<Rightarrow> bool \<Rightarrow> 'w \<Rightarrow> int option \<times> 'w"
  zagain :: "'w \<Rightarrow> bool"
  zalloc :: "nat \<Rightarrow> 'w \<Rightarrow> bool"
  zconnect :: "'s \<Rightarrow> byte list \<Rightarrow> 'w \<Rightarrow> bool \<times> 'w"
  zbind :: "'s \<Rightarrow> byte list \<Rightarrow> 'w \<Rightarrow> bool \<times> 'w"
  zsubscribe :: "'s \<Rightarrow> byte list \<Rightarrow> 'w \<Rightarrow> bool \<times> 'w"

section \<open>Receiving\<close>

text \<open>The second component is the new value of \<open>data\<close>, if it was set.\<close>

definition recv_msg :: "('s, 'w) zmq \<Rightarrow> 's \<Rightarrow> 'w \<Rightarrow> (int \<times> byte list option) \<times> 'w" where
  "recv_msg z sock w =
     (case zrecv z sock False w of
        (None, w) \<Rightarrow> ((-1, None), w)
      | (Some (nbytes, msgt), w) \<Rightarrow>
          if nbytes = 0 then ((0, None), w)
          else if \<not> zalloc z (length msgt) w then ((-1, None), w)
          else ((sint (of_nat (length msgt) :: c_int), Some msgt), w))"

text \<open>The overload with a \<open>cliid_t\<close>: the first part is the id. Its result is not looked at, only its size.\<close>

definition recv_msg_cid :: "('s, 'w) zmq \<Rightarrow> 's \<Rightarrow> 'w \<Rightarrow> (int \<times> cliid_t option \<times> byte list option) \<times> 'w" where
  "recv_msg_cid z sock w =
     (case zrecv z sock False w of
        (None, w) \<Rightarrow> ((-1, None, None), w)
      | (Some (nbytes, msgt), w) \<Rightarrow>
          if length msgt \<noteq> 4 then ((-1, None, None), w)
          else (case recv_msg z sock w of ((n, data), w) \<Rightarrow> ((n, Some (un_le32 msgt), data), w)))"

definition recv_msg_async :: "('s, 'w) zmq \<Rightarrow> 's \<Rightarrow> 'w \<Rightarrow> (int \<times> byte list option) \<times> 'w" where
  "recv_msg_async z sock w =
     (case zrecv z sock True w of
        (None, w) \<Rightarrow> ((-1, None), w)
      | (Some (nbytes, msgt), w) \<Rightarrow>
          if nbytes = 0 then ((if zagain z w then 0 else -1, None), w)
          else if \<not> zalloc z (length msgt) w then ((-1, None), w)
          else ((sint (of_nat (length msgt) :: c_int), Some msgt), w))"

definition recv_msg_async_cid :: "('s, 'w) zmq \<Rightarrow> 's \<Rightarrow> 'w \<Rightarrow> (int \<times> cliid_t option \<times> byte list option) \<times> 'w" where
  "recv_msg_async_cid z sock w =
     (case zrecv z sock True w of
        (None, w) \<Rightarrow> ((-1, None, None), w)
      | (Some (nbytes, msgt), w) \<Rightarrow>
          if nbytes = 0 then ((if zagain z w then 0 else -1, None, None), w)
          else if length msgt \<noteq> 4 then ((-1, None, None), w)
          else (case recv_msg z sock w of ((n, data), w) \<Rightarrow> ((n, Some (un_le32 msgt), data), w)))"

section \<open>Sending\<close>

definition send_part :: "('s, 'w) zmq \<Rightarrow> 's \<Rightarrow> byte list \<Rightarrow> bool \<Rightarrow> 'w \<Rightarrow> int \<times> 'w" where
  "send_part z sock data sndmore w =
     (case zsend z sock data sndmore w of (None, w) \<Rightarrow> (-1, w) | (Some nbytes, w) \<Rightarrow> (nbytes, w))"

definition send_msg :: "('s, 'w) zmq \<Rightarrow> 's \<Rightarrow> byte list \<Rightarrow> 'w \<Rightarrow> int \<times> 'w" where
  "send_msg z sock data w = send_part z sock data False w"

definition send_msg_cid :: "('s, 'w) zmq \<Rightarrow> 's \<Rightarrow> cliid_t \<Rightarrow> byte list \<Rightarrow> 'w \<Rightarrow> int \<times> 'w" where
  "send_msg_cid z sock cid data w =
     (case send_part z sock (le32 cid) True w of
        (nbytes, w) \<Rightarrow> if nbytes \<noteq> 4 then (-1, w) else send_msg z sock data w)"

lemma send_msg_results: "fst (send_msg_cid z sock cid data w) < 0 \<or> fst (send_part z sock (le32 cid) True w) = 4"
  by (simp add: send_msg_cid_def split: prod.splits)

section \<open>A working link\<close>

text \<open>
  \<open>chan\<close> are the message parts sent from \<open>src\<close> that \<open>dst\<close> has not received yet; the law of \<open>recv\<close> holds while there are any.
\<close>

locale zmq_link =
  fixes z :: "('s, 'w) zmq" and src dst :: 's and chan :: "'w \<Rightarrow> byte list list"
  assumes link_send: "\<exists>w'. zsend z src data sndmore w = (Some (int (length data)), w') \<and> chan w' = chan w @ [data]"
    and link_recv: "chan w = p # ps \<Longrightarrow> \<exists>w'. zrecv z dst nowait w = (Some (1, p), w') \<and> chan w' = ps"
    and link_alloc: "zalloc z n w"
begin

lemma send_msg_cid_link:
  "\<exists>w'. send_msg_cid z src cid data w = (int (length data), w') \<and> chan w' = chan w @ [le32 cid, data]"
proof -
  from link_send [of "le32 cid" True w] obtain w1 where
    w1: "zsend z src (le32 cid) True w = (Some 4, w1)" "chan w1 = chan w @ [le32 cid]" by auto
  from link_send [of data False w1] obtain w2 where
    "zsend z src data False w1 = (Some (int (length data)), w2)" "chan w2 = chan w1 @ [data]" by auto
  with w1 show ?thesis by (simp add: send_msg_cid_def send_part_def send_msg_def)
qed

lemma recv_msg_cid_link:
  assumes "chan w = le32 cid # data # ps" "length data < 2 ^ 31"
  shows "\<exists>w'. recv_msg_cid z dst w = ((int (length data), Some cid, Some data), w') \<and> chan w' = ps"
    and "\<exists>w'. recv_msg_async_cid z dst w = ((int (length data), Some cid, Some data), w') \<and> chan w' = ps"
proof -
  have "sint (of_nat (length data) :: c_int) = int (length data)"
    using assms(2) by (simp add: signed_of_nat signed_take_bit_int_eq_self)
  note len = this
  have body: "\<exists>w'. recv_msg z dst w1 = ((int (length data), Some data), w') \<and> chan w' = ps"
    if "chan w1 = data # ps" for w1
    using link_recv [OF that, of False] len by (auto simp: recv_msg_def link_alloc)
  show "\<exists>w'. recv_msg_cid z dst w = ((int (length data), Some cid, Some data), w') \<and> chan w' = ps"
    using link_recv [OF assms(1), of False] body by (fastforce simp: recv_msg_cid_def)
  show "\<exists>w'. recv_msg_async_cid z dst w = ((int (length data), Some cid, Some data), w') \<and> chan w' = ps"
    using link_recv [OF assms(1), of True] body by (fastforce simp: recv_msg_async_cid_def)
qed

end

text \<open>A link held in memory.\<close>

definition inproc :: "(bool, byte list list) zmq" where
  "inproc = \<lparr>zrecv = (\<lambda>s nowait w. case w of [] \<Rightarrow> (Some (0, []), []) | p # ps \<Rightarrow> (Some (1, p), ps)),
     zsend = (\<lambda>s d sndmore w. (Some (int (length d)), w @ [d])), zagain = (\<lambda>_. True), zalloc = (\<lambda>_ _. True),
     zconnect = (\<lambda>_ _ w. (True, w)), zbind = (\<lambda>_ _ w. (True, w)), zsubscribe = (\<lambda>_ _ w. (True, w))\<rparr>"

interpretation inproc_link: zmq_link inproc False True "\<lambda>w. w"
  by unfold_locales (auto simp: inproc_def)

text \<open>
  Messages sent with \<open>send_msg\<close> to an id over a working link are received by \<open>recv_msg\<close> and by
  \<open>recv_msg_async\<close> with the same id, the same bytes and their number as the result, whatever is
  sent after them.
\<close>

lemma addressed_message_roundtrip:
  assumes "zmq_link z src dst chan" and "chan w = []" and "length data < 2 ^ 31"
  shows "\<exists>w1. send_msg_cid z src cid data w = (int (length data), w1) \<and>
    (\<exists>w2. send_msg_cid z src cid' data' w1 = (int (length data'), w2) \<and>
      (\<exists>w3. recv_msg_cid z dst w2 = ((int (length data), Some cid, Some data), w3) \<and> chan w3 = [le32 cid', data']) \<and>
      (\<exists>w3. recv_msg_async_cid z dst w2 = ((int (length data), Some cid, Some data), w3) \<and> chan w3 = [le32 cid', data']))"
proof -
  obtain w1 where w1: "send_msg_cid z src cid data w = (int (length data), w1)" "chan w1 = [le32 cid, data]"
    using zmq_link.send_msg_cid_link [OF assms(1), of cid data w] assms(2) by auto
  obtain w2 where w2: "send_msg_cid z src cid' data' w1 = (int (length data'), w2)"
    "chan w2 = le32 cid # data # [le32 cid', data']"
    using zmq_link.send_msg_cid_link [OF assms(1), of cid' data' w1] w1(2) by auto
  from zmq_link.recv_msg_cid_link [OF assms(1) w2(2) assms(3)] w1(1) w2(1) show ?thesis by blast
qed

lemma addressed_message_roundtrip_witness:
  "\<exists>w1 w2. send_msg_cid inproc False 17 [1, 2] [] = (2, w1) \<and>
     send_msg_cid inproc False 33 [3] w1 = (1, w2) \<and> (\<exists>w3. recv_msg_cid inproc True w2 = ((2, Some 17, Some [1, 2]), w3))"
  using addressed_message_roundtrip [OF inproc_link.zmq_link_axioms, of "[]" "[1, 2]" 17 33 "[3]"] by auto

end
