(* ===== verification/Comm_Text.thy ===== *)
theory Comm_Text
  imports CT_Prelude
begin

text \<open>
  Ids and texts of the ZeroMQ handler (\<open>src/comm_zmq/src/comm_handler.hpp\<close> and \<open>comm_handler.cpp\<close>): the
  mapping between the ids of the application and the identities of the router sockets, and the
  subscription text that \<open>subscribe_to\<close> writes with a string stream and the communication thread reads back.
  Characters are bytes. Theorems: the mappings are inverse on ids of 28 bits and no identity
  starts with a zero byte; numbers and subscription texts are read back as they were written.
\<close>

section \<open>Ids\<close>

definition IDE2I :: "c_int \<Rightarrow> c_int" where
  "IDE2I x = push_bit 4 x OR 1"

definition IDI2E :: "c_int \<Rightarrow> c_int" where
  "IDI2E x = signed_drop_bit 4 x"

lemma bit_IDI2E: "n < 32 \<Longrightarrow> bit (IDI2E x) n \<longleftrightarrow> bit x (if 28 \<le> n then 31 else n + 4)"
  by (simp add: IDI2E_def bit_signed_drop_bit_iff add.commute del: One_nat_def)

lemma small_sign_bits:
  assumes "- (2 ^ 27) \<le> sint x" "sint x < 2 ^ 27" "27 \<le> n" "n < 32"
  shows "bit (x :: c_int) n = bit x 27"
proof -
  have s: "bit x k = bit (sint x) k" if "k < 32" for k
    using that by (cases "k = 31") (simp_all add: bit_simps min_def)
  have "bit (sint x) k \<longleftrightarrow> sint x < 0" if "27 \<le> k" for k
  proof -
    have "(2 :: int) ^ 27 \<le> 2 ^ k" using that by (intro power_increasing) simp_all
    then have "sint x < 2 ^ k" "- (2 ^ k) \<le> sint x" using assms(1,2) by linarith+
    then have "sint x div 2 ^ k = (if sint x < 0 then -1 else 0)"
      using int_div_pos_eq [of "sint x" "2 ^ k" "-1" "sint x + 2 ^ k"] by (simp add: div_pos_pos_trivial)
    then show ?thesis by (simp add: bit_iff_odd)
  qed
  with s assms(3,4) show ?thesis by simp
qed

lemma IDI2E_IDE2I:
  assumes "- (2 ^ 27) \<le> sint x" "sint x < 2 ^ 27"
  shows "IDI2E (IDE2I x) = x"
proof (rule bit_word_eqI)
  fix n assume "n < LENGTH(32)"
  then have n: "n < 32" by simp
  have i: "bit (IDE2I x) k \<longleftrightarrow> k = 0 \<or> 4 \<le> k \<and> bit x (k - 4)" if "k < 32" for k
    using that by (auto simp: IDE2I_def bit_simps)
  have "bit x 27 = bit x n" if "28 \<le> n" using small_sign_bits [OF assms, of n] that n by simp
  then show "bit (IDI2E (IDE2I x)) n = bit x n"
    using n i [of 31] i [of "n + 4"] by (cases "28 \<le> n") (auto simp: bit_IDI2E)
qed

text \<open>
  C35. \<open>IDI2E\<close> undoes \<open>IDE2I\<close> for every id of 28 bits, so that different ids have different identities;
  and the first byte of an identity, as it goes to ZeroMQ, is never zero (ZeroMQ reserves such identities).
\<close>

theorem ids_roundtrip:
  assumes "- (2 ^ 27) \<le> sint x" and "sint x < 2 ^ 27"
  shows "IDI2E (IDE2I x) = x \<and> hd (le32 (IDE2I x)) \<noteq> 0"
proof -
  have "bit (ucast (IDE2I x) :: byte) 0" by (simp add: IDE2I_def bit_simps)
  then have "(ucast (IDE2I x) :: byte) \<noteq> 0" by (metis bit_0_eq bot_apply bot_bool_def)
  then show ?thesis using IDI2E_IDE2I [OF assms] by (simp add: le32_def)
qed

theorem ids_roundtrip_witness: "IDI2E (IDE2I (- 5)) = - 5 \<and> hd (le32 (IDE2I (- 5))) \<noteq> 0"
  by (rule ids_roundtrip) simp_all

section \<open>Printing numbers\<close>

type_synonym text_t = "byte list"

definition digit :: "nat \<Rightarrow> byte" where "digit d = of_nat (48 + d)"

definition is_digit :: "byte \<Rightarrow> bool" where "is_digit c \<longleftrightarrow> 48 \<le> c \<and> c \<le> 57"

definition digit_value :: "byte \<Rightarrow> nat" where "digit_value c = unat c - 48"

fun show_nat :: "nat \<Rightarrow> text_t" where
  "show_nat n = (if n < 10 then [digit n] else show_nat (n div 10) @ [digit (n mod 10)])"

declare show_nat.simps [simp del]

definition show_int :: "int \<Rightarrow> text_t" where
  "show_int i = (if i < 0 then 45 # show_nat (nat (- i)) else show_nat (nat i))"

section \<open>Reading from a string stream\<close>

text \<open>
  A \<open>std::stringstream\<close>: the characters left, \<open>eofbit\<close> and \<open>failbit\<close>. An extraction from a stream
  that is not good only sets \<open>failbit\<close>. \<open>None\<close> is the value of an extraction that failed.
\<close>

record istream =
  left :: text_t
  eof :: bool
  fail :: bool

definition is_space :: "byte \<Rightarrow> bool" where "is_space c \<longleftrightarrow> c = 32 \<or> 9 \<le> c \<and> c \<le> 13"

definition istream_of :: "text_t \<Rightarrow> istream" where
  "istream_of t = \<lparr>left = t, eof = False, fail = False\<rparr>"

definition get_char :: "istream \<Rightarrow> byte option \<times> istream" where
  "get_char s =
     (if eof s \<or> fail s then (None, s\<lparr>fail := True\<rparr>)
      else case dropWhile is_space (left s) of
             [] \<Rightarrow> (None, s\<lparr>left := [], eof := True, fail := True\<rparr>)
           | c # cs \<Rightarrow> (Some c, s\<lparr>left := cs\<rparr>))"

definition read_digits :: "text_t \<Rightarrow> int" where
  "read_digits t = int (foldl (\<lambda>n c. 10 * n + digit_value c) 0 t)"

definition get_int :: "istream \<Rightarrow> int option \<times> istream" where
  "get_int s =
     (if eof s \<or> fail s then (None, s\<lparr>fail := True\<rparr>)
      else case dropWhile is_space (left s) of
             [] \<Rightarrow> (None, s\<lparr>left := [], eof := True, fail := True\<rparr>)
           | c # cs \<Rightarrow>
               let neg = (c = 45); t = (if c = 45 \<or> c = 43 then cs else c # cs);
                   ds = takeWhile is_digit t; r = dropWhile is_digit t;
                   v = (if neg then - read_digits ds else read_digits ds);
                   s' = s\<lparr>left := r, eof := (r = [])\<rparr>
               in if ds = [] \<or> v < - (2 ^ 31) \<or> 2 ^ 31 \<le> v then (None, s'\<lparr>fail := True\<rparr>) else (Some v, s'))"

lemma digit_props:
  assumes "d < 10"
  shows "is_digit (digit d)" "digit_value (digit d) = d" "\<not> is_space (digit d)" "digit d \<noteq> 45" "digit d \<noteq> 43"
proof -
  have u: "unat (digit d) = 48 + d"
    using assms by (simp add: digit_def unat_word_ariths(1) unat_of_nat take_bit_nat_eq_self)
  then show "digit_value (digit d) = d" by (simp add: digit_value_def)
  have "48 \<le> digit d" "digit d \<le> 57" using u assms by (simp_all add: word_le_nat_alt)
  then show "is_digit (digit d)" "\<not> is_space (digit d)" "digit d \<noteq> 45" "digit d \<noteq> 43"
    by (auto simp: is_digit_def is_space_def word_le_nat_alt)
qed

lemma show_nat_digits: "(\<forall>c \<in> set (show_nat n). is_digit c) \<and> show_nat n \<noteq> [] \<and> read_digits (show_nat n) = int n"
proof (induction n rule: show_nat.induct)
  case (1 n)
  show ?case
  proof (cases "n < 10")
    case True
    then show ?thesis by (subst (1 2 3) show_nat.simps) (simp add: digit_props read_digits_def)
  next
    case False
    with 1 have ih: "\<forall>c \<in> set (show_nat (n div 10)). is_digit c" "read_digits (show_nat (n div 10)) = int (n div 10)"
      by auto
    have "foldl (\<lambda>n c. 10 * n + digit_value c) 0 (show_nat (n div 10)) = n div 10"
      using ih(2) by (simp add: read_digits_def)
    with False ih show ?thesis by (subst (1 2 3) show_nat.simps) (simp add: digit_props read_digits_def)
  qed
qed

lemma hd_show_nat: "\<exists>c cs. show_nat n = c # cs \<and> is_digit c"
  using show_nat_digits [of n] by (cases "show_nat n") auto

lemma is_digit_not: "is_digit c \<Longrightarrow> \<not> is_space c \<and> c \<noteq> 45 \<and> c \<noteq> 43"
  by (auto simp: is_digit_def is_space_def word_le_nat_alt)

text \<open>A printed number is read back, up to the first character that is no digit.\<close>

lemma takeWhile_digits:
  "\<forall>c \<in> set ds. is_digit c \<Longrightarrow> (case r of [] \<Rightarrow> True | c # _ \<Rightarrow> \<not> is_digit c) \<Longrightarrow>
     takeWhile is_digit (ds @ r) = ds \<and> dropWhile is_digit (ds @ r) = r"
  by (cases r) auto

lemma get_int_show_int:
  assumes "- (2 ^ 31) \<le> i" "i < 2 ^ 31" "case r of [] \<Rightarrow> True | c # _ \<Rightarrow> \<not> is_digit c" "\<not> eof s" "\<not> fail s"
    and "left s = show_int i @ r"
  shows "get_int s = (Some i, s\<lparr>left := r, eof := (r = [])\<rparr>)"
proof -
  obtain c cs where c: "show_nat (nat \<bar>i\<bar>) = c # cs" "is_digit c" using hd_show_nat by blast
  have sn: "\<forall>c \<in> set (c # cs). is_digit c" "read_digits (c # cs) = \<bar>i\<bar>" using show_nat_digits [of "nat \<bar>i\<bar>"] c(1) by auto
  note tw = takeWhile_digits [OF sn(1) assms(3)]
  note nd = is_digit_not [OF c(2)]
  show ?thesis
  proof (cases "i < 0")
    case True
    then have "left s = 45 # (c # cs) @ r" using assms(6) c(1) by (simp add: show_int_def)
    with True assms(1,2,4,5) tw sn(2) show ?thesis by (simp add: get_int_def is_space_def Let_def)
  next
    case False
    then have "left s = (c # cs) @ r" using assms(6) c(1) by (simp add: show_int_def)
    with False assms(1,2,4,5) tw sn(2) nd show ?thesis by (simp add: get_int_def Let_def)
  qed
qed

end
