(* ===== verification/Comm_Handler.thy ===== *)
theory Comm_Handler
  imports Zmq_Util Comm_Text
begin

text \<open>
  The communication thread of the ZeroMQ handler (\<open>start_handler\<close> of \<open>src/comm_zmq/src/comm_handler.cpp\<close>):
  one function per polled socket, over the state of a \<open>comm_handler\<close> object and the ZeroMQ world, and the
  round of the polling loop that calls them in the order of the code. Log output is left out.
  Theorems: what becomes of every message from the router, that the error code is set on every
  failure and never cleared, which handlers release the thread that waits for them, and that subscriptions are
  made as they were asked for.
\<close>

section \<open>State\<close>

text \<open>The sockets of the object; those with a name in \<open>push\<close> or \<open>pull\<close> that are not in the object are the application threads' own.\<close>

datatype zsock = Msgq | Taskq | Conn_sock | Shutdown_sock | Router_sock | Monitor_sock | Pub_sendpull | Pubstart_pull
  | Suberq | Subpull | Pub_sock | Sub_sock
  | Msgpush | Taskpull | Connpush | Pub_sendpush | Pubstart_push | Suberq_pull | Subpush | Shutdown_push

record comm_handler =
  comm_id :: cliid_t
  ip :: text_t
  port :: text_t
  errcode :: int
  clientq :: "cliid_t list"
  clientmap :: "cliid_t \<rightharpoonup> bool"
  publishermap :: "cliid_t \<rightharpoonup> bool"
  accept_conns :: bool
  sync_mtx :: bool

datatype zevent = CONNECTED | ACCEPTED | DISCONNECTED | OTHER

text \<open>
  What the thread gets from outside: ZeroMQ; the bytes in memory after a received message (\<open>beyond\<close>) and
  the value of an uninitialised variable (\<open>junk\<close>), which the code can read; the size and the kind of a \<open>zmq_event_t\<close>.
\<close>

record 'w env =
  zz :: "(zsock, 'w) zmq"
  beyond :: "byte list"
  junk :: cliid_t
  evsize :: nat
  evof :: "byte list \<Rightarrow> zevent"

text \<open>After a handler the loop goes on, or the thread returns, or the process crashes.\<close>

datatype 'w turn = Go comm_handler 'w | Stop comm_handler 'w | Crash fault

definition COMM_HANDLER_INIT :: text_t where "COMM_HANDLER_INIT = map of_char ''comm_handler_hello''"
definition COMM_HANDLER_PUB_INIT :: text_t where "COMM_HANDLER_PUB_INIT = map of_char ''pub_hello''"
definition COMM_HANDLER_SUB_INIT :: text_t where "COMM_HANDLER_SUB_INIT = map of_char ''sub_hello''"

text \<open>A message read as a C string: up to the first zero byte, which may lie behind the message.\<close>

definition c_string :: "'w env \<Rightarrow> byte list option \<Rightarrow> text_t option" where
  "c_string e d = (case d of None \<Rightarrow> None
     | Some bs \<Rightarrow> if 0 \<in> set (bs @ beyond e) then Some (takeWhile (\<lambda>b. b \<noteq> 0) (bs @ beyond e)) else None)"

definition bytes :: "byte list option \<Rightarrow> byte list" where
  "bytes d = (case d of None \<Rightarrow> [] | Some bs \<Rightarrow> bs)"

abbreviation failed :: "comm_handler \<Rightarrow> comm_handler" where "failed c \<equiv> c\<lparr>errcode := 1\<rparr>"
abbreviation unlock :: "comm_handler \<Rightarrow> comm_handler" where "unlock c \<equiv> c\<lparr>sync_mtx := False\<rparr>"

section \<open>One function per polled socket\<close>

definition on_msgq :: "'w env \<Rightarrow> comm_handler \<Rightarrow> 'w \<Rightarrow> 'w turn" where
  "on_msgq e c w =
     (case recv_msg_cid (zz e) Msgq w of
        ((len, Some cid, data), w) \<Rightarrow>
          if len < 0 then Stop (failed c) w
          else (case send_msg_cid (zz e) Router_sock cid (bytes data) w of (_, w) \<Rightarrow> Go c w)
      | ((_, None, _), w) \<Rightarrow> Stop (failed c) w)"

definition on_router :: "'w env \<Rightarrow> comm_handler \<Rightarrow> 'w \<Rightarrow> 'w turn" where
  "on_router e c w =
     (case recv_msg_cid (zz e) Router_sock w of
        ((len, Some cid, data), w) \<Rightarrow>
          if len < 0 then Stop (failed c) w
          else if bytes data = COMM_HANDLER_SUB_INIT @ [0] then
            (case send_msg_cid (zz e) Suberq cid (bytes data) w of (_, w) \<Rightarrow> Go (unlock c) w)
          else
            (case clientmap c cid of
               None \<Rightarrow> Go (c\<lparr>clientmap := (clientmap c)(cid \<mapsto> True), clientq := clientq c @ [IDI2E cid]\<rparr>) w
             | Some False \<Rightarrow> Go (c\<lparr>clientmap := (clientmap c)(cid \<mapsto> True), clientq := clientq c @ [IDI2E cid]\<rparr>) w
             | Some True \<Rightarrow> (case send_msg_cid (zz e) Taskq cid (bytes data) w of (_, w) \<Rightarrow> Go c w))
      | ((_, None, _), w) \<Rightarrow> Stop (failed c) w)"

definition on_monitor :: "'w env \<Rightarrow> comm_handler \<Rightarrow> 'w \<Rightarrow> 'w turn" where
  "on_monitor e c w =
     (case recv_msg (zz e) Monitor_sock w of
        ((len, data), w) \<Rightarrow>
          if len < 0 then Stop (failed c) w
          else if len \<noteq> int (evsize e) then Crash Abort
          else (case evof e (bytes data) of OTHER \<Rightarrow> Stop (failed c) w | _ \<Rightarrow> Go c w))"

text \<open>\<open>while(ret < 0) ret = send_msg(...)\<close>: the greeting is repeated until the router has the connection.\<close>

partial_function (option) greet :: "(zsock, 'w) zmq \<Rightarrow> cliid_t \<Rightarrow> 'w \<Rightarrow> 'w option" where
  "greet z destid w =
     (case send_msg_cid z Router_sock destid (COMM_HANDLER_INIT @ [0]) w of
        (ret, w) \<Rightarrow> if ret < 0 then greet z destid w else Some w)"

definition on_conn :: "'w env \<Rightarrow> comm_handler \<Rightarrow> 'w \<Rightarrow> 'w turn option" where
  "on_conn e c w =
     (case recv_msg_cid (zz e) Conn_sock w of
        ((ret, Some destid, data), w) \<Rightarrow>
          if ret < 0 then Some (Stop (unlock (failed c)) w)
          else
            (case c_string e data of
               None \<Rightarrow> Some (Crash Undefined)
             | Some connstr \<Rightarrow>
                 (case zconnect (zz e) Router_sock connstr w of
                    (False, w) \<Rightarrow> Some (Stop (unlock (failed c)) w)
                  | (True, w) \<Rightarrow>
                      (let c = c\<lparr>clientmap := (clientmap c)(destid \<mapsto> True)\<rparr> in
                       case greet (zz e) destid w of None \<Rightarrow> None | Some w \<Rightarrow> Some (Go (unlock c) w))))
      | ((_, None, _), w) \<Rightarrow> Some (Stop (unlock (failed c)) w))"

definition on_pub_sendpull :: "'w env \<Rightarrow> comm_handler \<Rightarrow> 'w \<Rightarrow> 'w turn" where
  "on_pub_sendpull e c w =
     (case recv_msg_cid (zz e) Pub_sendpull w of
        ((len, Some gid, data), w) \<Rightarrow>
          if len < 0 then Stop (failed c) w
          else if sint gid < 0 then Stop (failed c) w
          else (case send_msg_cid (zz e) Pub_sock gid (bytes data) w of
                  (ret, w) \<Rightarrow> if ret < 0 then Stop (failed c) w else Go c w)
      | ((_, None, _), w) \<Rightarrow> Stop (failed c) w)"

text \<open>
  \<open>dstr.find('&')\<close> and the two calls of \<open>substr\<close>: without the delimiter both parts are the whole text.
\<close>

definition split_amp :: "text_t \<Rightarrow> text_t \<times> text_t" where
  "split_amp t = (if 38 \<in> set t then (takeWhile (\<lambda>b. b \<noteq> 38) t, tl (dropWhile (\<lambda>b. b \<noteq> 38) t)) else (t, t))"

text \<open>The \<open>do ... while(!ss.eof())\<close> loop over the group ids; the result tells whether all calls succeeded.\<close>

partial_function (option) subscribe_loop :: "'w env \<Rightarrow> istream \<Rightarrow> 'w \<Rightarrow> (bool \<times> 'w) option" where
  "subscribe_loop e ss w =
     (let (temp, ss) = get_char ss; (g, ss) = get_int ss;
          gid = (case g of None \<Rightarrow> junk e | Some v \<Rightarrow> word_of_int v)
      in case zsubscribe (zz e) Sub_sock (le32 gid) w of
           (ok, w) \<Rightarrow>
             if \<not> ok then Some (False, w)
             else if eof ss then Some (True, w) else subscribe_loop e ss w)"

definition on_subpull :: "'w env \<Rightarrow> comm_handler \<Rightarrow> 'w \<Rightarrow> 'w turn option" where
  "on_subpull e c w =
     (case recv_msg (zz e) Subpull w of
        ((len, data), w) \<Rightarrow>
          if len < 0 then Some (Stop (failed c) w)
          else
            (case c_string e data of
               None \<Rightarrow> Some (Crash Undefined)
             | Some dstr \<Rightarrow>
                 (let (addr, gids) = split_amp dstr;
                      (ok, w) = (if addr \<noteq> [] then zconnect (zz e) Sub_sock addr w else (True, w))
                  in if \<not> ok then Some (Stop (failed c) w)
                     else
                       (case subscribe_loop e (istream_of gids) w of
                          None \<Rightarrow> None
                        | Some (False, w) \<Rightarrow> Some (Stop (failed c) w)
                        | Some (True, w) \<Rightarrow> Some (Go c w)))))"

definition on_sub_sock :: "'w env \<Rightarrow> comm_handler \<Rightarrow> 'w \<Rightarrow> 'w turn" where
  "on_sub_sock e c w =
     (case recv_msg_cid (zz e) Sub_sock w of
        ((len, Some cid, data), w) \<Rightarrow>
          if len < 0 then Stop (failed c) w
          else if take 9 (bytes data @ beyond e) = COMM_HANDLER_PUB_INIT then
            (case c_string e data of
               None \<Rightarrow> Crash Undefined
             | Some dstr \<Rightarrow>
                 (let cid = (case fst (get_int (istream_of (snd (split_amp dstr)))) of
                               None \<Rightarrow> junk e | Some v \<Rightarrow> word_of_int v)
                  in case publishermap c cid of
                       None \<Rightarrow>
                         (case send_msg_cid (zz e) Router_sock cid (COMM_HANDLER_SUB_INIT @ [0]) w of
                            (_, w) \<Rightarrow> Go (unlock (c\<lparr>publishermap := (publishermap c)(cid \<mapsto> True)\<rparr>)) w)
                     | Some _ \<Rightarrow> Go c w))
          else (case send_msg_cid (zz e) Taskq (IDE2I cid) (bytes data) w of (_, w) \<Rightarrow> Go c w)
      | ((_, None, _), w) \<Rightarrow> Stop (failed c) w)"

definition on_pubstart :: "'w env \<Rightarrow> comm_handler \<Rightarrow> 'w \<Rightarrow> 'w turn" where
  "on_pubstart e c w =
     (case recv_msg (zz e) Pubstart_pull w of
        ((len, data), w) \<Rightarrow>
          if len < 0 then Stop (failed c) w
          else
            (case c_string e data of
               None \<Rightarrow> Crash Undefined
             | Some addr \<Rightarrow>
                 (case zbind (zz e) Pub_sock addr w of
                    (False, w) \<Rightarrow> Stop (failed c) w
                  | (True, w) \<Rightarrow> Go (unlock c) w)))"

definition on_shutdown :: "'w env \<Rightarrow> comm_handler \<Rightarrow> 'w \<Rightarrow> 'w turn" where
  "on_shutdown e c w = Stop c w"

section \<open>The polling loop\<close>

text \<open>Handlers in the order of the code; \<open>ready\<close> are the sockets with \<open>revents\<close> set.\<close>

definition handlers :: "'w env \<Rightarrow> (zsock \<times> (comm_handler \<Rightarrow> 'w \<Rightarrow> 'w turn option)) list" where
  "handlers e =
     [(Msgq, \<lambda>c w. Some (on_msgq e c w)), (Router_sock, \<lambda>c w. Some (on_router e c w)),
      (Monitor_sock, \<lambda>c w. Some (on_monitor e c w)), (Conn_sock, on_conn e),
      (Pub_sendpull, \<lambda>c w. Some (on_pub_sendpull e c w)), (Subpull, on_subpull e),
      (Sub_sock, \<lambda>c w. Some (on_sub_sock e c w)), (Pubstart_pull, \<lambda>c w. Some (on_pubstart e c w)),
      (Shutdown_sock, \<lambda>c w. Some (on_shutdown e c w))]"

fun run_handlers :: "(zsock \<Rightarrow> bool) \<Rightarrow> (zsock \<times> (comm_handler \<Rightarrow> 'w \<Rightarrow> 'w turn option)) list \<Rightarrow>
    comm_handler \<Rightarrow> 'w \<Rightarrow> 'w turn option" where
  "run_handlers ready [] c w = Some (Go c w)"
| "run_handlers ready ((s, h) # hs) c w =
     (if ready s then
        (case h c w of Some (Go c w) \<Rightarrow> run_handlers ready hs c w | r \<Rightarrow> r)
      else run_handlers ready hs c w)"

text \<open>One turn of the loop; \<open>None\<close> for \<open>ready\<close> means that \<open>zmq::poll\<close> threw an exception.\<close>

definition handler_round :: "'w env \<Rightarrow> (zsock \<Rightarrow> bool) option \<Rightarrow> comm_handler \<Rightarrow> 'w \<Rightarrow> 'w turn option" where
  "handler_round e ready c w =
     (case ready of None \<Rightarrow> Some (Stop (failed c) w) | Some f \<Rightarrow> run_handlers f (handlers e) c w)"

text \<open>\<open>start_handler\<close> up to the loop, with the results of the set-up calls.\<close>

definition start_handler :: "bool \<Rightarrow> bool \<Rightarrow> bool \<Rightarrow> 'w env \<Rightarrow> comm_handler \<Rightarrow> 'w \<Rightarrow> 'w turn" where
  "start_handler opts_ok monitor_ok connect_ok e c w =
     (if \<not> opts_ok then Stop (unlock c) w
      else if \<not> monitor_ok then Stop (unlock (failed c)) w
      else if \<not> connect_ok then Stop (unlock c) w
      else if accept_conns c then
        (case zbind (zz e) Router_sock (map of_char ''tcp://'' @ ip c @ map of_char '':'' @ port c) w of
           (False, w) \<Rightarrow> Stop (unlock c) w
         | (True, w) \<Rightarrow> Go (unlock c) w)
      else Go (unlock c) w)"

section \<open>What a round may change\<close>

text \<open>
  A relation between states that is kept by every kind of update a handler makes before the loop goes on is kept by
  a whole round.
\<close>

locale round_relation =
  fixes R :: "comm_handler \<Rightarrow> comm_handler \<Rightarrow> bool"
  assumes R_refl: "R c c"
    and R_trans: "R a b \<Longrightarrow> R b c \<Longrightarrow> R a c"
    and R_unlock: "R c (unlock c)"
    and R_client: "R c (c\<lparr>clientmap := (clientmap c)(i \<mapsto> True), clientq := clientq c @ q\<rparr>)"
    and R_publisher: "R c (c\<lparr>publishermap := (publishermap c)(i \<mapsto> True)\<rparr>)"
begin

lemma R_dest: "R c (c\<lparr>clientmap := (clientmap c)(i \<mapsto> True)\<rparr>)"
  using R_client [where q = "[]"] by simp

lemma R_unlock': "R c d \<Longrightarrow> R c (unlock d)"
  using R_trans R_unlock by blast

lemma on_msgq_R: "on_msgq e c w = Go c' w' \<Longrightarrow> R c c'"
  by (auto simp: on_msgq_def R_refl split: prod.splits option.splits if_splits)

lemma on_router_R: "on_router e c w = Go c' w' \<Longrightarrow> R c c'"
  by (auto simp: on_router_def R_refl R_unlock R_client split: prod.splits option.splits if_splits bool.splits)

lemma on_monitor_R: "on_monitor e c w = Go c' w' \<Longrightarrow> R c c'"
  by (auto simp: on_monitor_def R_refl split: prod.splits if_splits zevent.splits)

lemma on_conn_R:
  assumes "on_conn e c w = Some (Go c' w')"
  shows "R c c'"
proof -
  from assms obtain i where "c' = unlock (c\<lparr>clientmap := (clientmap c)(i \<mapsto> True)\<rparr>)"
    by (auto simp: on_conn_def Let_def split: prod.splits option.splits if_splits bool.splits)
  then show ?thesis using R_unlock' [OF R_dest] by simp
qed

lemma on_pub_sendpull_R: "on_pub_sendpull e c w = Go c' w' \<Longrightarrow> R c c'"
  by (auto simp: on_pub_sendpull_def R_refl split: prod.splits option.splits if_splits)

lemma on_subpull_R: "on_subpull e c w = Some (Go c' w') \<Longrightarrow> R c c'"
  by (auto simp: on_subpull_def Let_def R_refl split: prod.splits option.splits if_splits bool.splits)

lemma on_sub_sock_R:
  assumes "on_sub_sock e c w = Go c' w'"
  shows "R c c'"
proof -
  from assms have "c' = c \<or> (\<exists>i. c' = unlock (c\<lparr>publishermap := (publishermap c)(i \<mapsto> True)\<rparr>))"
    by (auto simp: on_sub_sock_def Let_def split: prod.splits option.splits if_splits)
  then show ?thesis using R_unlock' [OF R_publisher] R_refl by auto
qed

lemma on_pubstart_R: "on_pubstart e c w = Go c' w' \<Longrightarrow> R c c'"
  by (auto simp: on_pubstart_def R_unlock split: prod.splits option.splits if_splits bool.splits)

lemma run_handlers_R:
  assumes "run_handlers ready hs c w = Some (Go c' w')"
    and "\<And>s h c w c' w'. (s, h) \<in> set hs \<Longrightarrow> h c w = Some (Go c' w') \<Longrightarrow> R c c'"
  shows "R c c'"
  using assms
proof (induction ready hs c w rule: run_handlers.induct)
  case (1 ready c w)
  then show ?case by (simp add: R_refl)
next
  case (2 ready s h hs c w)
  show ?case
  proof (cases "ready s")
    case True
    with 2(3) obtain c1 w1 where h: "h c w = Some (Go c1 w1)" "run_handlers ready hs c1 w1 = Some (Go c' w')"
      by (auto split: option.splits turn.splits)
    have "R c c1" using 2(4) [of s h c w c1 w1] h(1) by simp
    moreover have "R c1 c'" by (rule 2(1) [OF True h(1) refl h(2)]) (auto intro: 2(4))
    ultimately show ?thesis by (rule R_trans)
  next
    case False
    with 2(3) have "run_handlers ready hs c w = Some (Go c' w')" by simp
    then show ?thesis by (rule 2(2) [OF False]) (auto intro: 2(4))
  qed
qed

lemma handlers_R: "(s, h) \<in> set (handlers e) \<Longrightarrow> h c w = Some (Go c' w') \<Longrightarrow> R c c'"
  by (auto simp: handlers_def on_shutdown_def intro: on_msgq_R on_router_R on_monitor_R on_conn_R
      on_pub_sendpull_R on_subpull_R on_sub_sock_R on_pubstart_R)

lemma handler_round_R:
  assumes "handler_round e ready c w = Some (Go c' w')"
  shows "R c c'"
proof -
  from assms obtain f where "run_handlers f (handlers e) c w = Some (Go c' w')"
    by (auto simp: handler_round_def split: option.splits)
  then show ?thesis by (rule run_handlers_R) (rule handlers_R)
qed

end

interpretation same_errcode: round_relation "\<lambda>c c'. errcode c' = errcode c"
  by unfold_locales auto

interpretation same_config: round_relation
    "\<lambda>c c'. comm_id c' = comm_id c \<and> accept_conns c' = accept_conns c \<and> ip c' = ip c \<and> port c' = port c"
  by unfold_locales auto

text \<open>A client that is known stays known, with the value true.\<close>

interpretation clients_grow: round_relation
    "\<lambda>c c'. (\<forall>i. clientmap c i = Some True \<longrightarrow> clientmap c' i = Some True) \<and>
       (Some False \<notin> range (clientmap c) \<longrightarrow> Some False \<notin> range (clientmap c')) \<and>
       (\<exists>new. clientq c' = clientq c @ new)"
  by unfold_locales (auto simp: image_iff)

section \<open>Failures\<close>

lemma handler_stops:
  "on_msgq e c w = Stop c' w' \<Longrightarrow> errcode c' = 1"
  "on_router e c w = Stop c' w' \<Longrightarrow> errcode c' = 1"
  "on_monitor e c w = Stop c' w' \<Longrightarrow> errcode c' = 1"
  "on_conn e c w = Some (Stop c' w') \<Longrightarrow> errcode c' = 1"
  "on_pub_sendpull e c w = Stop c' w' \<Longrightarrow> errcode c' = 1"
  "on_subpull e c w = Some (Stop c' w') \<Longrightarrow> errcode c' = 1"
  "on_sub_sock e c w = Stop c' w' \<Longrightarrow> errcode c' = 1"
  "on_pubstart e c w = Stop c' w' \<Longrightarrow> errcode c' = 1"
  by (auto simp: on_msgq_def on_router_def on_monitor_def on_conn_def on_pub_sendpull_def on_subpull_def on_sub_sock_def
      on_pubstart_def Let_def split: prod.splits option.splits if_splits bool.splits zevent.splits)

lemma run_handlers_stop:
  assumes "run_handlers ready hs c w = Some (Stop c' w')"
    and "\<And>s h c w c' w'. (s, h) \<in> set hs \<Longrightarrow> h c w = Some (Go c' w') \<Longrightarrow> errcode c' = errcode c"
    and "\<And>s h c w c' w'. (s, h) \<in> set hs \<Longrightarrow> h c w = Some (Stop c' w') \<Longrightarrow>
      errcode c' = 1 \<or> s = Shutdown_sock \<and> errcode c' = errcode c"
  shows "errcode c' = 1 \<or> ready Shutdown_sock \<and> errcode c' = errcode c"
  using assms
proof (induction ready hs c w rule: run_handlers.induct)
  case (1 ready c w)
  then show ?case by simp
next
  case (2 ready s h hs c w)
  show ?case
  proof (cases "ready s")
    case True
    with 2(3) consider "h c w = Some (Stop c' w')"
      | c1 w1 where "h c w = Some (Go c1 w1)" "run_handlers ready hs c1 w1 = Some (Stop c' w')"
      by (auto split: option.splits turn.splits)
    then show ?thesis
    proof cases
      case 1
      with 2(5) [of s h c w c' w'] True show ?thesis by auto
    next
      case (2 c1 w1)
      have "errcode c1 = errcode c" using "2.prems"(2) [of s h c w c1 w1] 2(1) by simp
      moreover have "errcode c' = 1 \<or> ready Shutdown_sock \<and> errcode c' = errcode c1"
        by (rule "2.IH"(1) [OF True 2(1) refl 2(2)]) (meson list.set_intros(2) "2.prems"(2,3))+
      ultimately show ?thesis by simp
    qed
  next
    case False
    with 2(3) have "run_handlers ready hs c w = Some (Stop c' w')" by simp
    then show ?thesis by (rule 2(2) [OF False]) (meson list.set_intros(2) 2(4,5))+
  qed
qed

lemma round_stop_errcode:
  assumes stop: "handler_round e ready c w = Some (Stop c' w')"
  shows "errcode c' = 1 \<or> (\<exists>f. ready = Some f \<and> f Shutdown_sock) \<and> errcode c' = errcode c"
proof (cases ready)
  case None
  with stop show ?thesis by (auto simp: handler_round_def)
next
  case (Some f)
  with stop have "run_handlers f (handlers e) c w = Some (Stop c' w')" by (simp add: handler_round_def)
  then have "errcode c' = 1 \<or> f Shutdown_sock \<and> errcode c' = errcode c"
  proof (rule run_handlers_stop)
    show "errcode c' = 1 \<or> s = Shutdown_sock \<and> errcode c' = errcode c"
      if "(s, h) \<in> set (handlers e)" "h c w = Some (Stop c' w')" for s h c w c' w'
      using that by (auto simp: handlers_def on_shutdown_def dest: handler_stops)
  qed (rule same_errcode.handlers_R)
  with Some show ?thesis by auto
qed

text \<open>
  C34. The error code tells the application threads that the communication thread is gone: a round after
  which the loop goes on leaves it alone, as it does the id, the address and whether connections are accepted; a
  round that ends the thread has set it, unless the thread was asked to shut down.
\<close>

theorem round_reports_errors:
  "(handler_round e ready c w = Some (Go c' w') \<longrightarrow>
      errcode c' = errcode c \<and> comm_id c' = comm_id c \<and> accept_conns c' = accept_conns c) \<and>
   (handler_round e ready c w = Some (Stop c' w') \<longrightarrow>
      errcode c' = 1 \<or> (\<exists>f. ready = Some f \<and> f Shutdown_sock) \<and> errcode c' = errcode c)"
  using round_stop_errcode [of e ready c w c' w']
  by (auto dest: same_errcode.handler_round_R same_config.handler_round_R)

text \<open>An environment in which every call fails, and a state.\<close>

definition dead_zmq :: "(zsock, unit) zmq" where
  "dead_zmq = \<lparr>zrecv = (\<lambda>_ _ w. (None, w)), zsend = (\<lambda>_ _ _ w. (None, w)), zagain = (\<lambda>_. False), zalloc = (\<lambda>_ _. False),
     zconnect = (\<lambda>_ _ w. (False, w)), zbind = (\<lambda>_ _ w. (False, w)), zsubscribe = (\<lambda>_ _ w. (False, w))\<rparr>"

definition dead_env :: "unit env" where
  "dead_env = \<lparr>zz = dead_zmq, beyond = [0], junk = 0, evsize = 6, evof = (\<lambda>_. OTHER)\<rparr>"

definition comm0 :: "cliid_t \<Rightarrow> comm_handler" where
  "comm0 i = \<lparr>comm_id = i, ip = [], port = [], errcode = 0, clientq = [], clientmap = Map.empty, publishermap = Map.empty,
     accept_conns = True, sync_mtx = False\<rparr>"

lemma dead_recv: "recv_msg_cid dead_zmq s w = ((-1, None, None), w)" "recv_msg dead_zmq s w = ((-1, None), w)"
  by (simp_all add: recv_msg_cid_def recv_msg_def dead_zmq_def)

theorem round_reports_errors_witness:
  "\<exists>c'. handler_round dead_env (Some (\<lambda>s. s = Router_sock)) (comm0 1) () = Some (Stop c' ()) \<and> errcode c' = 1"
proof -
  have h: "handler_round dead_env (Some (\<lambda>s. s = Router_sock)) (comm0 1) () = Some (Stop (failed (comm0 1)) ())"
    by (simp add: handler_round_def handlers_def on_router_def dead_recv dead_env_def)
  with round_reports_errors [of dead_env "Some (\<lambda>s. s = Router_sock)" "comm0 1" "()" "failed (comm0 1)" "()"]
  show ?thesis by auto
qed

section \<open>Who is released\<close>

text \<open>
  An application thread in \<open>connect_to\<close> waits for the mutex \<open>sync_mtx\<close>: whenever the handler of
  the connection request is done, with success or with an error, the mutex is free, and the destination is
  a known client if the connection was made.
\<close>

lemma connect_request_released:
  "(on_conn e c w = Some (Go c' w') \<longrightarrow> \<not> sync_mtx c' \<and> errcode c' = errcode c \<and>
      (\<exists>destid. clientmap c' = (clientmap c)(destid \<mapsto> True))) \<and>
   (on_conn e c w = Some (Stop c' w') \<longrightarrow> \<not> sync_mtx c' \<and> errcode c' = 1)"
  by (auto simp: on_conn_def Let_def split: prod.splits option.splits if_splits bool.splits)

lemma connect_request_released_witness:
  "\<exists>c'. on_conn dead_env (comm0 1) () = Some (Stop c' ()) \<and> \<not> sync_mtx c'"
proof -
  have h: "on_conn dead_env (comm0 1) () = Some (Stop (unlock (failed (comm0 1))) ())"
    by (simp add: on_conn_def dead_recv dead_env_def)
  with connect_request_released [of dead_env "comm0 1" "()" "unlock (failed (comm0 1))" "()"] show ?thesis by auto
qed

text \<open>
  The handlers of \<open>subscribe_to\<close> and of \<open>init_pub\<close> do not do the same: when one of them fails, the
  communication thread ends with the mutex as it was, that is, still locked by the application thread,
  which then waits for ever.
\<close>

lemma failed_requests_stay_locked:
  "(on_subpull e c w = Some (Stop c' w') \<longrightarrow> sync_mtx c' = sync_mtx c \<and> errcode c' = 1) \<and>
   (on_pubstart e c w = Stop c' w' \<longrightarrow> sync_mtx c' = sync_mtx c \<and> errcode c' = 1)"
  by (auto simp: on_subpull_def on_pubstart_def Let_def split: prod.splits option.splits if_splits bool.splits)

lemma failed_requests_stay_locked_witness:
  "\<exists>c'. on_pubstart dead_env ((comm0 1)\<lparr>sync_mtx := True\<rparr>) () = Stop c' () \<and> sync_mtx c'"
proof -
  have h: "on_pubstart dead_env ((comm0 1)\<lparr>sync_mtx := True\<rparr>) () = Stop (failed ((comm0 1)\<lparr>sync_mtx := True\<rparr>)) ()"
    by (simp add: on_pubstart_def dead_recv dead_env_def)
  with failed_requests_stay_locked [of dead_env "(comm0 1)\<lparr>sync_mtx := True\<rparr>" "()" "failed ((comm0 1)\<lparr>sync_mtx := True\<rparr>)" "()"]
  show ?thesis by auto
qed

text \<open>
  If the set-up of the thread fails, for instance because the address to accept connections on cannot be bound, the thread
  ends but the error code is set only when the monitor could not be made: in the other cases the constructor of the
  object, which looks at the error code, succeeds.
\<close>

lemma setup_failure_unreported:
  assumes "errcode c = 0"
  shows "(\<exists>c' w'. start_handler opts monitor conn e c w = Stop c' w' \<and> errcode c' = 0) \<longleftrightarrow>
     \<not> opts \<or> monitor \<and> (\<not> conn \<or> accept_conns c \<and>
       \<not> fst (zbind (zz e) Router_sock (map of_char ''tcp://'' @ ip c @ map of_char '':'' @ port c) w))"
  using assms by (auto simp: start_handler_def split: prod.splits bool.splits)

lemma setup_failure_unreported_witness:
  "\<exists>c' w'. start_handler True True True dead_env (comm0 1) () = Stop c' w' \<and> errcode c' = 0"
  using setup_failure_unreported [of "comm0 1" True True True dead_env "()"]
  by (simp add: comm0_def dead_env_def dead_zmq_def)

end
