(* ===== verification/Comm_Flow.thy ===== *)
theory Comm_Flow
  imports Comm_Handler
begin

text \<open>
  Messages through the ZeroMQ handler. The locale \<open>zmq_net\<close> states what the calls of ZeroMQ do on sockets that
  work, where a send of the router may be refused because its peer cannot be reached (the socket has \<open>ROUTER_MANDATORY\<close> set), and \<open>comm_net\<close> adds that all
  peers can be reached; both through a view of the world as mailboxes: the parts waiting at each socket, the parts sent from it,
  the subscriptions made, the addresses connected to and those bound. Theorems: the router handler announces every new client once and
  passes on all its later messages in order; a subscription text leads to exactly the subscriptions asked for.
\<close>

record mail =
  inb :: "zsock \<Rightarrow> byte list list"
  outb :: "zsock \<Rightarrow> byte list list"
  subs :: "byte list list"
  conns :: "(zsock \<times> text_t) list"
  binds :: "(zsock \<times> text_t) list"

definition post :: "zsock \<Rightarrow> byte list list \<Rightarrow> mail \<Rightarrow> mail" where
  "post s ps m = m\<lparr>outb := (outb m)(s := outb m s @ ps)\<rparr>"

definition rest :: "zsock \<Rightarrow> byte list list \<Rightarrow> mail \<Rightarrow> mail" where
  "rest s ps m = m\<lparr>inb := (inb m)(s := ps)\<rparr>"

lemmas mail_defs = post_def rest_def

lemma post_post: "post s ys (post s xs m) = post s (xs @ ys) m"
  by (simp add: post_def)

section \<open>Sockets that work\<close>

locale zmq_net =
  fixes e :: "'w env" and view :: "'w \<Rightarrow> mail"
  assumes net_recv: "inb (view w) s = p # ps \<Longrightarrow>
      \<exists>w'. zrecv (zz e) s nowait w = (Some (1, p), w') \<and> view w' = rest s ps (view w)"
    and net_empty: "inb (view w) s = [] \<Longrightarrow>
      \<exists>w'. zrecv (zz e) s True w = (Some (0, []), w') \<and> zagain (zz e) w' \<and> view w' = view w"
    and net_send: "s \<noteq> Router_sock \<Longrightarrow> \<exists>w'. zsend (zz e) s d sndmore w = (Some (int (length d)), w') \<and> view w' = post s [d] (view w)"
    and net_route: "\<exists>r xs w'. zsend (zz e) Router_sock d sndmore w = (r, w') \<and> view w' = post Router_sock xs (view w) \<and>
      (r = Some (int (length d)) \<and> xs = [d] \<or> r = None \<and> xs = [])"
    and net_alloc: "zalloc (zz e) n w"
    and net_subscribe: "\<exists>w'. zsubscribe (zz e) s f w = (True, w') \<and> view w' = (view w)\<lparr>subs := subs (view w) @ [f]\<rparr>"
    and net_connect: "\<exists>w'. zconnect (zz e) s a w = (True, w') \<and> view w' = (view w)\<lparr>conns := conns (view w) @ [(s, a)]\<rparr>"
    and net_bind: "\<exists>w'. zbind (zz e) s a w = (True, w') \<and> view w' = (view w)\<lparr>binds := binds (view w) @ [(s, a)]\<rparr>"
begin

lemma net_send_msg: "s \<noteq> Router_sock \<Longrightarrow> \<exists>w'. send_msg (zz e) s d w = (int (length d), w') \<and> view w' = post s [d] (view w)"
  using net_send [of s d False w] by (auto simp: send_msg_def send_part_def)

lemma net_send_cid:
  assumes "s \<noteq> Router_sock"
  shows "\<exists>w'. send_msg_cid (zz e) s cid d w = (int (length d), w') \<and> view w' = post s [le32 cid, d] (view w)"
proof -
  obtain w1 where w1: "zsend (zz e) s (le32 cid) True w = (Some 4, w1)" "view w1 = post s [le32 cid] (view w)"
    using net_send [OF assms, of "le32 cid" True w] by auto
  obtain w2 where "zsend (zz e) s d False w1 = (Some (int (length d)), w2)" "view w2 = post s [d] (view w1)"
    using net_send [OF assms, of d False w1] by auto
  with w1 show ?thesis by (auto simp: send_msg_cid_def send_part_def send_msg_def post_def)
qed

lemma net_route_cid: "\<exists>ret xs w'. send_msg_cid (zz e) Router_sock cid d w = (ret, w') \<and> view w' = post Router_sock xs (view w)"
proof -
  obtain r xs w1 where w1: "zsend (zz e) Router_sock (le32 cid) True w = (r, w1)" "view w1 = post Router_sock xs (view w)"
    using net_route [of "le32 cid" True w] by auto
  obtain r' ys w2 where w2: "zsend (zz e) Router_sock d False w1 = (r', w2)" "view w2 = post Router_sock ys (view w1)"
    using net_route [of d False w1] by auto
  with w1 show ?thesis by (auto simp: send_msg_cid_def send_part_def send_msg_def post_post split: option.splits)
qed

lemma net_recv_msg:
  assumes "inb (view w) s = d # ps" "length d < 2 ^ 31"
  shows "\<exists>w'. recv_msg (zz e) s w = ((int (length d), Some d), w') \<and> view w' = rest s ps (view w)"
proof -
  have "sint (of_nat (length d) :: c_int) = int (length d)"
    using assms(2) by (simp add: signed_of_nat signed_take_bit_int_eq_self)
  with net_recv [OF assms(1), of False] show ?thesis by (auto simp: recv_msg_def net_alloc)
qed

lemma net_recv_cid:
  assumes "inb (view w) s = le32 cid # d # ps" "length d < 2 ^ 31"
  shows "\<exists>w'. recv_msg_cid (zz e) s w = ((int (length d), Some cid, Some d), w') \<and> view w' = rest s ps (view w)"
proof -
  obtain w1 where w1: "zrecv (zz e) s False w = (Some (1, le32 cid), w1)" "view w1 = rest s (d # ps) (view w)"
    using net_recv [OF assms(1), of False] by auto
  then have "inb (view w1) s = d # ps" by (simp add: rest_def)
  from net_recv_msg [OF this assms(2)] w1 show ?thesis by (auto simp: recv_msg_cid_def rest_def)
qed

lemma net_recv_async_cid:
  assumes "inb (view w) s = le32 cid # d # ps" "length d < 2 ^ 31"
  shows "\<exists>w'. recv_msg_async_cid (zz e) s w = ((int (length d), Some cid, Some d), w') \<and> view w' = rest s ps (view w)"
proof -
  obtain w1 where w1: "zrecv (zz e) s True w = (Some (1, le32 cid), w1)" "view w1 = rest s (d # ps) (view w)"
    using net_recv [OF assms(1), of True] by auto
  then have "inb (view w1) s = d # ps" by (simp add: rest_def)
  from net_recv_msg [OF this assms(2)] w1 show ?thesis by (auto simp: recv_msg_async_cid_def rest_def)
qed

end

text \<open>All peers of the router can be reached.\<close>

locale comm_net = zmq_net +
  assumes net_routed: "\<exists>w'. zsend (zz e) Router_sock d sndmore w = (Some (int (length d)), w') \<and> view w' = post Router_sock [d] (view w)"
begin

lemma net_routed_cid:
  "\<exists>w'. send_msg_cid (zz e) Router_sock cid d w = (int (length d), w') \<and> view w' = post Router_sock [le32 cid, d] (view w)"
proof -
  obtain w1 where w1: "zsend (zz e) Router_sock (le32 cid) True w = (Some 4, w1)" "view w1 = post Router_sock [le32 cid] (view w)"
    using net_routed [of "le32 cid" True w] by auto
  obtain w2 where "zsend (zz e) Router_sock d False w1 = (Some (int (length d)), w2)" "view w2 = post Router_sock [d] (view w1)"
    using net_routed [of d False w1] by auto
  with w1 show ?thesis by (auto simp: send_msg_cid_def send_part_def send_msg_def post_def)
qed

end

lemmas comm_net_zmq = comm_net.axioms(1)

text \<open>Mailboxes held in memory.\<close>

definition mem_zmq :: "(zsock, mail) zmq" where
  "mem_zmq = \<lparr>zrecv = (\<lambda>s nowait m. case inb m s of [] \<Rightarrow> (Some (0, []), m) | p # ps \<Rightarrow> (Some (1, p), rest s ps m)),
     zsend = (\<lambda>s d sndmore m. (Some (int (length d)), post s [d] m)), zagain = (\<lambda>_. True), zalloc = (\<lambda>_ _. True),
     zconnect = (\<lambda>s a m. (True, m\<lparr>conns := conns m @ [(s, a)]\<rparr>)), zbind = (\<lambda>s a m. (True, m\<lparr>binds := binds m @ [(s, a)]\<rparr>)),
     zsubscribe = (\<lambda>s f m. (True, m\<lparr>subs := subs m @ [f]\<rparr>))\<rparr>"

definition mem_env :: "byte list \<Rightarrow> mail env" where
  "mem_env b = \<lparr>zz = mem_zmq, beyond = b, junk = 0, evsize = 6, evof = (\<lambda>_. ACCEPTED)\<rparr>"

definition mail0 :: "zsock \<Rightarrow> byte list list \<Rightarrow> mail" where
  "mail0 s ps = \<lparr>inb = (\<lambda>_. [])(s := ps), outb = (\<lambda>_. []), subs = [], conns = [], binds = []\<rparr>"

lemma mem_env_net: "comm_net (mem_env b) (\<lambda>w. w)"
  by unfold_locales (auto simp: mem_env_def mem_zmq_def)

lemmas mem_env_zmq = comm_net_zmq [OF mem_env_net]

interpretation mem: comm_net "mem_env b" "\<lambda>w. w" for b
  by (rule mem_env_net)

text \<open>The same, with a router that knows only the peers with the identities \<open>peers\<close>.\<close>

definition part_env :: "byte list set \<Rightarrow> byte list \<Rightarrow> mail env" where
  "part_env peers b = (mem_env b)\<lparr>zz := mem_zmq\<lparr>zsend := (\<lambda>s d sndmore m.
     if s = Router_sock \<and> sndmore \<and> d \<notin> peers then (None, m) else (Some (int (length d)), post s [d] m))\<rparr>\<rparr>"

lemma part_env_zmq: "zmq_net (part_env peers b) (\<lambda>w. w)"
  by unfold_locales (auto simp: part_env_def mem_env_def mem_zmq_def post_def)

interpretation part: zmq_net "part_env peers b" "\<lambda>w. w" for peers b
  by (rule part_env_zmq)

section \<open>Messages from the router\<close>

text \<open>Several rounds in which only the router socket is ready.\<close>

fun router_run :: "'w env \<Rightarrow> nat \<Rightarrow> comm_handler \<Rightarrow> 'w \<Rightarrow> (comm_handler \<times> 'w) option" where
  "router_run e 0 c w = Some (c, w)"
| "router_run e (Suc n) c w =
     (case handler_round e (Some (\<lambda>s. s = Router_sock)) c w of
        Some (Go c w) \<Rightarrow> router_run e n c w
      | _ \<Rightarrow> None)"

lemma round_router [simp]: "handler_round e (Some (\<lambda>s. s = Router_sock)) c w = Some (on_router e c w)"
  by (auto simp: handler_round_def handlers_def split: turn.splits)

text \<open>The parts of addressed messages, and the messages of one sender.\<close>

definition wire :: "(cliid_t \<times> byte list) list \<Rightarrow> byte list list" where
  "wire ms = concat (map (\<lambda>(i, d). [le32 i, d]) ms)"

definition hello :: "cliid_t \<times> byte list \<Rightarrow> bool" where
  "hello m \<longleftrightarrow> snd m = COMM_HANDLER_SUB_INIT @ [0]"

definition msgs_from :: "cliid_t \<Rightarrow> (cliid_t \<times> byte list) list \<Rightarrow> byte list list" where
  "msgs_from i ms = map snd (filter (\<lambda>m. fst m = i) ms)"

lemma wire_Cons [simp]: "wire ((i, d) # ms) = le32 i # d # wire ms" "wire [] = []"
  by (simp_all add: wire_def)

lemma wire_append: "wire (a @ b) = wire a @ wire b"
  by (simp add: wire_def)

context zmq_net
begin

lemma on_router_one:
  assumes "inb (view w) Router_sock = le32 i # d # ps" "length d < 2 ^ 31" "Some False \<notin> range (clientmap c)"
  shows "\<exists>w'. on_router e c w =
      Go (if hello (i, d) then unlock c
          else if clientmap c i = None then c\<lparr>clientmap := (clientmap c)(i \<mapsto> True), clientq := clientq c @ [IDI2E i]\<rparr>
          else c) w' \<and>
    view w' = (if hello (i, d) then post Suberq [le32 i, d] (rest Router_sock ps (view w))
      else if clientmap c i = None then rest Router_sock ps (view w)
      else post Taskq [le32 i, d] (rest Router_sock ps (view w)))"
proof -
  obtain w1 where w1: "recv_msg_cid (zz e) Router_sock w = ((int (length d), Some i, Some d), w1)"
    "view w1 = rest Router_sock ps (view w)" using net_recv_cid [OF assms(1,2)] by auto
  have "clientmap c i \<noteq> Some False" using assms(3) by (metis rangeI)
  then consider "clientmap c i = None" | "clientmap c i = Some True" by (cases "clientmap c i") auto
  then show ?thesis
    using w1 net_send_cid [of Suberq i d w1] net_send_cid [of Taskq i d w1]
    by cases (auto simp: on_router_def hello_def bytes_def)
qed

lemma router_run_dispatch:
  assumes "inb (view w) Router_sock = wire ms" "\<forall>m \<in> set ms. length (snd m) < 2 ^ 31" "Some False \<notin> range (clientmap c)"
  shows "\<exists>c' w' new tasks. router_run e (length ms) c w = Some (c', w') \<and>
    clientq c' = clientq c @ map IDI2E new \<and> distinct new \<and>
    set new = fst ` set (filter (\<lambda>m. \<not> hello m) ms) - dom (clientmap c) \<and>
    outb (view w') Taskq = outb (view w) Taskq @ wire tasks \<and>
    outb (view w') Suberq = outb (view w) Suberq @ wire (filter hello ms) \<and>
    (\<forall>i. msgs_from i tasks = (if i \<in> dom (clientmap c) then msgs_from i (filter (\<lambda>m. \<not> hello m) ms)
                       else tl (msgs_from i (filter (\<lambda>m. \<not> hello m) ms))))"
  using assms
proof (induction ms arbitrary: c w)
  case Nil
  then show ?case by (intro exI [of _ c] exI [of _ w] exI [of _ "[]"]) (auto simp: msgs_from_def)
next
  case (Cons m ms)
  obtain i d where m: "m = (i, d)" by (cases m)
  let ?c = "if hello (i, d) then unlock c
          else if clientmap c i = None then c\<lparr>clientmap := (clientmap c)(i \<mapsto> True), clientq := clientq c @ [IDI2E i]\<rparr>
          else c"
  have "inb (view w) Router_sock = le32 i # d # wire ms" "length d < 2 ^ 31" using Cons.prems m by auto
  from on_router_one [OF this Cons.prems(3)] obtain w1 where
    w1: "on_router e c w = Go ?c w1"
    "view w1 = (if hello (i, d) then post Suberq [le32 i, d] (rest Router_sock (wire ms) (view w))
      else if clientmap c i = None then rest Router_sock (wire ms) (view w)
      else post Taskq [le32 i, d] (rest Router_sock (wire ms) (view w)))" by blast
  have "inb (view w1) Router_sock = wire ms" by (simp add: w1(2) mail_defs)
  moreover have "Some False \<notin> range (clientmap ?c)" using Cons.prems(3) by (auto simp: image_iff)
  ultimately obtain c' w' new tasks where
    r: "router_run e (length ms) ?c w1 = Some (c', w')" "clientq c' = clientq ?c @ map IDI2E new" "distinct new"
    "set new = fst ` set (filter (\<lambda>m. \<not> hello m) ms) - dom (clientmap ?c)"
    "outb (view w') Taskq = outb (view w1) Taskq @ wire tasks"
    "outb (view w') Suberq = outb (view w1) Suberq @ wire (filter hello ms)"
    "\<And>i. msgs_from i tasks = (if i \<in> dom (clientmap ?c) then msgs_from i (filter (\<lambda>m. \<not> hello m) ms)
                       else tl (msgs_from i (filter (\<lambda>m. \<not> hello m) ms)))"
    using Cons.IH [of w1 ?c] Cons.prems(2) by auto
  have run: "router_run e (length (m # ms)) c w = Some (c', w')" using w1(1) r(1) by simp
  consider (hello) "hello (i, d)" | (new) "\<not> hello (i, d)" "clientmap c i = None"
    | (task) "\<not> hello (i, d)" "clientmap c i \<noteq> None" by blast
  then show ?case
  proof cases
    case hello
    with run r w1(2) m show ?thesis
      by (intro exI [of _ c'] exI [of _ w'] exI [of _ new] exI [of _ tasks]) (simp add: mail_defs)
  next
    case new
    have "i \<notin> set new" using r(4) new by auto
    moreover have "msgs_from j tasks = (if j \<in> dom (clientmap c) then msgs_from j (filter (\<lambda>m. \<not> hello m) (m # ms))
        else tl (msgs_from j (filter (\<lambda>m. \<not> hello m) (m # ms))))" for j
      using r(7) [of j] new m by (cases "j = i") (auto simp: msgs_from_def)
    ultimately show ?thesis using run r new w1(2) m
      by (intro exI [of _ c'] exI [of _ w'] exI [of _ "i # new"] exI [of _ tasks]) (auto simp: mail_defs)
  next
    case task
    have "msgs_from j ((i, d) # tasks) = (if j \<in> dom (clientmap c) then msgs_from j (filter (\<lambda>m. \<not> hello m) (m # ms))
        else tl (msgs_from j (filter (\<lambda>m. \<not> hello m) (m # ms))))" for j
      using r(7) [of j] task m by (cases "j = i") (auto simp: msgs_from_def)
    with run r task w1(2) m show ?thesis
      by (intro exI [of _ c'] exI [of _ w'] exI [of _ new] exI [of _ "(i, d) # tasks"]) (auto simp: mail_defs)
  qed
qed

end

text \<open>
  C11. The router handler over any sequence of incoming messages. Every sender that was not known is
  announced to \<open>get_one_connection\<close> exactly once; of each sender all messages are passed on to the
  application in order, except its first one if it was not known; the answers of
  subscribers go, in order, to the queue \<open>init_pub\<close> reads. Nothing is lost or duplicated.
\<close>

theorem router_dispatches:
  assumes "zmq_net e view" and "inb (view w) Router_sock = wire ms" and "\<forall>m \<in> set ms. length (snd m) < 2 ^ 31"
    and "Some False \<notin> range (clientmap c)"
  shows "\<exists>c' w' new tasks. router_run e (length ms) c w = Some (c', w') \<and>
    clientq c' = clientq c @ map IDI2E new \<and> distinct new \<and>
    set new = fst ` set (filter (\<lambda>m. \<not> hello m) ms) - dom (clientmap c) \<and>
    outb (view w') Taskq = outb (view w) Taskq @ wire tasks \<and>
    outb (view w') Suberq = outb (view w) Suberq @ wire (filter hello ms) \<and>
    (\<forall>i. msgs_from i tasks = (if i \<in> dom (clientmap c) then msgs_from i (filter (\<lambda>m. \<not> hello m) ms)
                       else tl (msgs_from i (filter (\<lambda>m. \<not> hello m) ms))))"
  by (rule zmq_net.router_run_dispatch [OF assms])

theorem router_dispatches_witness:
  "\<exists>c' w' tasks. router_run (mem_env [0]) 3 (comm0 1) (mail0 Router_sock (wire [(17, [1]), (33, [2]), (17, [3])])) = Some (c', w') \<and>
     outb w' Taskq = wire tasks \<and> msgs_from 17 tasks = [[3]] \<and> msgs_from 33 tasks = []"
proof -
  let ?ms = "[(17, [1]), (33, [2]), (17, [3])] :: (cliid_t \<times> byte list) list"
  have "inb (mail0 Router_sock (wire ?ms)) Router_sock = wire ?ms" "\<forall>m \<in> set ?ms. length (snd m) < 2 ^ 31"
    "Some False \<notin> range (clientmap (comm0 1))" by (auto simp: mail0_def comm0_def)
  from router_dispatches [OF mem_env_zmq this, of "[0]"] obtain c' w' tasks where
    r: "router_run (mem_env [0]) (length ?ms) (comm0 1) (mail0 Router_sock (wire ?ms)) = Some (c', w')"
    "outb w' Taskq = outb (mail0 Router_sock (wire ?ms)) Taskq @ wire tasks"
    "\<forall>i. msgs_from i tasks = (if i \<in> dom (clientmap (comm0 1)) then msgs_from i (filter (\<lambda>m. \<not> hello m) ?ms)
                       else tl (msgs_from i (filter (\<lambda>m. \<not> hello m) ?ms)))" by blast
  have nh: "filter (\<lambda>m. \<not> hello m) ?ms = ?ms" by (simp add: hello_def COMM_HANDLER_SUB_INIT_def)
  have "msgs_from 17 tasks = [[3]]" "msgs_from 33 tasks = []"
    using r(3) unfolding nh by (simp_all add: comm0_def msgs_from_def)
  moreover have "outb w' Taskq = wire tasks" using r(2) by (simp add: mail0_def)
  moreover have "length ?ms = 3" by simp
  then have "router_run (mem_env [0]) 3 (comm0 1) (mail0 Router_sock (wire ?ms)) = Some (c', w')"
    using r(1) by (simp only:)
  ultimately show ?thesis by blast
qed

section \<open>Subscriptions\<close>

text \<open>The text \<open>subscribe_to\<close> sends: the address, an ampersand, and the ids each after a semicolon.\<close>

definition sub_text :: "text_t \<Rightarrow> cliid_t list \<Rightarrow> text_t" where
  "sub_text connstr pubids = connstr @ [38] @ concat (map (\<lambda>i. 59 # show_int (sint i)) pubids)"

lemma while_until:
  "x \<notin> set a \<Longrightarrow> takeWhile (\<lambda>b. b \<noteq> x) (a @ x # g) = a"
  "x \<notin> set a \<Longrightarrow> dropWhile (\<lambda>b. b \<noteq> x) (a @ x # g) = x # g"
  by (induction a) auto

lemma split_amp_text: "38 \<notin> set a \<Longrightarrow> split_amp (a @ 38 # g) = (a, g)"
  by (simp add: split_amp_def while_until)

lemma show_int_no_zero: "0 \<notin> set (show_int i)"
proof -
  have "\<not> is_digit 0" by (simp add: is_digit_def)
  then have "0 \<notin> set (show_nat n)" for n using show_nat_digits [of n] by blast
  then show ?thesis by (simp add: show_int_def)
qed

lemma sub_text_no_zero: "0 \<notin> set a \<Longrightarrow> 0 \<notin> set (sub_text a ids)"
  by (auto simp: sub_text_def show_int_no_zero)

context zmq_net
begin

lemma subscribe_loop_ids:
  assumes "ids \<noteq> []" "left ss = concat (map (\<lambda>i. 59 # show_int (sint i)) ids)" "\<not> eof ss" "\<not> fail ss"
  shows "\<exists>w'. subscribe_loop e ss w = Some (True, w') \<and> view w' = (view w)\<lparr>subs := subs (view w) @ map le32 ids\<rparr>"
  using assms
proof (induction ids arbitrary: ss w)
  case (Cons i ids)
  let ?r = "concat (map (\<lambda>i. 59 # show_int (sint i)) ids)"
  have sp: "\<not> is_space 59" "\<not> is_digit 59" by (simp_all add: is_space_def is_digit_def)
  have c: "get_char ss = (Some 59, ss\<lparr>left := show_int (sint i) @ ?r\<rparr>)" using Cons.prems sp by (simp add: get_char_def)
  have "- (2 ^ 31) \<le> sint i" "sint i < 2 ^ 31" using sint_greater_eq [of i] sint_less [of i] by simp_all
  moreover have "case ?r of [] \<Rightarrow> True | c # _ \<Rightarrow> \<not> is_digit c" using sp by (cases ids) simp_all
  ultimately have g: "get_int (ss\<lparr>left := show_int (sint i) @ ?r\<rparr>) = (Some (sint i), ss\<lparr>left := ?r, eof := (?r = [])\<rparr>)"
    using Cons.prems(3,4) get_int_show_int [of "sint i" ?r "ss\<lparr>left := show_int (sint i) @ ?r\<rparr>"] by simp
  obtain w1 where w1: "zsubscribe (zz e) Sub_sock (le32 i) w = (True, w1)"
    "view w1 = (view w)\<lparr>subs := subs (view w) @ [le32 i]\<rparr>" using net_subscribe by blast
  have unf: "subscribe_loop e ss w =
      (if ?r = [] then Some (True, w1) else subscribe_loop e (ss\<lparr>left := ?r, eof := False\<rparr>) w1)"
    using c g w1(1) by (subst subscribe_loop.simps) simp
  show ?case
  proof (cases "ids = []")
    case True
    with unf w1(2) show ?thesis by simp
  next
    case False
    then have ne: "?r \<noteq> []" by (cases ids) auto
    from Cons.IH [OF False, of "ss\<lparr>left := ?r, eof := False\<rparr>" w1] Cons.prems(4) obtain w' where
      "subscribe_loop e (ss\<lparr>left := ?r, eof := False\<rparr>) w1 = Some (True, w')"
      "view w' = (view w1)\<lparr>subs := subs (view w1) @ map le32 ids\<rparr>" by auto
    with unf ne w1(2) show ?thesis by simp
  qed
qed simp

lemma on_subpull_text:
  assumes "inb (view w) Subpull = d # ps" "length d < 2 ^ 31" "c_string e (Some d) = Some (sub_text a ids)"
    and "38 \<notin> set a" "ids \<noteq> []"
  shows "\<exists>w'. on_subpull e c w = Some (Go c w') \<and> view w' = (rest Subpull ps (view w))\<lparr>subs := subs (view w) @ map le32 ids,
    conns := conns (view w) @ (if a = [] then [] else [(Sub_sock, a)])\<rparr>"
proof -
  obtain w1 where w1: "recv_msg (zz e) Subpull w = ((int (length d), Some d), w1)" "view w1 = rest Subpull ps (view w)"
    using net_recv_msg [OF assms(1,2)] by auto
  let ?g = "concat (map (\<lambda>i. 59 # show_int (sint i)) ids)"
  have sp: "split_amp (sub_text a ids) = (a, ?g)" using split_amp_text [OF assms(4)] by (simp add: sub_text_def)
  have loop: "\<exists>w'. subscribe_loop e (istream_of ?g) v = Some (True, w') \<and>
      view w' = (view v)\<lparr>subs := subs (view v) @ map le32 ids\<rparr>" for v
    by (rule subscribe_loop_ids [OF assms(5)]) (simp_all add: istream_of_def)
  show ?thesis
  proof (cases "a = []")
    case True
    with loop [of w1] w1 sp assms(3) show ?thesis by (auto simp: on_subpull_def rest_def)
  next
    case False
    obtain w2 where w2: "zconnect (zz e) Sub_sock a w1 = (True, w2)"
      "view w2 = (view w1)\<lparr>conns := conns (view w1) @ [(Sub_sock, a)]\<rparr>" using net_connect by blast
    with False loop [of w2] w1 sp assms(3) show ?thesis by (auto simp: on_subpull_def rest_def)
  qed
qed

end

text \<open>
  C25. A subscription is made as asked for: when the text \<open>subscribe_to\<close> sends for an address and a
  non-empty list of group ids reaches the communication thread, and the byte in memory after it is zero, the
  thread connects to the address, if there is one, and subscribes to exactly these groups, in order.
\<close>

theorem subscription_roundtrip:
  assumes "zmq_net e view" and "inb (view w) Subpull = sub_text a ids # ps" and "length (sub_text a ids) < 2 ^ 31"
    and "0 \<notin> set a" and "38 \<notin> set a" and "ids \<noteq> []" and "beyond e = 0 # b"
  shows "\<exists>w'. on_subpull e c w = Some (Go c w') \<and> subs (view w') = subs (view w) @ map le32 ids \<and>
    conns (view w') = conns (view w) @ (if a = [] then [] else [(Sub_sock, a)])"
proof -
  have "c_string e (Some (sub_text a ids)) = Some (sub_text a ids)"
    using while_until(1) [OF sub_text_no_zero [OF assms(4), of ids]] assms(7) by (simp add: c_string_def)
  from zmq_net.on_subpull_text [OF assms(1-3) this assms(5,6), of c] show ?thesis by auto
qed

theorem subscription_roundtrip_witness:
  "\<exists>w'. on_subpull (mem_env [0]) (comm0 1) (mail0 Subpull [sub_text [116, 99] [3, - 12]]) = Some (Go (comm0 1) w') \<and>
     subs w' = [le32 3, le32 (- 12)] \<and> conns w' = [(Sub_sock, [116, 99])]"
proof -
  have n: "length (show_nat n) \<le> n + 1" for n
  proof (induction n rule: show_nat.induct)
    case (1 n)
    then show ?case by (subst show_nat.simps) auto
  qed
  have "length (show_int (sint (3 :: c_int))) \<le> 4" "length (show_int (sint (- 12 :: c_int))) \<le> 14"
    using n [of 3] n [of 12] by (simp_all add: show_int_def)
  then have "length (sub_text [116, 99] [3, - 12]) < 2 ^ 31" by (simp add: sub_text_def)
  from subscription_roundtrip [OF mem_env_zmq _ this, of "mail0 Subpull [sub_text [116, 99] [3, - 12]]" "[]" "[0]" "[]" "comm0 1"]
  show ?thesis by (auto simp: mail0_def mem_env_def)
qed

text \<open>
  The text is sent without its terminating zero byte, and the thread reads it as a C string: if
  the memory after the message happens to hold the digit 7 and then a zero byte, a subscription to group 1 becomes one to
  group 17.
\<close>

lemma subscription_overread:
  assumes "zmq_net e view" and "inb (view w) Subpull = sub_text a [1] # ps" and "length (sub_text a [1]) < 2 ^ 31"
    and "0 \<notin> set a" and "38 \<notin> set a" and "beyond e = 55 # 0 # b"
  shows "\<exists>w'. on_subpull e c w = Some (Go c w') \<and> subs (view w') = subs (view w) @ [le32 17]"
proof -
  have "show_int 17 = show_int 1 @ [55]"
    by (simp add: show_int_def show_nat.simps digit_def)
  then have t: "sub_text a [1] @ [55] = sub_text a [17]" by (simp add: sub_text_def)
  then have b: "sub_text a [1] @ beyond e = sub_text a [17] @ 0 # b" unfolding assms(6) by (metis append_Cons append_assoc self_append_conv2)
  have "c_string e (Some (sub_text a [1])) = Some (sub_text a [17])"
    using while_until(1) [OF sub_text_no_zero [OF assms(4), of "[17]"]] by (simp add: c_string_def b)
  from zmq_net.on_subpull_text [OF assms(1-3) this assms(5), of c] show ?thesis by auto
qed

lemma subscription_overread_witness:
  "\<exists>w'. on_subpull (mem_env [55, 0]) (comm0 1) (mail0 Subpull [sub_text [] [1]]) = Some (Go (comm0 1) w') \<and> subs w' = [le32 17]"
proof -
  have "length (sub_text [] [1]) < 2 ^ 31" by (simp add: sub_text_def show_int_def show_nat.simps)
  from subscription_overread [OF mem_env_zmq _ this, of "mail0 Subpull [sub_text [] [1]]" "[]" "[55, 0]" "[]" "comm0 1"]
  show ?thesis by (auto simp: mail0_def mem_env_def)
qed

end
