(* ===== verification/Comm_Api.thy ===== *)
theory Comm_Api
  imports Comm_Flow
begin

text \<open>
  The calls of the ZeroMQ handler for application threads (\<open>src/comm_zmq/src/comm_handler.cpp\<close>). Each
  thread has its own sockets, made on first use; whether that worked is the argument \<open>sock_ok\<close>. A call that
  waits for the communication thread through the mutex \<open>sync_mtx\<close> is split at the second lock. Theorems:
  failed handlers refuse calls, except \<open>init_pub\<close> with an address; a connection request completes; a message arrives with the id of its sender.
\<close>

section \<open>The calls\<close>

record config_param_t =
  cfg_id :: cliid_t
  cfg_accept_conns :: bool
  cfg_ip :: text_t
  cfg_port :: text_t

text \<open>The object as the constructor leaves it to the communication thread: the mutex is held by the constructor.\<close>

definition comm_handler_init :: "config_param_t \<Rightarrow> comm_handler" where
  "comm_handler_init cparam = \<lparr>comm_id = IDE2I (cfg_id cparam), ip = cfg_ip cparam, port = cfg_port cparam, errcode = 0,
     clientq = [], clientmap = Map.empty, publishermap = Map.empty, accept_conns = cfg_accept_conns cparam, sync_mtx = True\<rparr>"

text \<open>\<open>Wait\<close> is the point of the second lock, \<open>Blocked\<close> a call that cannot go on now.\<close>

datatype 'w api = Ret int comm_handler 'w | Wait comm_handler 'w | Blocked

definition get_one_connection :: "comm_handler \<Rightarrow> (cliid_t \<times> comm_handler) option" where
  "get_one_connection c =
     (if \<not> accept_conns c then Some (- 1, c)
      else if errcode c \<noteq> 0 then Some (- 1, c)
      else case clientq c of [] \<Rightarrow> None | i # is \<Rightarrow> Some (i, c\<lparr>clientq := is\<rparr>))"

definition tcp_addr :: "text_t \<Rightarrow> text_t \<Rightarrow> text_t" where
  "tcp_addr a p = map of_char ''tcp://'' @ a @ map of_char '':'' @ p"

text \<open>The part of \<open>connect_to\<close> from the first lock to the second one.\<close>

definition connect_to_request :: "'w env \<Rightarrow> text_t \<Rightarrow> cliid_t \<Rightarrow> comm_handler \<Rightarrow> 'w \<Rightarrow> 'w api" where
  "connect_to_request e connstr destid c w =
     (if sync_mtx c then Blocked
      else
        let c = c\<lparr>sync_mtx := True\<rparr> in
        (case send_msg_cid (zz e) Connpush (IDE2I destid) connstr w of
           (ret, w) \<Rightarrow> if ret \<le> 0 then Ret (-1) (unlock c) w else Wait c w))"

definition connect_to :: "'w env \<Rightarrow> bool \<Rightarrow> text_t \<Rightarrow> text_t \<Rightarrow> cliid_t \<Rightarrow> comm_handler \<Rightarrow> 'w \<Rightarrow> 'w api" where
  "connect_to e sock_ok destip destport destid c w =
     (if errcode c \<noteq> 0 then Ret (-1) c w
      else if \<not> sock_ok then Ret (-1) c w
      else connect_to_request e (tcp_addr destip destport) destid c w)"

text \<open>The same part of \<open>subscribe_to\<close>.\<close>

definition subscribe_to_request :: "'w env \<Rightarrow> text_t \<Rightarrow> cliid_t list \<Rightarrow> comm_handler \<Rightarrow> 'w \<Rightarrow> 'w api" where
  "subscribe_to_request e connstr pubids c w =
     (if sync_mtx c then Blocked
      else
        let c = c\<lparr>sync_mtx := True\<rparr> in
        (case send_msg (zz e) Subpush (sub_text connstr pubids) w of
           (ret, w) \<Rightarrow> if ret \<le> 0 then Ret (-1) (unlock c) w else Wait c w))"

definition sub_addr :: "text_t \<Rightarrow> text_t \<Rightarrow> text_t" where
  "sub_addr pubip pubport = (if pubip \<noteq> [] \<and> pubport \<noteq> [] then tcp_addr pubip pubport else [])"

definition subscribe_to :: "'w env \<Rightarrow> bool \<Rightarrow> text_t \<Rightarrow> text_t \<Rightarrow> cliid_t list \<Rightarrow> comm_handler \<Rightarrow> 'w \<Rightarrow> 'w api" where
  "subscribe_to e sock_ok pubip pubport pubids c w =
     (if errcode c \<noteq> 0 then Ret (-1) c w
      else if \<not> sock_ok then Ret (-1) c w
      else subscribe_to_request e (sub_addr pubip pubport) pubids c w)"

text \<open>The end of \<open>connect_to\<close> and of \<open>subscribe_to\<close>, from the second lock on.\<close>

definition finish :: "comm_handler \<Rightarrow> 'w \<Rightarrow> 'w api" where
  "finish c w = (if sync_mtx c then Blocked else Ret (if errcode c \<noteq> 0 then -1 else 0) c w)"

text \<open>\<open>errcode\<close> is read a second time after the message is sent; the communication thread may have set it.\<close>

definition publish :: "'w env \<Rightarrow> bool \<Rightarrow> int \<Rightarrow> cliid_t \<Rightarrow> byte list \<Rightarrow> comm_handler \<Rightarrow> 'w \<Rightarrow> int \<times> 'w" where
  "publish e sock_ok errcode' grp data c w =
     (if errcode c \<noteq> 0 then (-1, w)
      else if \<not> sock_ok then (-1, w)
      else (case send_msg_cid (zz e) Pub_sendpush grp data w of
              (ret, w) \<Rightarrow> (if errcode' \<noteq> 0 then -1 else ret, w)))"

definition comm_send :: "'w env \<Rightarrow> bool \<Rightarrow> int \<Rightarrow> cliid_t \<Rightarrow> byte list \<Rightarrow> comm_handler \<Rightarrow> 'w \<Rightarrow> int \<times> 'w" where
  "comm_send e sock_ok errcode' cid data c w =
     (if errcode c \<noteq> 0 then (-1, w)
      else if \<not> sock_ok then (-1, w)
      else (case send_msg_cid (zz e) Msgpush (IDE2I cid) data w of
              (ret, w) \<Rightarrow> (if errcode' \<noteq> 0 then -1 else ret, w)))"

text \<open>The results are the number of bytes, the id and the data; \<open>incid\<close> is uninitialised if nothing was received.\<close>

definition comm_recv :: "'w env \<Rightarrow> bool \<Rightarrow> int \<Rightarrow> cliid_t \<Rightarrow> comm_handler \<Rightarrow> 'w \<Rightarrow> (int \<times> cliid_t \<times> byte list option) \<times> 'w" where
  "comm_recv e sock_ok errcode' cid c w =
     (if errcode c \<noteq> 0 then ((-1, cid, None), w)
      else if \<not> sock_ok then ((-1, cid, None), w)
      else (case recv_msg_cid (zz e) Taskpull w of
              ((sz, i, data), w) \<Rightarrow>
                let incid = (case i of None \<Rightarrow> junk e | Some i \<Rightarrow> i);
                    cid = (if 0 \<le> sint incid then IDI2E incid else incid)
                in ((if errcode' \<noteq> 0 then -1 else sz, cid, data), w)))"

definition comm_recv_async :: "'w env \<Rightarrow> bool \<Rightarrow> int \<Rightarrow> cliid_t \<Rightarrow> comm_handler \<Rightarrow> 'w \<Rightarrow> (int \<times> cliid_t \<times> byte list option) \<times> 'w" where
  "comm_recv_async e sock_ok errcode' cid c w =
     (if errcode c \<noteq> 0 then ((-1, cid, None), w)
      else if \<not> sock_ok then ((-1, cid, None), w)
      else (case recv_msg_async_cid (zz e) Taskpull w of
              ((sz, i, data), w) \<Rightarrow>
                if sz = 0 then ((0, cid, data), w)
                else
                  let incid = (case i of None \<Rightarrow> junk e | Some i \<Rightarrow> i)
                  in ((if errcode' \<noteq> 0 then -1 else sz, IDI2E incid, data), w)))"

definition shutdown :: "'w env \<Rightarrow> int \<Rightarrow> 'w \<Rightarrow> int \<times> 'w" where
  "shutdown e joined w =
     (case send_msg (zz e) Shutdown_push (le32 1) w of (ret, w) \<Rightarrow> (if ret < 0 then -1 else joined, w))"

text \<open>
  \<open>init_pub\<close>: the request to bind the publishing socket, then the loop that greets subscribers until enough have
  answered. The result 0 of the request means that there was none to make. \<open>other\<close> is what the other threads do while this one sleeps.
\<close>

definition init_pub_bind :: "'w env \<Rightarrow> text_t \<Rightarrow> comm_handler \<Rightarrow> 'w \<Rightarrow> 'w api" where
  "init_pub_bind e connstr c w =
     (if sync_mtx c then Blocked
      else
        let c = c\<lparr>sync_mtx := True\<rparr> in
        (case send_msg (zz e) Pubstart_push connstr w of
           (ret, w) \<Rightarrow> if ret \<le> 0 then Ret (-1) (unlock c) w else Wait c w))"

definition init_pub_request :: "'w env \<Rightarrow> bool \<Rightarrow> text_t \<Rightarrow> text_t \<Rightarrow> comm_handler \<Rightarrow> 'w \<Rightarrow> 'w api" where
  "init_pub_request e sock_ok a p c w =
     (if a \<noteq> [] \<and> p \<noteq> [] then
        if \<not> sock_ok then Ret (-1) c w else init_pub_bind e (tcp_addr a p) c w
      else Ret 0 c w)"

partial_function (option) count_subs :: "'w env \<Rightarrow> int \<Rightarrow> 'w \<Rightarrow> (int \<times> int \<times> 'w) option" where
  "count_subs e nsubs w =
     (case recv_msg_async_cid (zz e) Suberq_pull w of
        ((ret, _, _), w) \<Rightarrow> if 0 < ret then count_subs e (nsubs + 1) w else Some (ret, nsubs, w))"

definition pub_greeting :: "comm_handler \<Rightarrow> byte list" where
  "pub_greeting c = COMM_HANDLER_PUB_INIT @ map of_char ''&'' @ show_int (sint (comm_id c)) @ [0]"

partial_function (option) init_pub_loop :: "'w env \<Rightarrow> (comm_handler \<Rightarrow> 'w \<Rightarrow> comm_handler \<times> 'w) \<Rightarrow> cliid_t \<Rightarrow> int \<Rightarrow> int \<Rightarrow>
    comm_handler \<Rightarrow> 'w \<Rightarrow> (int \<times> comm_handler \<times> 'w) option" where
  "init_pub_loop e other gid num_subs nsubs c w =
     (if nsubs < num_subs then
        (case publish e True (errcode c) gid (pub_greeting c) c w of
           (ret, w) \<Rightarrow>
             if ret < 0 then Some (-1, c, w)
             else
               Option.bind (count_subs e nsubs w) (\<lambda>(r, nsubs, w).
                 case other c w of (c, w) \<Rightarrow> init_pub_loop e other gid num_subs nsubs c w))
      else Some (0, c, w))"

section \<open>Calls after an error\<close>

lemma refused:
  assumes "errcode c \<noteq> 0"
  shows "get_one_connection c = Some (- 1, c)" "connect_to e ok a p i c w = Ret (-1) c w"
    "subscribe_to e ok a p is c w = Ret (-1) c w" "publish e ok er i d c w = (-1, w)"
    "comm_send e ok er i d c w = (-1, w)" "comm_recv e ok er i c w = ((-1, i, None), w)"
    "comm_recv_async e ok er i c w = ((-1, i, None), w)"
  using assms by (simp_all add: get_one_connection_def connect_to_def subscribe_to_def publish_def comm_send_def
      comm_recv_def comm_recv_async_def)

text \<open>
  C40. When a round of the communication thread ends in failure, not by request, the application
  learns of it by most calls that start afterwards: \<open>get_one_connection\<close>, \<open>connect_to\<close>, \<open>subscribe_to\<close>, \<open>publish\<close>, \<open>send\<close>, \<open>recv\<close> and \<open>recv_async\<close>
  return -1, send and receive nothing and do not wait. \<open>init_pub\<close> without an address returns -1 at its first greeting. But \<open>init_pub\<close> with an address does not look
  at the error code: on sockets that work it sends its request and then waits for the mutex, which it holds itself. \<open>shutdown\<close> still sends its message and
  returns what the join returns.
\<close>

theorem failed_handler_refuses_calls:
  assumes "handler_round e ready c w = Some (Stop c' w')" and "\<forall>f. ready = Some f \<longrightarrow> \<not> f Shutdown_sock"
  shows "get_one_connection c' = Some (- 1, c') \<and> connect_to e ok a p i c' v = Ret (-1) c' v \<and>
    subscribe_to e ok a p is c' v = Ret (-1) c' v \<and> publish e ok er i d c' v = (-1, v) \<and>
    comm_send e ok er i d c' v = (-1, v) \<and> comm_recv e ok er i c' v = ((-1, i, None), v) \<and>
    comm_recv_async e ok er i c' v = ((-1, i, None), v) \<and>
    (a = [] \<or> p = [] \<longrightarrow> init_pub_request e ok a p c' v = Ret 0 c' v) \<and>
    (0 < num_subs \<longrightarrow> init_pub_loop e other i num_subs 0 c' v = Some (-1, c', v)) \<and>
    (zmq_net e view \<and> a \<noteq> [] \<and> p \<noteq> [] \<and> \<not> sync_mtx c' \<longrightarrow>
      (\<exists>v'. init_pub_request e True a p c' v = Wait (c'\<lparr>sync_mtx := True\<rparr>) v' \<and> finish (c'\<lparr>sync_mtx := True\<rparr>) v' = Blocked)) \<and>
    (zmq_net e view \<longrightarrow> (\<exists>v'. shutdown e joined v = (joined, v')))"
proof -
  have err: "errcode c' \<noteq> 0" using round_stop_errcode [OF assms(1)] assms(2) by auto
  then have "0 < num_subs \<longrightarrow> init_pub_loop e other i num_subs 0 c' v = Some (-1, c', v)"
    by (subst init_pub_loop.simps) (simp add: refused(4))
  moreover have "\<exists>v'. init_pub_request e True a p c' v = Wait (c'\<lparr>sync_mtx := True\<rparr>) v' \<and> finish (c'\<lparr>sync_mtx := True\<rparr>) v' = Blocked"
    if "zmq_net e view" "a \<noteq> []" "p \<noteq> []" "\<not> sync_mtx c'"
    using zmq_net.net_send_msg [OF that(1), of Pubstart_push "tcp_addr a p" v] that(2-4)
    by (auto simp: init_pub_request_def init_pub_bind_def Let_def finish_def tcp_addr_def)
  moreover have "\<exists>v'. shutdown e joined v = (joined, v')" if "zmq_net e view"
    using zmq_net.net_send_msg [OF that, of Shutdown_push "le32 1" v] by (auto simp: shutdown_def)
  moreover have "a = [] \<or> p = [] \<longrightarrow> init_pub_request e ok a p c' v = Ret 0 c' v" by (auto simp: init_pub_request_def)
  ultimately show ?thesis by (simp add: refused [OF err])
qed

theorem failed_handler_refuses_calls_witness:
  "\<exists>c'. handler_round (mem_env []) None (comm0 1) (mail0 Msgq []) = Some (Stop c' (mail0 Msgq [])) \<and>
     comm_send (mem_env []) True 0 5 [1] c' (mail0 Msgq []) = (-1, mail0 Msgq []) \<and>
     (\<exists>v'. init_pub_request (mem_env []) True [49] [50] c' (mail0 Msgq []) = Wait (c'\<lparr>sync_mtx := True\<rparr>) v')"
proof -
  let ?c = "failed (comm0 1)"
  have h: "handler_round (mem_env []) None (comm0 1) (mail0 Msgq []) = Some (Stop ?c (mail0 Msgq []))" by (simp add: handler_round_def)
  have m: "\<not> sync_mtx ?c" by (simp add: comm0_def)
  have f: "\<forall>f. None = Some f \<longrightarrow> \<not> f Shutdown_sock" by simp
  from failed_handler_refuses_calls [OF h f, where v = "mail0 Msgq []" and ok = True and er = 0 and i = 5 and d = "[1]"]
  have "comm_send (mem_env []) True 0 5 [1] ?c (mail0 Msgq []) = (-1, mail0 Msgq [])" by blast
  moreover from failed_handler_refuses_calls [OF h f, where v = "mail0 Msgq []" and a = "[49]" and p = "[50]" and view = "\<lambda>w. w"] m mem_env_zmq
  have "\<exists>v'. init_pub_request (mem_env []) True [49] [50] ?c (mail0 Msgq []) = Wait (?c\<lparr>sync_mtx := True\<rparr>) v'" by blast
  ultimately show ?thesis using h by blast
qed

section \<open>Connecting\<close>

lemma tcp_addr_no_zero: "0 \<notin> set a \<Longrightarrow> 0 \<notin> set p \<Longrightarrow> 0 \<notin> set (tcp_addr a p)"
  by (simp add: tcp_addr_def)

context comm_net
begin

lemma greet_once:
  "\<exists>w'. greet (zz e) i w = Some w' \<and> view w' = post Router_sock [le32 i, COMM_HANDLER_INIT @ [0]] (view w)"
  using net_routed_cid [of i "COMM_HANDLER_INIT @ [0]" w] by (subst greet.simps) auto

lemma on_conn_done:
  assumes "inb (view w) Conn_sock = le32 i # a # ps" "length a < 2 ^ 31" "0 \<notin> set a" "beyond e = 0 # b"
  shows "\<exists>w'. on_conn e c w = Some (Go (unlock (c\<lparr>clientmap := (clientmap c)(i \<mapsto> True)\<rparr>)) w') \<and>
    view w' = post Router_sock [le32 i, COMM_HANDLER_INIT @ [0]]
      ((rest Conn_sock ps (view w))\<lparr>conns := conns (view w) @ [(Router_sock, a)]\<rparr>)"
proof -
  obtain w1 where w1: "recv_msg_cid (zz e) Conn_sock w = ((int (length a), Some i, Some a), w1)"
    "view w1 = rest Conn_sock ps (view w)" using net_recv_cid [OF assms(1,2)] by auto
  obtain w2 where w2: "zconnect (zz e) Router_sock a w1 = (True, w2)"
    "view w2 = (view w1)\<lparr>conns := conns (view w1) @ [(Router_sock, a)]\<rparr>" using net_connect by blast
  obtain w3 where w3: "greet (zz e) i w2 = Some w3" "view w3 = post Router_sock [le32 i, COMM_HANDLER_INIT @ [0]] (view w2)"
    using greet_once by blast
  have "c_string e (Some a) = Some a" using while_until(1) [OF assms(3)] assms(4) by (simp add: c_string_def)
  with w1 w2 w3 show ?thesis by (auto simp: on_conn_def Let_def mail_defs)
qed

end

text \<open>When a peer may not be reachable the greeting may be repeated for ever; if it is not, the request is served.\<close>

lemma greet_some:
  "greet z i w = Some w' \<Longrightarrow>
   \<forall>w. \<exists>ret xs w'. send_msg_cid z Router_sock i (COMM_HANDLER_INIT @ [0]) w = (ret, w') \<and> view w' = post Router_sock xs (view w) \<Longrightarrow>
   \<exists>xs. view w' = post Router_sock xs (view w)"
proof (induction rule: greet.raw_induct [rotated, consumes 1, case_names step])
  case (step loop z i w w')
  obtain ret xs w1 where w1: "send_msg_cid z Router_sock i (COMM_HANDLER_INIT @ [0]) w = (ret, w1)"
    "view w1 = post Router_sock xs (view w)" using step.prems by blast
  show ?case
  proof (cases "ret < 0")
    case True
    with step.hyps w1 have "loop z i w1 = Some w'" by simp
    from step.IH [OF this step.prems] w1(2) show ?thesis by (auto simp: post_post)
  qed (use step.hyps w1 in auto)
qed

lemma greet_refused:
  assumes "\<forall>w. \<exists>w'. send_msg_cid z Router_sock i (COMM_HANDLER_INIT @ [0]) w = (-1, w')"
  shows "greet z i w = None"
proof -
  have False if "greet z i w = Some w'" for w'
    using that assms
  proof (induction rule: greet.raw_induct [rotated, consumes 1, case_names step])
    case (step loop z i w w')
    obtain w1 where "send_msg_cid z Router_sock i (COMM_HANDLER_INIT @ [0]) w = (-1, w1)" using step.prems by blast
    with step.hyps have "loop z i w1 = Some w'" by simp
    from step.IH [OF this step.prems] show ?case .
  qed
  then show ?thesis by (cases "greet z i w") auto
qed

text \<open>A peer that cannot be reached keeps the communication thread in this loop for ever.\<close>

lemma unreachable_peer_spins:
  assumes "inb m Conn_sock = le32 i # a # ps" "length a < 2 ^ 31" "0 \<notin> set a" "le32 i \<notin> peers"
  shows "on_conn (part_env peers (0 # b)) c m = None"
proof -
  let ?e = "part_env peers (0 # b)"
  have "\<forall>w. \<exists>w'. send_msg_cid (zz ?e) Router_sock i (COMM_HANDLER_INIT @ [0]) w = (-1, w')"
    using assms(4) by (simp add: part_env_def send_msg_cid_def send_part_def)
  then have g: "greet (zz ?e) i w = None" for w by (rule greet_refused)
  have "c_string ?e (Some a) = Some a"
    using while_until(1) [OF assms(3)] by (simp add: c_string_def part_env_def mem_env_def)
  moreover obtain w1 where "recv_msg_cid (zz ?e) Conn_sock m = ((int (length a), Some i, Some a), w1)"
    using part.net_recv_cid [OF assms(1,2)] by blast
  moreover obtain w2 where "zconnect (zz ?e) Router_sock a w1 = (True, w2)" using part.net_connect by blast
  ultimately show ?thesis using g by (simp add: on_conn_def Let_def)
qed

context zmq_net
begin

lemma greet_posts: "greet (zz e) i w = Some w' \<Longrightarrow> \<exists>xs. view w' = post Router_sock xs (view w)"
  using net_route_cid by (intro greet_some [where view = view]) blast+

lemma on_conn_served:
  assumes "inb (view w) Conn_sock = le32 i # a # ps" "length a < 2 ^ 31" "0 \<notin> set a" "beyond e = 0 # b" "on_conn e c w = Some t"
  shows "\<exists>xs w'. t = Go (unlock (c\<lparr>clientmap := (clientmap c)(i \<mapsto> True)\<rparr>)) w' \<and>
    view w' = post Router_sock xs ((rest Conn_sock ps (view w))\<lparr>conns := conns (view w) @ [(Router_sock, a)]\<rparr>)"
proof -
  obtain w1 where w1: "recv_msg_cid (zz e) Conn_sock w = ((int (length a), Some i, Some a), w1)"
    "view w1 = rest Conn_sock ps (view w)" using net_recv_cid [OF assms(1,2)] by auto
  obtain w2 where w2: "zconnect (zz e) Router_sock a w1 = (True, w2)"
    "view w2 = (view w1)\<lparr>conns := conns (view w1) @ [(Router_sock, a)]\<rparr>" using net_connect by blast
  have "c_string e (Some a) = Some a" using while_until(1) [OF assms(3)] assms(4) by (simp add: c_string_def)
  with w1 w2 assms(5) obtain w3 where w3: "greet (zz e) i w2 = Some w3" "t = Go (unlock (c\<lparr>clientmap := (clientmap c)(i \<mapsto> True)\<rparr>)) w3"
    by (auto simp: on_conn_def Let_def split: option.splits)
  from greet_posts [OF w3(1)] w1(2) w2(2) w3(2) show ?thesis by (auto simp: rest_def)
qed

lemma connect_request_sent:
  assumes "\<not> sync_mtx c" "a \<noteq> []"
  shows "\<exists>w'. connect_to_request e a i c w = Wait (c\<lparr>sync_mtx := True\<rparr>) w' \<and>
    view w' = post Connpush [le32 (IDE2I i), a] (view w)"
  using net_send_cid [of Connpush "IDE2I i" a w] assms by (auto simp: connect_to_request_def Let_def)

lemma connect_to_waits:
  assumes "errcode c = 0" "\<not> sync_mtx c"
  shows "\<exists>w'. connect_to e True a p i c w = Wait (c\<lparr>sync_mtx := True\<rparr>) w' \<and>
    view w' = post Connpush [le32 (IDE2I i), tcp_addr a p] (view w)"
  using connect_request_sent [OF assms(2), of "tcp_addr a p"] assms(1) by (simp add: connect_to_def tcp_addr_def)

end

text \<open>
  \<open>connect_to\<close> completes: the call sends its request and waits; when the request has reached the
  communication thread, the handler connects the router socket to the address asked for, greets the
  peer under the identity that belongs to its id, makes it a known client, and releases the call, which returns 0.
\<close>

lemma connect_to_completes:
  assumes "comm_net e view" and "errcode c = 0" and "\<not> sync_mtx c" and "beyond e = 0 # b"
    and "0 \<notin> set a" and "0 \<notin> set p" and "length (tcp_addr a p) < 2 ^ 31"
  shows "\<exists>c1 w1. connect_to e True a p i c w = Wait c1 w1 \<and>
    outb (view w1) Connpush = outb (view w) Connpush @ [le32 (IDE2I i), tcp_addr a p] \<and>
    (\<forall>v. inb (view v) Conn_sock = [le32 (IDE2I i), tcp_addr a p] \<longrightarrow>
      (\<exists>c2 v'. on_conn e c1 v = Some (Go c2 v') \<and> clientmap c2 (IDE2I i) = Some True \<and>
        conns (view v') = conns (view v) @ [(Router_sock, tcp_addr a p)] \<and>
        outb (view v') Router_sock = outb (view v) Router_sock @ [le32 (IDE2I i), COMM_HANDLER_INIT @ [0]] \<and>
        finish c2 v' = Ret 0 c2 v'))"
proof -
  obtain w1 where w1: "connect_to e True a p i c w = Wait (c\<lparr>sync_mtx := True\<rparr>) w1"
    "view w1 = post Connpush [le32 (IDE2I i), tcp_addr a p] (view w)"
    using zmq_net.connect_to_waits [OF comm_net_zmq [OF assms(1)] assms(2,3)] by blast
  let ?c1 = "c\<lparr>sync_mtx := True\<rparr>"
  let ?c2 = "unlock (?c1\<lparr>clientmap := (clientmap ?c1)(IDE2I i \<mapsto> True)\<rparr>)"
  have fin: "\<exists>c2 v'. on_conn e ?c1 v = Some (Go c2 v') \<and> clientmap c2 (IDE2I i) = Some True \<and>
      conns (view v') = conns (view v) @ [(Router_sock, tcp_addr a p)] \<and>
      outb (view v') Router_sock = outb (view v) Router_sock @ [le32 (IDE2I i), COMM_HANDLER_INIT @ [0]] \<and>
      finish c2 v' = Ret 0 c2 v'"
    if req: "inb (view v) Conn_sock = [le32 (IDE2I i), tcp_addr a p]" for v
  proof -
    obtain v' where "on_conn e ?c1 v = Some (Go ?c2 v')" "conns (view v') = conns (view v) @ [(Router_sock, tcp_addr a p)]"
      "outb (view v') Router_sock = outb (view v) Router_sock @ [le32 (IDE2I i), COMM_HANDLER_INIT @ [0]]"
      using comm_net.on_conn_done [OF assms(1) req assms(7) tcp_addr_no_zero [OF assms(5,6)] assms(4), of ?c1]
      by (auto simp: mail_defs)
    moreover have "clientmap ?c2 (IDE2I i) = Some True" "finish ?c2 v' = Ret 0 ?c2 v'"
      using assms(2) by (simp_all add: finish_def)
    ultimately show ?thesis by blast
  qed
  have "outb (view w1) Connpush = outb (view w) Connpush @ [le32 (IDE2I i), tcp_addr a p]"
    using w1(2) by (simp add: post_def)
  with w1(1) fin show ?thesis by blast
qed

lemma connect_to_completes_witness:
  "\<exists>c1 w1. connect_to (mem_env [0]) True [49] [50] 2 (comm0 1) (mail0 Msgq []) = Wait c1 w1 \<and>
     (\<exists>c2 v'. on_conn (mem_env [0]) c1 (mail0 Conn_sock [le32 (IDE2I 2), tcp_addr [49] [50]]) = Some (Go c2 v') \<and>
       finish c2 v' = Ret 0 c2 v')"
proof -
  have "inb (mail0 Conn_sock [le32 (IDE2I 2), tcp_addr [49] [50]]) Conn_sock = [le32 (IDE2I 2), tcp_addr [49] [50]]"
    by (simp add: mail0_def)
  moreover have "errcode (comm0 1) = 0" "\<not> sync_mtx (comm0 1)" "beyond (mem_env [0]) = 0 # []"
    "length (tcp_addr [49] [50]) < 2 ^ 31" by (simp_all add: comm0_def mem_env_def tcp_addr_def)
  ultimately show ?thesis
    using connect_to_completes [OF mem_env_net, of "comm0 1" "[0]" "[]" "[49]" "[50]" 2 "mail0 Msgq []"] by fastforce
qed

section \<open>A message from end to end\<close>

lemma IDE2I_sign:
  assumes "- (2 ^ 27) \<le> sint x" "sint x < 2 ^ 27"
  shows "sint (IDE2I x) < 0 \<longleftrightarrow> sint x < 0"
proof -
  have neg: "sint y < 0 \<longleftrightarrow> bit y 31" for y :: c_int
    using bit_last_iff [of y] by simp
  have "bit (IDE2I x) 31 = bit x 27" by (simp add: IDE2I_def bit_simps)
  also have "\<dots> = bit x 31" using small_sign_bits [OF assms, of 31] by simp
  finally show ?thesis using neg by simp
qed

lemma IDE2I_neq:
  assumes "- (2 ^ 27) \<le> sint x" "sint x < 2 ^ 27"
  shows "IDE2I x \<noteq> x"
proof
  assume eq: "IDE2I x = x"
  with IDI2E_IDE2I [OF assms] have "IDI2E x = x" by simp
  then have "sint x = sint x div 16" using sint_signed_drop_bit_eq [of 4 x] by (simp add: IDI2E_def drop_bit_eq_div)
  then have "sint x = 0 \<or> sint x = -1" by linarith
  then have "x = 0 \<or> x = - 1" by (auto intro: signed_word_eqI)
  moreover have "bit (IDE2I x) 0" "\<not> bit (IDE2I x) 1" by (simp_all add: IDE2I_def bit_simps)
  ultimately show False using eq by (auto simp: bit_simps)
qed

context comm_net
begin

lemma on_msgq_forwards:
  assumes "inb (view w) Msgq = le32 i # d # ps" "length d < 2 ^ 31"
  shows "\<exists>w'. on_msgq e c w = Go c w' \<and> outb (view w') Router_sock = outb (view w) Router_sock @ [le32 i, d]"
proof -
  obtain w1 where "recv_msg_cid (zz e) Msgq w = ((int (length d), Some i, Some d), w1)"
    "view w1 = rest Msgq ps (view w)" using net_recv_cid [OF assms] by auto
  with net_routed_cid [of i d w1] show ?thesis by (auto simp: on_msgq_def bytes_def mail_defs)
qed

end

context zmq_net
begin

lemma recv_taskpull:
  assumes "inb (view w) Taskpull = le32 i # d # ps" "length d < 2 ^ 31" "errcode c = 0"
  shows "\<exists>w'. comm_recv e True 0 cid c w = ((int (length d), if 0 \<le> sint i then IDI2E i else i, Some d), w')"
    and "d \<noteq> [] \<Longrightarrow> \<exists>w'. comm_recv_async e True 0 cid c w = ((int (length d), IDI2E i, Some d), w')"
  using net_recv_cid [OF assms(1,2)] net_recv_async_cid [OF assms(1,2)] assms(3)
  by (auto simp: comm_recv_def comm_recv_async_def)

end

text \<open>
  C21. A message from end to end, along the path \<open>send\<close>, message queue, router of the sender, network, router of the
  receiver, task queue, \<open>recv\<close>. Node \<open>A\<close>, whose router can reach \<open>dest\<close> and whose own id is from 0 to \<open>2 ^ 27 - 1\<close>, calls \<open>send\<close> with bytes that are not
  empty and are not the answer of a subscriber (\<open>sub_hello\<close>) for the id \<open>dest\<close>; its handler puts the message on the router under the
  identity of \<open>dest\<close>. When the router of node \<open>B\<close>, for which \<open>A\<close> is a known client, gets it under the identity of
  \<open>A\<close>, the handler queues it unchanged, and \<open>recv\<close> and \<open>recv_async\<close> return the same bytes and the id of \<open>A\<close>.
\<close>

theorem message_end_to_end:
  assumes "comm_net eA viewA" and "zmq_net eB viewB"
    and "errcode cA = 0" and "errcode cB = 0" and "clientmap cB (IDE2I idA) = Some True"
    and "0 \<le> sint idA" and "sint idA < 2 ^ 27"
    and "d \<noteq> []" and "length d < 2 ^ 31" and "d \<noteq> COMM_HANDLER_SUB_INIT @ [0]"
  shows "(\<exists>w1. comm_send eA True 0 dest d cA wA = (int (length d), w1) \<and>
      outb (viewA w1) Msgpush = outb (viewA wA) Msgpush @ [le32 (IDE2I dest), d]) \<and>
    (\<forall>v. inb (viewA v) Msgq = [le32 (IDE2I dest), d] \<longrightarrow>
      (\<exists>v'. on_msgq eA cA v = Go cA v' \<and> outb (viewA v') Router_sock = outb (viewA v) Router_sock @ [le32 (IDE2I dest), d])) \<and>
    (\<forall>v. inb (viewB v) Router_sock = [le32 (IDE2I idA), d] \<longrightarrow>
      (\<exists>v'. on_router eB cB v = Go cB v' \<and> outb (viewB v') Taskq = outb (viewB v) Taskq @ [le32 (IDE2I idA), d])) \<and>
    (\<forall>v. inb (viewB v) Taskpull = [le32 (IDE2I idA), d] \<longrightarrow>
      (\<exists>v'. comm_recv eB True 0 cid cB v = ((int (length d), idA, Some d), v')) \<and>
      (\<exists>v'. comm_recv_async eB True 0 cid cB v = ((int (length d), idA, Some d), v')))"
proof (intro conjI allI impI)
  have small: "- (2 ^ 27) \<le> sint idA" using assms(6) by simp
  have dec: "IDI2E (IDE2I idA) = idA" "0 \<le> sint (IDE2I idA)"
    using IDI2E_IDE2I [OF small assms(7)] IDE2I_sign [OF small assms(7)] assms(6) by simp_all
  show "\<exists>w1. comm_send eA True 0 dest d cA wA = (int (length d), w1) \<and>
      outb (viewA w1) Msgpush = outb (viewA wA) Msgpush @ [le32 (IDE2I dest), d]"
    using zmq_net.net_send_cid [OF comm_net_zmq [OF assms(1)], of Msgpush "IDE2I dest" d wA] assms(3)
    by (auto simp: comm_send_def post_def)
  show "\<exists>v'. on_msgq eA cA v = Go cA v' \<and> outb (viewA v') Router_sock = outb (viewA v) Router_sock @ [le32 (IDE2I dest), d]"
    if "inb (viewA v) Msgq = [le32 (IDE2I dest), d]" for v
    by (rule comm_net.on_msgq_forwards [OF assms(1) that assms(9)])
  show "\<exists>v'. on_router eB cB v = Go cB v' \<and> outb (viewB v') Taskq = outb (viewB v) Taskq @ [le32 (IDE2I idA), d]"
    if got: "inb (viewB v) Router_sock = [le32 (IDE2I idA), d]" for v
  proof -
    obtain v1 where "recv_msg_cid (zz eB) Router_sock v = ((int (length d), Some (IDE2I idA), Some d), v1)"
      "viewB v1 = rest Router_sock [] (viewB v)" using zmq_net.net_recv_cid [OF assms(2) got assms(9)] by auto
    with zmq_net.net_send_cid [OF assms(2), of Taskq "IDE2I idA" d v1] assms(5,10) show ?thesis
      by (auto simp: on_router_def bytes_def mail_defs)
  qed
  show "\<exists>v'. comm_recv eB True 0 cid cB v = ((int (length d), idA, Some d), v')"
    "\<exists>v'. comm_recv_async eB True 0 cid cB v = ((int (length d), idA, Some d), v')"
    if "inb (viewB v) Taskpull = [le32 (IDE2I idA), d]" for v
    using zmq_net.recv_taskpull [OF assms(2) that assms(9,4), of cid] dec assms(8) by simp_all
qed

theorem message_end_to_end_witness:
  "\<exists>v'. comm_recv (mem_env []) True 0 0 ((comm0 2)\<lparr>clientmap := [IDE2I 5 \<mapsto> True]\<rparr>)
     (mail0 Taskpull [le32 (IDE2I 5), [1, 2]]) = ((2, 5, Some [1, 2]), v')"
proof -
  let ?c = "(comm0 2)\<lparr>clientmap := [IDE2I 5 \<mapsto> True]\<rparr>"
  have "[1, 2] \<noteq> COMM_HANDLER_SUB_INIT @ [0]" by (simp add: COMM_HANDLER_SUB_INIT_def)
  moreover have "errcode (comm0 5) = 0" "errcode ?c = 0" "clientmap ?c (IDE2I 5) = Some True" by (simp_all add: comm0_def)
  moreover have "inb (mail0 Taskpull [le32 (IDE2I 5), [1, 2]]) Taskpull = [le32 (IDE2I 5), [1, 2]]" by (simp add: mail0_def)
  ultimately show ?thesis
    using message_end_to_end [OF mem_env_net mem_env_zmq, of "comm0 5" ?c 5 "[1, 2]" "[]" 2 "mail0 Msgq []" "[]" 0] by fastforce
qed

text \<open>
  The two ways to receive disagree on negative ids: \<open>recv_async\<close> returns the id of the sender,
  \<open>recv\<close> the internal identity instead, which is another number.
\<close>

lemma recv_negative_id:
  assumes "zmq_net e view" and "inb (view w) Taskpull = le32 (IDE2I i) # d # ps" and "d \<noteq> []" and "length d < 2 ^ 31"
    and "errcode c = 0" and "- (2 ^ 27) \<le> sint i" and "sint i < 0"
  shows "IDE2I i \<noteq> i \<and> (\<exists>w'. comm_recv e True 0 cid c w = ((int (length d), IDE2I i, Some d), w')) \<and>
    (\<exists>w'. comm_recv_async e True 0 cid c w = ((int (length d), i, Some d), w'))"
proof -
  have "sint i < 2 ^ 27" using assms(7) by simp
  note b = IDI2E_IDE2I [OF assms(6) this] IDE2I_sign [OF assms(6) this]
  from zmq_net.recv_taskpull [OF assms(1,2,4,5), of cid] b assms(3,7) IDE2I_neq [OF assms(6) \<open>sint i < 2 ^ 27\<close>] show ?thesis by simp
qed

lemma recv_negative_id_witness:
  "\<exists>w'. comm_recv (mem_env []) True 0 0 (comm0 1) (mail0 Taskpull [le32 (IDE2I (- 3)), [7]]) = ((1, IDE2I (- 3), Some [7]), w')"
proof -
  have "inb (mail0 Taskpull [le32 (IDE2I (- 3)), [7]]) Taskpull = [le32 (IDE2I (- 3)), [7]]" by (simp add: mail0_def)
  from recv_negative_id [OF mem_env_zmq this, of "comm0 1" "[]" 0] show ?thesis by (auto simp: comm0_def)
qed

section \<open>Waiting for subscribers\<close>

context zmq_net
begin

lemma count_subs_all:
  assumes "inb (view w) Suberq_pull = wire ms" "\<forall>m \<in> set ms. 0 < length (snd m) \<and> length (snd m) < 2 ^ 31"
  shows "\<exists>w'. count_subs e n w = Some (0, n + int (length ms), w') \<and> view w' = rest Suberq_pull [] (view w)"
  using assms
proof (induction ms arbitrary: n w)
  case Nil
  then have "inb (view w) Suberq_pull = []" by simp
  from net_empty [OF this] obtain w' where w': "zrecv (zz e) Suberq_pull True w = (Some (0, []), w')" "zagain (zz e) w'"
    "view w' = view w" by blast
  have "rest Suberq_pull [] (view w) = view w" using \<open>inb (view w) Suberq_pull = []\<close> by (simp add: rest_def fun_upd_idem)
  with w' show ?case by (subst count_subs.simps) (simp add: recv_msg_async_cid_def)
next
  case (Cons m ms)
  obtain i d where m: "m = (i, d)" by (cases m)
  with Cons.prems have "inb (view w) Suberq_pull = le32 i # d # wire ms" "length d < 2 ^ 31" "0 < length d" by auto
  from net_recv_async_cid [OF this(1,2)] this(3) obtain w1 where
    w1: "recv_msg_async_cid (zz e) Suberq_pull w = ((int (length d), Some i, Some d), w1)"
    "view w1 = rest Suberq_pull (wire ms) (view w)" by auto
  then have "inb (view w1) Suberq_pull = wire ms" by (simp add: rest_def)
  from Cons.IH [OF this, of "n + 1"] Cons.prems(2) obtain w' where
    "count_subs e (n + 1) w1 = Some (0, n + 1 + int (length ms), w')" "view w' = rest Suberq_pull [] (view w1)" by auto
  with w1 \<open>0 < length d\<close> show ?case by (subst count_subs.simps) (auto simp: rest_def)
qed

lemma init_pub_loop_done:
  assumes "inb (view w) Suberq_pull = wire ms" "\<forall>m \<in> set ms. 0 < length (snd m) \<and> length (snd m) < 2 ^ 31"
    and "0 < num" "num \<le> int (length ms)" "errcode c = 0"
  shows "\<exists>w1 c' w'. init_pub_loop e other gid num 0 c w = Some (0, c', w') \<and> (c', w') = other c w1 \<and>
    outb (view w1) Pub_sendpush = outb (view w) Pub_sendpush @ [le32 gid, pub_greeting c]"
proof -
  obtain w0 where w0: "send_msg_cid (zz e) Pub_sendpush gid (pub_greeting c) w = (int (length (pub_greeting c)), w0)"
    "view w0 = post Pub_sendpush [le32 gid, pub_greeting c] (view w)" using net_send_cid by blast
  then have "inb (view w0) Suberq_pull = wire ms" using assms(1) by (simp add: post_def)
  from count_subs_all [OF this assms(2), of 0] obtain w1 where
    w1: "count_subs e 0 w0 = Some (0, int (length ms), w1)" "view w1 = rest Suberq_pull [] (view w0)" by auto
  obtain c' w' where o: "other c w1 = (c', w')" by fastforce
  have "init_pub_loop e other gid num (int (length ms)) c' w' = Some (0, c', w')"
    using assms(4) by (subst init_pub_loop.simps) simp
  then have "init_pub_loop e other gid num 0 c w = Some (0, c', w')"
    using w0(1) w1(1) o assms(3,5) by (subst init_pub_loop.simps) (simp add: publish_def)
  moreover have "outb (view w1) Pub_sendpush = outb (view w) Pub_sendpush @ [le32 gid, pub_greeting c]"
    using w0(2) w1(2) by (simp add: mail_defs)
  ultimately show ?thesis using o by metis
qed

end

text \<open>
  \<open>init_pub\<close> counts the answers of its subscribers: if at least as many answers as asked for are
  waiting, it publishes its greeting once, takes the answers and returns 0.
\<close>

lemma init_pub_counts:
  assumes "zmq_net e view" and "inb (view w) Suberq_pull = wire ms"
    and "\<forall>m \<in> set ms. 0 < length (snd m) \<and> length (snd m) < 2 ^ 31"
    and "0 < num" and "num \<le> int (length ms)" and "errcode c = 0"
  shows "\<exists>w1 c' w'. init_pub_loop e other gid num 0 c w = Some (0, c', w') \<and> (c', w') = other c w1 \<and>
    outb (view w1) Pub_sendpush = outb (view w) Pub_sendpush @ [le32 gid, pub_greeting c]"
  by (rule zmq_net.init_pub_loop_done [OF assms])

lemma init_pub_counts_witness:
  "\<exists>c' w'. init_pub_loop (mem_env []) Pair 9 2 0 (comm0 1) (mail0 Suberq_pull (wire [(17, [1]), (33, [2])])) = Some (0, c', w')"
proof -
  have "inb (mail0 Suberq_pull (wire [(17, [1]), (33, [2])])) Suberq_pull = wire [(17, [1]), (33, [2])]" by (simp add: mail0_def)
  from init_pub_counts [OF mem_env_zmq this, of 2 "comm0 1" "[]" Pair 9] show ?thesis by (auto simp: comm0_def)
qed

end
