(* ===== verification/Comm_Pub.thy ===== *)
theory Comm_Pub
  imports Comm_Api
begin

text \<open>
  Publications of the ZeroMQ handler: the composition of the calls \<open>init_pub\<close>, \<open>subscribe_to\<close>, \<open>publish\<close> and \<open>recv\<close> with the
  handlers of both communication threads (\<open>src/comm_zmq/src/comm_handler.cpp\<close>). Theorems: the greeting of a
  publisher is answered once by every subscriber, which releases \<open>subscribe_to\<close>; a publication reaches \<open>recv\<close>
  of a subscriber with its bytes and the id of its group; and the answer of a subscriber can release
  a call of \<open>connect_to\<close> that has not been served.
\<close>

section \<open>The whole of \<open>init_pub\<close>\<close>

text \<open>
  After the request for an address, if there was one, and the making of the thread's socket for answers (\<open>sock_ok\<close>), the loop.
\<close>

definition init_pub_greet :: "'w env \<Rightarrow> bool \<Rightarrow> (comm_handler \<Rightarrow> 'w \<Rightarrow> comm_handler \<times> 'w) \<Rightarrow> cliid_t \<Rightarrow> int \<Rightarrow>
    comm_handler \<Rightarrow> 'w \<Rightarrow> (int \<times> comm_handler \<times> 'w) option" where
  "init_pub_greet e sock_ok other gid num_subs c w =
     (if \<not> sock_ok then Some (-1, c, w) else init_pub_loop e other gid num_subs 0 c w)"

section \<open>The greeting of a publisher\<close>

lemma greeting_string:
  "c_string e (Some (pub_greeting c)) = Some (COMM_HANDLER_PUB_INIT @ 38 # show_int (sint (comm_id c)))"
proof -
  let ?s = "COMM_HANDLER_PUB_INIT @ 38 # show_int (sint (comm_id c))"
  have "0 \<notin> set ?s" using show_int_no_zero by (simp add: COMM_HANDLER_PUB_INIT_def)
  moreover have "pub_greeting c = ?s @ [0]" by (simp add: pub_greeting_def)
  ultimately show ?thesis using while_until(1) [of 0 ?s "beyond e"] by (simp add: c_string_def)
qed

lemma greeting_prefix: "take 9 (pub_greeting c @ b) = COMM_HANDLER_PUB_INIT"
  by (simp add: pub_greeting_def COMM_HANDLER_PUB_INIT_def)

lemma greeting_id:
  "get_int (istream_of (snd (split_amp (COMM_HANDLER_PUB_INIT @ 38 # show_int (sint i))))) =
     (Some (sint (i :: c_int)), (istream_of (show_int (sint i)))\<lparr>left := [], eof := True\<rparr>)"
proof -
  have "38 \<notin> set COMM_HANDLER_PUB_INIT" by (simp add: COMM_HANDLER_PUB_INIT_def)
  then have "snd (split_amp (COMM_HANDLER_PUB_INIT @ 38 # show_int (sint i))) = show_int (sint i)"
    by (simp add: split_amp_text)
  moreover have "- (2 ^ 31) \<le> sint i" "sint i < 2 ^ 31" using sint_range_size [of i] by (simp_all add: word_size)
  ultimately show ?thesis
    using get_int_show_int [of "sint i" "[]" "istream_of (show_int (sint i))"] by (simp add: istream_of_def)
qed

context zmq_net
begin

lemma on_pub_sendpull_forwards:
  assumes "inb (view w) Pub_sendpull = le32 g # d # ps" "length d < 2 ^ 31" "0 \<le> sint g"
  shows "\<exists>w'. on_pub_sendpull e c w = Go c w' \<and> outb (view w') Pub_sock = outb (view w) Pub_sock @ [le32 g, d]"
proof -
  obtain w1 where "recv_msg_cid (zz e) Pub_sendpull w = ((int (length d), Some g, Some d), w1)"
    "view w1 = rest Pub_sendpull ps (view w)" using net_recv_cid [OF assms(1,2)] by auto
  with net_send_cid [of Pub_sock g d w1] assms(3) show ?thesis by (auto simp: on_pub_sendpull_def bytes_def mail_defs)
qed

lemma on_sub_sock_greeting_any:
  assumes "inb (view w) Sub_sock = le32 g # pub_greeting p # ps" "length (pub_greeting p) < 2 ^ 31"
  shows "\<exists>xs w'. on_sub_sock e c w =
      Go (if publishermap c (comm_id p) = None then unlock (c\<lparr>publishermap := (publishermap c)(comm_id p \<mapsto> True)\<rparr>) else c) w' \<and>
    view w' = post Router_sock xs (rest Sub_sock ps (view w))"
proof -
  obtain w1 where w1: "recv_msg_cid (zz e) Sub_sock w = ((int (length (pub_greeting p)), Some g, Some (pub_greeting p)), w1)"
    "view w1 = rest Sub_sock ps (view w)" using net_recv_cid [OF assms] by auto
  have "\<exists>xs. rest Sub_sock ps (view w) = post Router_sock xs (rest Sub_sock ps (view w))"
    by (intro exI [of _ "[]"]) (simp add: post_def)
  with w1 net_route_cid [of "comm_id p" "COMM_HANDLER_SUB_INIT @ [0]" w1] show ?thesis
    by (cases "publishermap c (comm_id p)")
      (auto simp: on_sub_sock_def bytes_def greeting_string greeting_prefix greeting_id Let_def simp del: take_append)
qed

lemma on_sub_sock_data:
  assumes "inb (view w) Sub_sock = le32 g # d # ps" "length d < 2 ^ 31" "take 9 (d @ beyond e) \<noteq> COMM_HANDLER_PUB_INIT"
  shows "\<exists>w'. on_sub_sock e c w = Go c w' \<and> view w' = post Taskq [le32 (IDE2I g), d] (rest Sub_sock ps (view w))"
proof -
  obtain w1 where "recv_msg_cid (zz e) Sub_sock w = ((int (length d), Some g, Some d), w1)"
    "view w1 = rest Sub_sock ps (view w)" using net_recv_cid [OF assms(1,2)] by auto
  with net_send_cid [of Taskq "IDE2I g" d w1] assms(3) show ?thesis
    by (auto simp: on_sub_sock_def bytes_def mail_defs simp del: take_append)
qed

lemma on_router_answer:
  assumes "inb (view w) Router_sock = le32 i # (COMM_HANDLER_SUB_INIT @ [0]) # ps"
  shows "\<exists>w'. on_router e c w = Go (unlock c) w' \<and>
    outb (view w') Suberq = outb (view w) Suberq @ [le32 i, COMM_HANDLER_SUB_INIT @ [0]]"
proof -
  have "length (COMM_HANDLER_SUB_INIT @ [0]) < 2 ^ 31" by (simp add: COMM_HANDLER_SUB_INIT_def)
  from net_recv_cid [OF assms this] obtain w1 where
    "recv_msg_cid (zz e) Router_sock w = ((int (length (COMM_HANDLER_SUB_INIT @ [0])), Some i, Some (COMM_HANDLER_SUB_INIT @ [0])), w1)"
    "view w1 = rest Router_sock ps (view w)" by auto
  with net_send_cid [of Suberq i "COMM_HANDLER_SUB_INIT @ [0]" w1] show ?thesis by (auto simp: on_router_def bytes_def mail_defs)
qed

end

context comm_net
begin

lemma on_sub_sock_greeting:
  assumes "inb (view w) Sub_sock = le32 g # pub_greeting p # ps" "length (pub_greeting p) < 2 ^ 31"
  shows "\<exists>w'. on_sub_sock e c w =
      Go (if publishermap c (comm_id p) = None then unlock (c\<lparr>publishermap := (publishermap c)(comm_id p \<mapsto> True)\<rparr>) else c) w' \<and>
    view w' = post Router_sock (if publishermap c (comm_id p) = None then [le32 (comm_id p), COMM_HANDLER_SUB_INIT @ [0]] else [])
      (rest Sub_sock ps (view w))"
proof -
  obtain w1 where "recv_msg_cid (zz e) Sub_sock w = ((int (length (pub_greeting p)), Some g, Some (pub_greeting p)), w1)"
    "view w1 = rest Sub_sock ps (view w)" using net_recv_cid [OF assms] by auto
  with net_routed_cid [of "comm_id p" "COMM_HANDLER_SUB_INIT @ [0]" w1] show ?thesis
    by (cases "publishermap c (comm_id p)")
      (auto simp: on_sub_sock_def bytes_def greeting_string greeting_prefix greeting_id mail_defs Let_def simp del: take_append)
qed

end

section \<open>The handshake\<close>

lemma init_pub_one:
  assumes "zmq_net e view" "inb (view w) Suberq_pull = [le32 i, COMM_HANDLER_SUB_INIT @ [0]]" "errcode c = 0"
  shows "\<exists>c' w' w1. init_pub_greet e True other g 1 c w = Some (0, c', w') \<and> (c', w') = other c w1 \<and>
    outb (view w1) Pub_sendpush = outb (view w) Pub_sendpush @ [le32 g, pub_greeting c]"
proof -
  have "inb (view w) Suberq_pull = wire [(i, COMM_HANDLER_SUB_INIT @ [0])]" using assms(2) by simp
  from zmq_net.init_pub_loop_done [OF assms(1) this, of 1 c other g] assms(3)
  show ?thesis by (auto simp: init_pub_greet_def COMM_HANDLER_SUB_INIT_def)
qed

text \<open>
  C20. A publisher \<open>P\<close> and a subscriber \<open>S\<close> find each other. The communication thread of \<open>P\<close> sends the greeting that
  \<open>init_pub\<close> publishes out on the publishing socket. When it reaches \<open>S\<close>, which waits in \<open>subscribe_to\<close>, the handler of \<open>S\<close>
  answers on its router (which can reach \<open>P\<close>) to the identity of \<open>P\<close>, remembers \<open>P\<close>, and releases \<open>subscribe_to\<close>, which returns 0; a second
  greeting of \<open>P\<close> changes nothing (so a call of \<open>subscribe_to\<close> that waits then is not released by it). When the answer reaches the router of \<open>P\<close>, its handler
  queues it, and \<open>init_pub\<close>, which waits for one subscriber, returns 0.
\<close>

theorem publication_handshake:
  assumes "zmq_net eP viewP" and "comm_net eS viewS" and "errcode cP = 0" and "errcode cS = 0"
    and "0 \<le> sint g" and "length (pub_greeting cP) < 2 ^ 31" and "publishermap cS (comm_id cP) = None"
  shows "(\<forall>v. inb (viewP v) Pub_sendpull = [le32 g, pub_greeting cP] \<longrightarrow>
      (\<exists>v'. on_pub_sendpull eP cP v = Go cP v' \<and> outb (viewP v') Pub_sock = outb (viewP v) Pub_sock @ [le32 g, pub_greeting cP])) \<and>
    (\<forall>v. inb (viewS v) Sub_sock = [le32 g, pub_greeting cP] \<longrightarrow>
      (\<exists>c1 v1. on_sub_sock eS (cS\<lparr>sync_mtx := True\<rparr>) v = Go c1 v1 \<and> finish c1 v1 = Ret 0 c1 v1 \<and>
         outb (viewS v1) Router_sock = outb (viewS v) Router_sock @ [le32 (comm_id cP), COMM_HANDLER_SUB_INIT @ [0]] \<and>
         (\<forall>m u. inb (viewS u) Sub_sock = [le32 g, pub_greeting cP] \<longrightarrow>
            (\<exists>u'. on_sub_sock eS (c1\<lparr>sync_mtx := m\<rparr>) u = Go (c1\<lparr>sync_mtx := m\<rparr>) u' \<and>
               outb (viewS u') Router_sock = outb (viewS u) Router_sock)))) \<and>
    (\<forall>v. inb (viewP v) Router_sock = [le32 (comm_id cS), COMM_HANDLER_SUB_INIT @ [0]] \<longrightarrow>
      (\<exists>v'. on_router eP cP v = Go (unlock cP) v' \<and>
         outb (viewP v') Suberq = outb (viewP v) Suberq @ [le32 (comm_id cS), COMM_HANDLER_SUB_INIT @ [0]])) \<and>
    (\<forall>v. inb (viewP v) Suberq_pull = [le32 (comm_id cS), COMM_HANDLER_SUB_INIT @ [0]] \<longrightarrow>
      (\<exists>c' v'. init_pub_greet eP True other g 1 cP v = Some (0, c', v')))"
proof (intro conjI allI impI)
  show "\<exists>v'. on_pub_sendpull eP cP v = Go cP v' \<and> outb (viewP v') Pub_sock = outb (viewP v) Pub_sock @ [le32 g, pub_greeting cP]"
    if "inb (viewP v) Pub_sendpull = [le32 g, pub_greeting cP]" for v
    by (rule zmq_net.on_pub_sendpull_forwards [OF assms(1) that assms(6,5)])
  show "\<exists>v'. on_router eP cP v = Go (unlock cP) v' \<and>
      outb (viewP v') Suberq = outb (viewP v) Suberq @ [le32 (comm_id cS), COMM_HANDLER_SUB_INIT @ [0]]"
    if "inb (viewP v) Router_sock = [le32 (comm_id cS), COMM_HANDLER_SUB_INIT @ [0]]" for v
    by (rule zmq_net.on_router_answer [OF assms(1) that])
  show "\<exists>c' v'. init_pub_greet eP True other g 1 cP v = Some (0, c', v')"
    if "inb (viewP v) Suberq_pull = [le32 (comm_id cS), COMM_HANDLER_SUB_INIT @ [0]]" for v
    using init_pub_one [OF assms(1) that assms(3)] by blast
next
  fix v assume v: "inb (viewS v) Sub_sock = [le32 g, pub_greeting cP]"
  define c1 where "c1 = unlock (cS\<lparr>publishermap := (publishermap cS)(comm_id cP \<mapsto> True)\<rparr>)"
  have p: "publishermap (c1\<lparr>sync_mtx := m\<rparr>) (comm_id cP) = Some True" for m by (simp add: c1_def)
  from comm_net.on_sub_sock_greeting [OF assms(2) v assms(6), of "cS\<lparr>sync_mtx := True\<rparr>"] assms(7) obtain v1 where
    v1: "on_sub_sock eS (cS\<lparr>sync_mtx := True\<rparr>) v = Go c1 v1"
    "outb (viewS v1) Router_sock = outb (viewS v) Router_sock @ [le32 (comm_id cP), COMM_HANDLER_SUB_INIT @ [0]]"
    by (auto simp: c1_def mail_defs)
  have "\<exists>u'. on_sub_sock eS (c1\<lparr>sync_mtx := m\<rparr>) u = Go (c1\<lparr>sync_mtx := m\<rparr>) u' \<and> outb (viewS u') Router_sock = outb (viewS u) Router_sock"
    if "inb (viewS u) Sub_sock = [le32 g, pub_greeting cP]" for m u
    using comm_net.on_sub_sock_greeting [OF assms(2) that assms(6), of "c1\<lparr>sync_mtx := m\<rparr>"] p [of m] by (auto simp: mail_defs)
  moreover have "finish c1 v1 = Ret 0 c1 v1" using assms(4) by (simp add: finish_def c1_def)
  ultimately show "\<exists>c1 v1. on_sub_sock eS (cS\<lparr>sync_mtx := True\<rparr>) v = Go c1 v1 \<and> finish c1 v1 = Ret 0 c1 v1 \<and>
      outb (viewS v1) Router_sock = outb (viewS v) Router_sock @ [le32 (comm_id cP), COMM_HANDLER_SUB_INIT @ [0]] \<and>
      (\<forall>m u. inb (viewS u) Sub_sock = [le32 g, pub_greeting cP] \<longrightarrow>
         (\<exists>u'. on_sub_sock eS (c1\<lparr>sync_mtx := m\<rparr>) u = Go (c1\<lparr>sync_mtx := m\<rparr>) u' \<and>
            outb (viewS u') Router_sock = outb (viewS u) Router_sock))"
    using v1 by (intro exI [of _ c1] exI [of _ v1]) blast
qed

theorem publication_handshake_witness:
  "\<exists>c1 v1. on_sub_sock (mem_env []) ((comm0 2)\<lparr>sync_mtx := True\<rparr>) (mail0 Sub_sock [le32 7, pub_greeting (comm0 1)]) = Go c1 v1 \<and>
     finish c1 v1 = Ret 0 c1 v1"
proof -
  have "errcode (comm0 1) = 0" "errcode (comm0 2) = 0" "publishermap (comm0 2) (comm_id (comm0 1)) = None" by (simp_all add: comm0_def)
  moreover have "length (pub_greeting (comm0 1)) < 2 ^ 31"
    by (simp add: pub_greeting_def COMM_HANDLER_PUB_INIT_def comm0_def IDE2I_def show_int_def show_nat.simps)
  moreover have "inb (mail0 Sub_sock [le32 7, pub_greeting (comm0 1)]) Sub_sock = [le32 7, pub_greeting (comm0 1)]"
    by (simp add: mail0_def)
  ultimately show ?thesis
    using publication_handshake [OF mem_env_zmq mem_env_net, of "comm0 1" "comm0 2" 7 "[]" "[]" Pair] by fastforce
qed

text \<open>
  C26. A publication from end to end: \<open>publish\<close> hands the data over to the communication thread, which sends it under the group id;
  at a subscriber the handler queues it, and \<open>recv\<close> and \<open>recv_async\<close> return the same bytes and the id of the group. The group id is from 0 to
  \<open>2 ^ 27 - 1\<close>, and the data is not empty and does not start like the greeting of a publisher (\<open>pub_hello\<close>).
\<close>

theorem publication_end_to_end:
  assumes "zmq_net eP viewP" and "zmq_net eS viewS" and "errcode cP = 0" and "errcode cS = 0"
    and "0 \<le> sint g" and "sint g < 2 ^ 27" and "d \<noteq> []" and "length d < 2 ^ 31"
    and "take 9 (d @ beyond eS) \<noteq> COMM_HANDLER_PUB_INIT"
  shows "(\<exists>w1. publish eP True 0 g d cP w = (int (length d), w1) \<and>
      outb (viewP w1) Pub_sendpush = outb (viewP w) Pub_sendpush @ [le32 g, d]) \<and>
    (\<forall>v. inb (viewP v) Pub_sendpull = [le32 g, d] \<longrightarrow>
      (\<exists>v'. on_pub_sendpull eP cP v = Go cP v' \<and> outb (viewP v') Pub_sock = outb (viewP v) Pub_sock @ [le32 g, d])) \<and>
    (\<forall>v. inb (viewS v) Sub_sock = [le32 g, d] \<longrightarrow>
      (\<exists>v'. on_sub_sock eS cS v = Go cS v' \<and> outb (viewS v') Taskq = outb (viewS v) Taskq @ [le32 (IDE2I g), d])) \<and>
    (\<forall>v. inb (viewS v) Taskpull = [le32 (IDE2I g), d] \<longrightarrow>
      (\<exists>v'. comm_recv eS True 0 cid cS v = ((int (length d), g, Some d), v')) \<and>
      (\<exists>v'. comm_recv_async eS True 0 cid cS v = ((int (length d), g, Some d), v')))"
proof (intro conjI allI impI)
  have small: "- (2 ^ 27) \<le> sint g" using assms(5) by simp
  have dec: "IDI2E (IDE2I g) = g" "0 \<le> sint (IDE2I g)"
    using IDI2E_IDE2I [OF small assms(6)] IDE2I_sign [OF small assms(6)] assms(5) by simp_all
  show "\<exists>w1. publish eP True 0 g d cP w = (int (length d), w1) \<and>
      outb (viewP w1) Pub_sendpush = outb (viewP w) Pub_sendpush @ [le32 g, d]"
    using zmq_net.net_send_cid [OF assms(1), of Pub_sendpush g d w] assms(3) by (auto simp: publish_def post_def)
  show "\<exists>v'. on_pub_sendpull eP cP v = Go cP v' \<and> outb (viewP v') Pub_sock = outb (viewP v) Pub_sock @ [le32 g, d]"
    if "inb (viewP v) Pub_sendpull = [le32 g, d]" for v
    by (rule zmq_net.on_pub_sendpull_forwards [OF assms(1) that assms(8,5)])
  show "\<exists>v'. on_sub_sock eS cS v = Go cS v' \<and> outb (viewS v') Taskq = outb (viewS v) Taskq @ [le32 (IDE2I g), d]"
    if "inb (viewS v) Sub_sock = [le32 g, d]" for v
    using zmq_net.on_sub_sock_data [OF assms(2) that assms(8,9), of cS] by (auto simp: mail_defs)
  show "\<exists>v'. comm_recv eS True 0 cid cS v = ((int (length d), g, Some d), v')"
    "\<exists>v'. comm_recv_async eS True 0 cid cS v = ((int (length d), g, Some d), v')"
    if "inb (viewS v) Taskpull = [le32 (IDE2I g), d]" for v
    using zmq_net.recv_taskpull [OF assms(2) that assms(8,4), of cid] dec assms(7) by simp_all
qed

theorem publication_end_to_end_witness:
  "\<exists>v'. comm_recv (mem_env []) True 0 0 (comm0 2) (mail0 Taskpull [le32 (IDE2I 7), [1, 2]]) = ((2, 7, Some [1, 2]), v')"
proof -
  have "errcode (comm0 1) = 0" "errcode (comm0 2) = 0" by (simp_all add: comm0_def)
  moreover have "take 9 ([1, 2] @ beyond (mem_env [])) \<noteq> COMM_HANDLER_PUB_INIT"
    by (simp add: COMM_HANDLER_PUB_INIT_def mem_env_def)
  moreover have "inb (mail0 Taskpull [le32 (IDE2I 7), [1, 2]]) Taskpull = [le32 (IDE2I 7), [1, 2]]" by (simp add: mail0_def)
  ultimately show ?thesis
    using publication_end_to_end [OF mem_env_zmq mem_env_zmq, of "comm0 1" "comm0 2" 7 "[1, 2]" "[]" "[]" "mail0 Msgq []" 0] by fastforce
qed

section \<open>A mutex with two meanings\<close>

text \<open>
  C38. The answer of a subscriber releases whoever waits: while a call of \<open>connect_to\<close> waits for the communication thread,
  the router handler that receives a subscriber's answer unlocks the mutex, so that \<open>connect_to\<close> returns 0 although its request
  is still in the queue, no connection was made and the peer is not a known client.
\<close>

theorem answer_releases_connect:
  assumes "zmq_net e view" and "errcode c = 0" and "\<not> sync_mtx c" and "clientmap c (IDE2I i) = None"
  shows "\<exists>c1 w1. connect_to e True a p i c w = Wait c1 w1 \<and>
    (\<forall>v. inb (view v) Router_sock = [le32 s, COMM_HANDLER_SUB_INIT @ [0]] \<longrightarrow>
      (\<exists>c2 v'. on_router e c1 v = Go c2 v' \<and> finish c2 v' = Ret 0 c2 v' \<and> clientmap c2 (IDE2I i) = None))"
proof -
  obtain w1 where w1: "connect_to e True a p i c w = Wait (c\<lparr>sync_mtx := True\<rparr>) w1"
    using zmq_net.connect_to_waits [OF assms(1-3)] by blast
  have "\<exists>c2 v'. on_router e (c\<lparr>sync_mtx := True\<rparr>) v = Go c2 v' \<and> finish c2 v' = Ret 0 c2 v' \<and> clientmap c2 (IDE2I i) = None"
    if v: "inb (view v) Router_sock = [le32 s, COMM_HANDLER_SUB_INIT @ [0]]" for v
  proof -
    obtain v' where "on_router e (c\<lparr>sync_mtx := True\<rparr>) v = Go (unlock (c\<lparr>sync_mtx := True\<rparr>)) v'"
      using zmq_net.on_router_answer [OF assms(1) v] by blast
    then show ?thesis using assms(2,4) by (auto simp: finish_def)
  qed
  with w1 show ?thesis by blast
qed

theorem answer_releases_connect_witness:
  "\<exists>c1 w1. connect_to (mem_env []) True [49] [50] 2 (comm0 1) (mail0 Msgq []) = Wait c1 w1 \<and>
     (\<exists>c2 v'. on_router (mem_env []) c1 (mail0 Router_sock [le32 9, COMM_HANDLER_SUB_INIT @ [0]]) = Go c2 v' \<and> finish c2 v' = Ret 0 c2 v')"
proof -
  have "inb (mail0 Router_sock [le32 9, COMM_HANDLER_SUB_INIT @ [0]]) Router_sock = [le32 9, COMM_HANDLER_SUB_INIT @ [0]]"
    by (simp add: mail0_def)
  moreover have "errcode (comm0 1) = 0" "\<not> sync_mtx (comm0 1)" "clientmap (comm0 1) (IDE2I 2) = None" by (simp_all add: comm0_def)
  ultimately show ?thesis
    using answer_releases_connect [OF mem_env_zmq, of "comm0 1" 2 "[]" "[49]" "[50]" "mail0 Msgq []" 9] by fastforce
qed

end
