(* ===== verification/Comm_Threads.thy ===== *)
theory Comm_Threads
  imports Comm_Pub
begin

text \<open>
  Several application threads that call \<open>connect_to\<close>, \<open>subscribe_to\<close> and \<open>init_pub\<close> of one ZeroMQ handler at the same time,
  interleaved with the rounds of its communication thread (\<open>src/comm_zmq/src/comm_handler.cpp\<close>). All calls share the mutex
  \<open>sync_mtx\<close>: a caller locks it, sends its request and locks it again; the communication thread unlocks it when it has served
  the request. The lock is not handed over, so the thread that gets it next can be another one that only starts its call.
  A subscription is served in two steps: the request is carried out at once, but the mutex is unlocked only by the
  first greeting of a publisher that was not known before. This theory has the steps, the invariant of the mutex and the requests, and the
  proof that every round of the communication thread keeps it; \<open>Comm_Calls\<close> has the theorems about all interleavings.
\<close>

section \<open>Requests\<close>

text \<open>
  What a call asks for: a connection to a peer with this id and this address, a subscription to the groups of the publisher at this address
  (empty for none), the publishing socket bound to this address. The last one is the part of \<open>init_pub\<close> before its loop.
\<close>

datatype request = Connect cliid_t text_t | Subscribe text_t "cliid_t list" | Bind text_t

fun req_call :: "'w env \<Rightarrow> request \<Rightarrow> comm_handler \<Rightarrow> 'w \<Rightarrow> 'w api" where
  "req_call e (Connect i a) c w = connect_to_request e a i c w"
| "req_call e (Subscribe a gs) c w = subscribe_to_request e a gs c w"
| "req_call e (Bind a) c w = init_pub_bind e a c w"

text \<open>The socket of the callers a request is sent from, the socket of the communication thread it reaches, and its parts.\<close>

fun req_push :: "request \<Rightarrow> zsock" where
  "req_push (Connect i a) = Connpush"
| "req_push (Subscribe a gs) = Subpush"
| "req_push (Bind a) = Pubstart_push"

fun req_pull :: "request \<Rightarrow> zsock" where
  "req_pull (Connect i a) = Conn_sock"
| "req_pull (Subscribe a gs) = Subpull"
| "req_pull (Bind a) = Pubstart_pull"

fun req_parts :: "request \<Rightarrow> byte list list" where
  "req_parts (Connect i a) = [le32 (IDE2I i), a]"
| "req_parts (Subscribe a gs) = [sub_text a gs]"
| "req_parts (Bind a) = [a]"

definition push_socks :: "zsock set" where
  "push_socks = {Connpush, Subpush, Pubstart_push}"

definition pull_socks :: "zsock set" where
  "pull_socks = {Conn_sock, Subpull, Pubstart_pull}"

text \<open>Arguments the texts can carry: without zero bytes, for subscriptions also without ampersand and with at least one group.\<close>

definition addr_ok :: "text_t \<Rightarrow> bool" where
  "addr_ok a \<longleftrightarrow> a \<noteq> [] \<and> 0 \<notin> set a \<and> length a < 2 ^ 31"

fun req_ok :: "request \<Rightarrow> bool" where
  "req_ok (Connect i a) = addr_ok a"
| "req_ok (Subscribe a gs) = (0 \<notin> set a \<and> 38 \<notin> set a \<and> gs \<noteq> [] \<and> length (sub_text a gs) < 2 ^ 31)"
| "req_ok (Bind a) = addr_ok a"

section \<open>Threads\<close>

text \<open>The points of a call: before it, before the first lock, before the second lock, after it, and after its last look at \<open>errcode\<close>.\<close>

datatype call_pc = Outside | Enter request | Waiting request | Woken request | Returned request int

record 'w comm_sys =
  obj :: comm_handler
  world :: 'w
  alive :: bool
  pcs :: "nat \<Rightarrow> call_pc"

text \<open>\<open>init_pub\<close> does not look at \<open>errcode\<close>; whether the thread's socket could be made is \<open>sock_ok\<close>.\<close>

fun call_enter :: "bool \<Rightarrow> request \<Rightarrow> comm_handler \<Rightarrow> call_pc" where
  "call_enter sock_ok (Bind a) c = (if \<not> sock_ok then Returned (Bind a) (-1) else Enter (Bind a))"
| "call_enter sock_ok r c = (if errcode c \<noteq> 0 then Returned r (-1) else if \<not> sock_ok then Returned r (-1) else Enter r)"

fun call_leave :: "request \<Rightarrow> comm_handler \<Rightarrow> call_pc" where
  "call_leave (Bind a) c = Returned (Bind a) 0"
| "call_leave r c = Returned r (if errcode c \<noteq> 0 then -1 else 0)"

abbreviation set_pc :: "nat \<Rightarrow> call_pc \<Rightarrow> 'w comm_sys \<Rightarrow> 'w comm_sys" where
  "set_pc j p s \<equiv> s\<lparr>pcs := (pcs s)(j := p)\<rparr>"

text \<open>These are the parts of the calls.\<close>

lemma connect_to_parts:
  "connect_to e sock_ok destip destport i c w =
     (case call_enter sock_ok (Connect i (tcp_addr destip destport)) c of
        Enter r \<Rightarrow> req_call e r c w | Returned r k \<Rightarrow> Ret k c w | _ \<Rightarrow> Blocked)"
  by (simp add: connect_to_def)

lemma subscribe_to_parts:
  "subscribe_to e sock_ok pubip pubport gs c w =
     (case call_enter sock_ok (Subscribe (sub_addr pubip pubport) gs) c of
        Enter r \<Rightarrow> req_call e r c w | Returned r k \<Rightarrow> Ret k c w | _ \<Rightarrow> Blocked)"
  by (simp add: subscribe_to_def)

lemma init_pub_parts:
  "a \<noteq> [] \<Longrightarrow> p \<noteq> [] \<Longrightarrow> init_pub_request e sock_ok a p c w =
     (case call_enter sock_ok (Bind (tcp_addr a p)) c of
        Enter r \<Rightarrow> req_call e r c w | Returned r k \<Rightarrow> Ret k c w | _ \<Rightarrow> Blocked)"
  by (simp add: init_pub_request_def)

lemma finish_parts:
  "(\<And>a. r \<noteq> Bind a) \<Longrightarrow>
   finish c w = (if sync_mtx c then Blocked else case call_leave r c of Returned _ k \<Rightarrow> Ret k c w | _ \<Rightarrow> Blocked)"
  by (cases r) (auto simp: finish_def)

text \<open>
  What ZeroMQ may do by itself: carry a request from the sockets of the callers to the communication thread, and bring messages
  from the network, from \<open>send\<close>, from \<open>publish\<close>, from \<open>shutdown\<close> and from the monitor. The callers' own sockets of
  one kind are one mailbox, which never holds more than one request. The network delivers publications only from publishers the handler is
  connected to; \<open>pub\<close> is the id of the publisher at an address. The flag \<open>answers\<close> says whether answers of subscribers to publications of this handler
  can come in as well; a handler that has no subscribers gets none.
\<close>

definition carried :: "request \<Rightarrow> mail \<Rightarrow> mail" where
  "carried r m = m\<lparr>inb := (inb m)(req_pull r := inb m (req_pull r) @ outb m (req_push r)), outb := (outb m)(req_push r := [])\<rparr>"

definition published :: "(text_t \<Rightarrow> cliid_t) \<Rightarrow> mail \<Rightarrow> byte list \<Rightarrow> bool" where
  "published pub m d \<longleftrightarrow> take 9 d \<noteq> COMM_HANDLER_PUB_INIT \<or>
     (\<exists>p a. d = pub_greeting p \<and> comm_id p = pub a \<and> (Sub_sock, a) \<in> set (conns m))"

definition msg_ok :: "(text_t \<Rightarrow> cliid_t) \<Rightarrow> mail \<Rightarrow> zsock \<Rightarrow> cliid_t \<times> byte list \<Rightarrow> bool" where
  "msg_ok pub m s x \<longleftrightarrow> length (snd x) < 2 ^ 31 \<and> (s = Router_sock \<longrightarrow> \<not> hello x) \<and> (s = Sub_sock \<longrightarrow> published pub m (snd x))"

definition msg_socks :: "zsock set" where
  "msg_socks = {Router_sock, Msgq, Pub_sendpull, Sub_sock}"

definition incoming :: "(text_t \<Rightarrow> cliid_t) \<Rightarrow> bool \<Rightarrow> mail \<Rightarrow> zsock \<Rightarrow> byte list list \<Rightarrow> bool" where
  "incoming pub answers m s ps \<longleftrightarrow>
     s \<in> msg_socks \<and> (\<exists>i d. ps = [le32 i, d] \<and> msg_ok pub m s (i, d)) \<or>
     answers \<and> s = Router_sock \<and> (\<exists>i d. ps = [le32 i, d] \<and> hello (i, d)) \<or>
     s \<in> {Monitor_sock, Shutdown_sock} \<and> (\<exists>d. ps = [d] \<and> length d < 2 ^ 31)"

definition arrived :: "zsock \<Rightarrow> byte list list \<Rightarrow> mail \<Rightarrow> mail" where
  "arrived s ps m = m\<lparr>inb := (inb m)(s := inb m s @ ps)\<rparr>"

text \<open>What \<open>zmq::poll\<close> without a time limit can answer: an exception, or some of the polled sockets that have something to read.\<close>

definition polled :: "'w env \<Rightarrow> mail \<Rightarrow> (zsock \<Rightarrow> bool) option \<Rightarrow> bool" where
  "polled e m ready \<longleftrightarrow>
     (case ready of None \<Rightarrow> True | Some f \<Rightarrow> (\<exists>z \<in> fst ` set (handlers e). f z) \<and> (\<forall>z. f z \<longrightarrow> inb m z \<noteq> []))"

text \<open>
  The steps of the callers, of the communication thread, and of ZeroMQ between them. A round that does not return (\<open>spin\<close>) leaves the handler without a thread that serves it;
  this is the loop that greets a peer for as long as it cannot be reached.
\<close>

inductive call_step :: "'w env \<Rightarrow> ('w \<Rightarrow> mail) \<Rightarrow> 'w comm_sys \<Rightarrow> 'w comm_sys \<Rightarrow> bool"
  for e :: "'w env" and view :: "'w \<Rightarrow> mail" where
  lock: "pcs s j = Enter r \<Longrightarrow> req_call e r (obj s) (world s) = Wait c w \<Longrightarrow>
     call_step e view s (set_pc j (Waiting r) (s\<lparr>obj := c, world := w\<rparr>))"
| unsent: "pcs s j = Enter r \<Longrightarrow> req_call e r (obj s) (world s) = Ret k c w \<Longrightarrow>
     call_step e view s (set_pc j (Returned r k) (s\<lparr>obj := c, world := w\<rparr>))"
| wake: "pcs s j = Waiting r \<Longrightarrow> \<not> sync_mtx (obj s) \<Longrightarrow> call_step e view s (set_pc j (Woken r) s)"
| leave: "pcs s j = Woken r \<Longrightarrow> call_step e view s (set_pc j (call_leave r (obj s)) s)"
| round: "alive s \<Longrightarrow> polled e (view (world s)) f \<Longrightarrow> handler_round e f (obj s) (world s) = Some (Go c w) \<Longrightarrow>
     call_step e view s (s\<lparr>obj := c, world := w\<rparr>)"
| stop: "alive s \<Longrightarrow> polled e (view (world s)) f \<Longrightarrow> handler_round e f (obj s) (world s) = Some (Stop c w) \<Longrightarrow>
     call_step e view s (s\<lparr>obj := c, world := w, alive := False\<rparr>)"
| spin: "alive s \<Longrightarrow> polled e (view (world s)) f \<Longrightarrow> handler_round e f (obj s) (world s) = None \<Longrightarrow>
     call_step e view s (s\<lparr>alive := False\<rparr>)"
| carry: "outb (view (world s)) (req_push r) \<noteq> [] \<Longrightarrow> view w = carried r (view (world s)) \<Longrightarrow>
     call_step e view s (s\<lparr>world := w\<rparr>)"

text \<open>Beside these, new calls of \<open>n\<close> threads and new messages at any time.\<close>

inductive comm_move :: "'w env \<Rightarrow> ('w \<Rightarrow> mail) \<Rightarrow> (text_t \<Rightarrow> cliid_t) \<Rightarrow> bool \<Rightarrow> nat \<Rightarrow> 'w comm_sys \<Rightarrow> 'w comm_sys \<Rightarrow> bool"
  for e :: "'w env" and view :: "'w \<Rightarrow> mail" and pub :: "text_t \<Rightarrow> cliid_t" and answers :: bool and n :: nat where
  step: "call_step e view s t \<Longrightarrow> comm_move e view pub answers n s t"
| call: "j < n \<Longrightarrow> pcs s j = Outside \<or> pcs s j = Returned r' k \<Longrightarrow> req_ok r \<Longrightarrow>
     comm_move e view pub answers n s (set_pc j (call_enter sock_ok r (obj s)) s)"
| arrive: "incoming pub answers (view (world s)) z ps \<Longrightarrow> view w = arrived z ps (view (world s)) \<Longrightarrow>
     comm_move e view pub answers n s (s\<lparr>world := w\<rparr>)"

text \<open>A handler that is ready, without subscriptions and with nothing to read, and the states after it.\<close>

definition comm_ready :: "('w \<Rightarrow> mail) \<Rightarrow> 'w comm_sys \<Rightarrow> bool" where
  "comm_ready view s \<longleftrightarrow> errcode (obj s) = 0 \<and> \<not> sync_mtx (obj s) \<and> Some False \<notin> range (clientmap (obj s)) \<and>
     inb (view (world s)) = (\<lambda>_. []) \<and> (\<forall>z \<in> push_socks. outb (view (world s)) z = []) \<and>
     (\<forall>a. (Sub_sock, a) \<notin> set (conns (view (world s)))) \<and> alive s \<and> pcs s = (\<lambda>_. Outside)"

definition comm_reach :: "'w env \<Rightarrow> ('w \<Rightarrow> mail) \<Rightarrow> (text_t \<Rightarrow> cliid_t) \<Rightarrow> bool \<Rightarrow> nat \<Rightarrow> 'w comm_sys \<Rightarrow> bool" where
  "comm_reach e view pub answers n s \<longleftrightarrow> (\<exists>s0. comm_ready view s0 \<and> (comm_move e view pub answers n)\<^sup>*\<^sup>* s0 s)"

section \<open>The invariant\<close>

fun completed :: "(text_t \<Rightarrow> cliid_t) \<Rightarrow> comm_handler \<Rightarrow> mail \<Rightarrow> request \<Rightarrow> bool" where
  "completed pub c m (Connect i a) = (clientmap c (IDE2I i) = Some True \<and> (Router_sock, a) \<in> set (conns m))"
| "completed pub c m (Subscribe a gs) =
     ((Sub_sock, a) \<in> set (conns m) \<and> le32 ` set gs \<subseteq> set (subs m) \<and> publishermap c (pub a) \<noteq> None)"
| "completed pub c m (Bind a) = ((Pub_sock, a) \<in> set (binds m))"

text \<open>A thread that has got the mutex a second time, or that waits for it and is not the one whose turn it is, has been served.\<close>

fun served :: "(text_t \<Rightarrow> cliid_t) \<Rightarrow> comm_handler \<Rightarrow> mail \<Rightarrow> call_pc \<Rightarrow> bool" where
  "served pub c m (Enter r) = req_ok r"
| "served pub c m (Waiting r) = completed pub c m r"
| "served pub c m (Woken r) = completed pub c m r"
| "served pub c m (Returned r k) = (k = 0 \<longrightarrow> completed pub c m r)"
| "served pub c m Outside = True"

definition idle :: "mail \<Rightarrow> bool" where
  "idle m \<longleftrightarrow> (\<forall>s \<in> push_socks. outb m s = []) \<and> (\<forall>s \<in> pull_socks. inb m s = [])"

definition on_way :: "mail \<Rightarrow> request \<Rightarrow> bool" where
  "on_way m r \<longleftrightarrow> (\<forall>s \<in> push_socks - {req_push r}. outb m s = []) \<and> (\<forall>s \<in> pull_socks - {req_pull r}. inb m s = []) \<and>
     (inb m (req_pull r) = req_parts r \<and> outb m (req_push r) = [] \<or> inb m (req_pull r) = [] \<and> outb m (req_push r) = req_parts r)"

text \<open>The publishers the handler is connected to have greeted it, except perhaps the one a subscription waits for.\<close>

definition known :: "(text_t \<Rightarrow> cliid_t) \<Rightarrow> comm_handler \<Rightarrow> mail \<Rightarrow> cliid_t set \<Rightarrow> bool" where
  "known pub c m is \<longleftrightarrow> (\<forall>b. (Sub_sock, b) \<in> set (conns m) \<longrightarrow> publishermap c (pub b) \<noteq> None \<or> pub b \<in> is)"

definition awaited :: "(text_t \<Rightarrow> cliid_t) \<Rightarrow> text_t \<Rightarrow> cliid_t set" where
  "awaited pub a = (if a = [] then {} else {pub a})"

fun made :: "(text_t \<Rightarrow> cliid_t) \<Rightarrow> comm_handler \<Rightarrow> mail \<Rightarrow> request \<Rightarrow> bool" where
  "made pub c m (Subscribe a gs) = (idle m \<and> (a \<noteq> [] \<longrightarrow> (Sub_sock, a) \<in> set (conns m)) \<and> le32 ` set gs \<subseteq> set (subs m) \<and>
     known pub c m (awaited pub a))"
| "made pub c m r = False"

text \<open>
  The mutex is free and no request is under way, or it is held for thread \<open>j\<close>, whose request is the only one under way or is a
  subscription that was made.
\<close>

fun turns :: "(text_t \<Rightarrow> cliid_t) \<Rightarrow> (nat \<Rightarrow> call_pc) \<Rightarrow> nat option \<Rightarrow> comm_handler \<Rightarrow> mail \<Rightarrow> bool" where
  "turns pub ps None c m = (\<not> sync_mtx c \<and> idle m \<and> known pub c m {} \<and> (\<forall>j. served pub c m (ps j)))"
| "turns pub ps (Some j) c m = (sync_mtx c \<and> (\<forall>k. k \<noteq> j \<longrightarrow> served pub c m (ps k)) \<and>
     (\<exists>r. ps j = Waiting r \<and> req_ok r \<and> (on_way m r \<and> known pub c m {} \<or> made pub c m r)))"

definition inboxes :: "(text_t \<Rightarrow> cliid_t) \<Rightarrow> mail \<Rightarrow> bool" where
  "inboxes pub m \<longleftrightarrow> (\<forall>s \<in> msg_socks. \<exists>ms. inb m s = wire ms \<and> (\<forall>x \<in> set ms. msg_ok pub m s x)) \<and>
     (\<forall>d \<in> set (inb m Monitor_sock). length d < 2 ^ 31)"

definition comm_ok :: "(text_t \<Rightarrow> cliid_t) \<Rightarrow> (nat \<Rightarrow> call_pc) \<Rightarrow> nat option \<Rightarrow> comm_handler \<Rightarrow> mail \<Rightarrow> bool" where
  "comm_ok pub ps h c m \<longleftrightarrow> turns pub ps h c m \<and> inboxes pub m \<and> Some False \<notin> range (clientmap c)"

definition comm_inv :: "('w \<Rightarrow> mail) \<Rightarrow> (text_t \<Rightarrow> cliid_t) \<Rightarrow> nat option \<Rightarrow> 'w comm_sys \<Rightarrow> bool" where
  "comm_inv view pub h s \<longleftrightarrow> (alive s \<longrightarrow> errcode (obj s) = 0) \<and> comm_ok pub (pcs s) h (obj s) (view (world s))"

text \<open>The turn of a subscription that adds no publisher does not end.\<close>

definition stuck :: "(text_t \<Rightarrow> cliid_t) \<Rightarrow> (nat \<Rightarrow> call_pc) \<Rightarrow> nat option \<Rightarrow> comm_handler \<Rightarrow> bool" where
  "stuck pub ps h c \<longleftrightarrow> (\<exists>j a gs. h = Some j \<and> ps j = Waiting (Subscribe a gs) \<and> (a = [] \<or> publishermap c (pub a) \<noteq> None))"

lemmas sock_defs = push_socks_def pull_socks_def

section \<open>What a round does\<close>

text \<open>Nothing that was reached is forgotten; and beside that the mutex, the requests and the publishers are left alone.\<close>

definition grows :: "comm_handler \<Rightarrow> mail \<Rightarrow> comm_handler \<Rightarrow> mail \<Rightarrow> bool" where
  "grows c m c' m' \<longleftrightarrow> (\<forall>i. clientmap c i = Some True \<longrightarrow> clientmap c' i = Some True) \<and>
     (\<forall>i. publishermap c i \<noteq> None \<longrightarrow> publishermap c' i \<noteq> None) \<and>
     set (conns m) \<subseteq> set (conns m') \<and> set (binds m) \<subseteq> set (binds m') \<and> set (subs m) \<subseteq> set (subs m')"

definition mild :: "comm_handler \<Rightarrow> mail \<Rightarrow> comm_handler \<Rightarrow> mail \<Rightarrow> bool" where
  "mild c m c' m' \<longleftrightarrow> grows c m c' m' \<and> sync_mtx c' = sync_mtx c \<and> conns m' = conns m \<and>
     (\<forall>s \<in> push_socks. outb m' s = outb m s) \<and> (\<forall>s \<in> pull_socks. inb m' s = inb m s)"

lemma grows_refl [simp]: "grows c m c m"
  by (simp add: grows_def)

lemma grows_trans: "grows c m c' m' \<Longrightarrow> grows c' m' c'' m'' \<Longrightarrow> grows c m c'' m''"
  unfolding grows_def by blast

lemma completed_mono: "completed pub c m r \<Longrightarrow> grows c m c' m' \<Longrightarrow> completed pub c' m' r"
  by (cases r) (auto simp: grows_def)

lemma served_mono: "served pub c m p \<Longrightarrow> grows c m c' m' \<Longrightarrow> served pub c' m' p"
  by (cases p) (auto intro: completed_mono)

lemma stuck_mono: "stuck pub ps h c \<Longrightarrow> grows c m c' m' \<Longrightarrow> stuck pub ps h c'"
  unfolding stuck_def grows_def by blast

lemma known_mild: "known pub c m is \<Longrightarrow> mild c m c' m' \<Longrightarrow> known pub c' m' is"
  unfolding known_def mild_def grows_def by metis

lemma req_sock [simp]: "req_push r \<in> push_socks" "req_pull r \<in> pull_socks"
  by (cases r; simp add: sock_defs)+

lemma idle_mild: "mild c m c' m' \<Longrightarrow> idle m' = idle m"
  by (simp add: idle_def mild_def)

lemma on_way_mild: "mild c m c' m' \<Longrightarrow> on_way m' r = on_way m r"
  by (simp add: on_way_def mild_def)

lemma made_mild: "made pub c m r \<Longrightarrow> mild c m c' m' \<Longrightarrow> made pub c' m' r"
  using idle_mild [of c m c' m'] known_mild [of pub c m _ c' m']
  by (cases r) (auto simp: mild_def grows_def)

lemma mild_turns:
  assumes "mild c m c' m'" "turns pub ps h c m"
  shows "turns pub ps h c' m'"
proof -
  have g: "grows c m c' m'" "sync_mtx c' = sync_mtx c" using assms(1) by (simp_all add: mild_def)
  show ?thesis
  proof (cases h)
    case None
    with assms g served_mono [OF _ g(1)] known_mild [OF _ assms(1)] idle_mild [OF assms(1)] show ?thesis by auto
  next
    case (Some j)
    with assms g served_mono [OF _ g(1)] known_mild [OF _ assms(1)] on_way_mild [OF assms(1)] made_mild [OF _ assms(1)]
    show ?thesis by auto
  qed
qed

lemma msg_ok_mono: "msg_ok pub m s x \<Longrightarrow> set (conns m) \<subseteq> set (conns m') \<Longrightarrow> msg_ok pub m' s x"
  unfolding msg_ok_def published_def by blast

lemma inboxesI:
  assumes "\<And>s. s \<in> msg_socks \<Longrightarrow> inb m' s = inb m s \<or> (\<exists>ms. inb m' s = wire ms \<and> (\<forall>x \<in> set ms. msg_ok pub m' s x))"
    and "set (inb m' Monitor_sock) \<subseteq> set (inb m Monitor_sock)" "set (conns m) \<subseteq> set (conns m')" "inboxes pub m"
  shows "inboxes pub m'"
  unfolding inboxes_def
proof (intro conjI ballI)
  fix s assume s: "s \<in> msg_socks"
  from assms(4) s obtain ms where "inb m s = wire ms" "\<forall>x \<in> set ms. msg_ok pub m s x" unfolding inboxes_def by blast
  then show "\<exists>ms. inb m' s = wire ms \<and> (\<forall>x \<in> set ms. msg_ok pub m' s x)"
    using assms(1) [OF s] msg_ok_mono [OF _ assms(3)] by metis
qed (use assms(2,4) in \<open>auto simp: inboxes_def\<close>)

lemma inboxes_same: "inboxes pub m \<Longrightarrow> inb m' = inb m \<Longrightarrow> set (conns m) \<subseteq> set (conns m') \<Longrightarrow> inboxes pub m'"
  by (rule inboxesI) auto

lemma inboxes_rest:
  assumes "inboxes pub m" "set ps \<subseteq> set (inb m s)" "s \<notin> msg_socks"
  shows "inboxes pub (rest s ps m)"
  using assms by (intro inboxesI [OF _ _ _ assms(1)]) (auto simp: rest_def)

lemma inboxes_wire:
  assumes "inboxes pub m" "inb m s \<noteq> []" "s \<in> msg_socks"
  obtains i d ps where "inb m s = le32 i # d # ps" "msg_ok pub m s (i, d)" "inboxes pub (rest s ps m)"
proof -
  from assms(1,3) obtain ms where ms: "inb m s = wire ms" "\<forall>x \<in> set ms. msg_ok pub m s x" unfolding inboxes_def by blast
  with assms(2) obtain i d ms' where m: "ms = (i, d) # ms'" by (cases ms) auto
  have "\<forall>x \<in> set ms'. msg_ok pub (rest s (wire ms') m) s x" using ms(2) m by (auto simp: rest_def intro: msg_ok_mono)
  then have "inboxes pub (rest s (wire ms') m)"
    using assms(3) by (intro inboxesI [OF _ _ _ assms(1)]) (auto simp: rest_def msg_socks_def)
  with ms m that [of i d "wire ms'"] show ?thesis by simp
qed

text \<open>What every handler does: the turn goes on or ends, and of the polled sockets exactly those in \<open>zs\<close> are read.\<close>

definition kept :: "(text_t \<Rightarrow> cliid_t) \<Rightarrow> (nat \<Rightarrow> call_pc) \<Rightarrow> nat option \<Rightarrow> comm_handler \<Rightarrow> comm_handler \<Rightarrow> mail \<Rightarrow> bool" where
  "kept pub ps h c c' m' \<longleftrightarrow> (\<exists>h'. comm_ok pub ps h' c' m' \<and> (h' = h \<or> h' = None \<and> \<not> stuck pub ps h c))"

definition reads :: "zsock set \<Rightarrow> mail \<Rightarrow> mail \<Rightarrow> bool" where
  "reads zs m m' \<longleftrightarrow> (\<forall>s \<in> push_socks. outb m' s = outb m s) \<and>
     (\<forall>u. if u \<in> zs then length (inb m' u) < length (inb m u) else inb m' u = inb m u)"

definition good :: "('w \<Rightarrow> mail) \<Rightarrow> (text_t \<Rightarrow> cliid_t) \<Rightarrow> (nat \<Rightarrow> call_pc) \<Rightarrow> nat option \<Rightarrow> zsock set \<Rightarrow>
    comm_handler \<Rightarrow> 'w \<Rightarrow> 'w turn \<Rightarrow> bool" where
  "good view pub ps h zs c w t \<longleftrightarrow>
     (case t of
        Go c' w' \<Rightarrow> kept pub ps h c c' (view w') \<and> grows c (view w) c' (view w') \<and> reads zs (view w) (view w')
      | Stop c' w' \<Rightarrow> kept pub ps h c c' (view w') \<and> grows c (view w) c' (view w')
      | Crash _ \<Rightarrow> True)"

lemma reads_trans:
  assumes "reads {s} m m1" "reads zs m1 m2" "s \<notin> zs"
  shows "reads (insert s zs) m m2"
proof -
  have "if u \<in> insert s zs then length (inb m2 u) < length (inb m u) else inb m2 u = inb m u" for u
    using assms unfolding reads_def by (cases "u = s") (metis insert_iff singletonD)+
  then show ?thesis using assms(1,2) unfolding reads_def by simp
qed

lemma mild_kept:
  assumes "comm_ok pub ps h c m" "mild c m c' m'" "inboxes pub m'" "Some False \<notin> range (clientmap c')"
  shows "kept pub ps h c c' m'"
  using assms mild_turns unfolding kept_def comm_ok_def by blast

lemma good_mild:
  assumes "comm_ok pub ps h c (view w)" "mild c (view w) c' (view w')" "inboxes pub (view w')" "Some False \<notin> range (clientmap c')"
    and "reads zs (view w) (view w')"
  shows "good view pub ps h zs c w (Go c' w')"
  using assms mild_kept by (simp add: good_def mild_def)

lemma good_fail:
  assumes "comm_ok pub ps h c (view w)" "mild c (view w) c (view w')" "inboxes pub (view w')"
  shows "good view pub ps h zs c w (Stop (failed c) w')"
proof -
  have "mild c (view w) (failed c) (view w')" using assms(2) by (simp add: mild_def grows_def)
  moreover have "Some False \<notin> range (clientmap (failed c))" using assms(1) by (simp add: comm_ok_def)
  ultimately show ?thesis using mild_kept [OF assms(1) _ assms(3)] by (simp add: good_def mild_def)
qed

lemma kept_after:
  assumes "kept pub ps h c c1 m1" "grows c m c1 m1" "\<And>h1. comm_ok pub ps h1 c1 m1 \<Longrightarrow> kept pub ps h1 c1 c2 m2"
  shows "kept pub ps h c c2 m2"
  using assms stuck_mono [OF _ assms(2)] unfolding kept_def by (metis)

lemma good_after:
  assumes g: "good view pub ps h {s} c w (Go c1 w1)" and s: "s \<notin> zs"
    and t: "\<And>h1. comm_ok pub ps h1 c1 (view w1) \<Longrightarrow> good view pub ps h1 zs c1 w1 t"
  shows "good view pub ps h (insert s zs) c w t"
proof -
  have g1: "kept pub ps h c c1 (view w1)" "grows c (view w) c1 (view w1)" "reads {s} (view w) (view w1)"
    using g by (simp_all add: good_def)
  then obtain h1 where h1: "comm_ok pub ps h1 c1 (view w1)" unfolding kept_def by blast
  have k: "kept pub ps h c c2 (view w2)" if "\<And>h1. comm_ok pub ps h1 c1 (view w1) \<Longrightarrow> kept pub ps h1 c1 c2 (view w2)" for c2 w2
    by (rule kept_after [OF g1(1,2)]) (rule that)
  show ?thesis
  proof (cases t)
    case (Go c2 w2)
    then have "kept pub ps h c c2 (view w2)" using k t by (simp add: good_def)
    moreover have "grows c (view w) c2 (view w2)" "reads (insert s zs) (view w) (view w2)"
      using t [OF h1] Go grows_trans [OF g1(2)] reads_trans [OF g1(3) _ s] by (simp_all add: good_def)
    ultimately show ?thesis by (simp add: good_def Go)
  next
    case (Stop c2 w2)
    then have "kept pub ps h c c2 (view w2)" using k t by (simp add: good_def)
    moreover have "grows c (view w) c2 (view w2)" using t [OF h1] Stop grows_trans [OF g1(2)] by (simp add: good_def)
    ultimately show ?thesis by (simp add: good_def Stop)
  qed (simp add: good_def)
qed

lemma comm_okD:
  assumes "comm_ok pub ps h c m"
  shows "turns pub ps h c m" "inboxes pub m" "Some False \<notin> range (clientmap c)"
  using assms by (simp_all add: comm_ok_def)

context zmq_net
begin

lemma relay:
  assumes ok: "comm_ok pub ps h c (view w)" and ne: "inb (view w) s \<noteq> []" and s: "s \<in> {Msgq, Pub_sendpull}"
  obtains i d w1 where "recv_msg_cid (zz e) s w = ((int (length d), Some i, Some d), w1)"
    "\<And>t xs w2. t \<notin> push_socks \<Longrightarrow> view w2 = post t xs (view w1) \<Longrightarrow> good view pub ps h {s} c w (Go c w2)"
    "good view pub ps h {s} c w (Stop (failed c) w1)"
proof -
  have s': "s \<in> msg_socks" "s \<notin> pull_socks" using s by (auto simp: msg_socks_def sock_defs)
  from inboxes_wire [OF comm_okD(2) [OF ok] ne s'(1)] obtain i d qs where
    d: "inb (view w) s = le32 i # d # qs" "length d < 2 ^ 31" "inboxes pub (rest s qs (view w))" by (metis msg_ok_def snd_conv)
  obtain w1 where w1: "recv_msg_cid (zz e) s w = ((int (length d), Some i, Some d), w1)" "view w1 = rest s qs (view w)"
    using net_recv_cid [OF d(1,2)] by auto
  have "good view pub ps h {s} c w (Go c w2)" if "t \<notin> push_socks" "view w2 = post t xs (view w1)" for t xs w2
  proof -
    have "inboxes pub (view w2)" using d(3) by (rule inboxes_same) (simp_all add: w1 that mail_defs)
    then show ?thesis using comm_okD(3) [OF ok] d(1) s' that
      by (intro good_mild [where view = view, OF ok]) (auto simp: w1 mild_def grows_def mail_defs reads_def)
  qed
  moreover have "good view pub ps h {s} c w (Stop (failed c) w1)"
    using d(3) s' by (intro good_fail [where view = view, OF ok]) (auto simp: w1(2) mild_def grows_def rest_def)
  ultimately show ?thesis using w1(1) that by blast
qed

lemma on_msgq_good:
  assumes "comm_ok pub ps h c (view w)" and "inb (view w) Msgq \<noteq> []"
  shows "good view pub ps h {Msgq} c w (on_msgq e c w)"
proof -
  obtain i d w1 where r: "recv_msg_cid (zz e) Msgq w = ((int (length d), Some i, Some d), w1)"
    "\<And>xs w2. view w2 = post Router_sock xs (view w1) \<Longrightarrow> good view pub ps h {Msgq} c w (Go c w2)"
    by (rule relay [OF assms]) (auto simp: sock_defs)
  obtain ret xs w2 where "send_msg_cid (zz e) Router_sock i d w1 = (ret, w2)" "view w2 = post Router_sock xs (view w1)"
    using net_route_cid by blast
  with r show ?thesis by (simp add: on_msgq_def bytes_def)
qed

lemma on_pub_sendpull_good:
  assumes "comm_ok pub ps h c (view w)" and "inb (view w) Pub_sendpull \<noteq> []"
  shows "good view pub ps h {Pub_sendpull} c w (on_pub_sendpull e c w)"
proof -
  obtain i d w1 where r: "recv_msg_cid (zz e) Pub_sendpull w = ((int (length d), Some i, Some d), w1)"
    "\<And>xs w2. view w2 = post Pub_sock xs (view w1) \<Longrightarrow> good view pub ps h {Pub_sendpull} c w (Go c w2)"
    "good view pub ps h {Pub_sendpull} c w (Stop (failed c) w1)"
    by (rule relay [OF assms]) (auto simp: sock_defs)
  obtain w2 where "send_msg_cid (zz e) Pub_sock i d w1 = (int (length d), w2)" "view w2 = post Pub_sock [le32 i, d] (view w1)"
    using net_send_cid [of Pub_sock i d w1] by auto
  with r show ?thesis by (simp add: on_pub_sendpull_def bytes_def)
qed

lemma on_router_good:
  assumes ok: "comm_ok pub ps h c (view w)" and ne: "inb (view w) Router_sock \<noteq> []"
  shows "good view pub ps h {Router_sock} c w (on_router e c w)"
proof -
  note ib = comm_okD(2) [OF ok] and tr = comm_okD(3) [OF ok]
  have "Router_sock \<in> msg_socks" by (simp add: msg_socks_def)
  from inboxes_wire [OF ib ne this] obtain i d qs where
    d: "inb (view w) Router_sock = le32 i # d # qs" "length d < 2 ^ 31" "\<not> hello (i, d)" "inboxes pub (rest Router_sock qs (view w))"
    by (metis msg_ok_def snd_conv)
  let ?c = "if clientmap c i = None then c\<lparr>clientmap := (clientmap c)(i \<mapsto> True), clientq := clientq c @ [IDI2E i]\<rparr> else c"
  from on_router_one [OF d(1,2) tr] d(3) obtain w' where r: "on_router e c w = Go ?c w'"
    "view w' = (if clientmap c i = None then rest Router_sock qs (view w)
      else post Taskq [le32 i, d] (rest Router_sock qs (view w)))" by auto
  have "inboxes pub (view w')" using d(4) by (rule inboxes_same) (simp_all add: r(2) mail_defs)
  moreover have "mild c (view w) ?c (view w')" by (simp add: r(2) mild_def grows_def mail_defs sock_defs)
  moreover have "Some False \<notin> range (clientmap ?c)" using tr by (auto simp: image_iff)
  moreover have "reads {Router_sock} (view w) (view w')" using d(1) by (simp add: r(2) reads_def mail_defs sock_defs)
  ultimately show ?thesis unfolding r(1) using ok by (intro good_mild)
qed

lemma on_monitor_good:
  assumes ok: "comm_ok pub ps h c (view w)" and ne: "inb (view w) Monitor_sock \<noteq> []"
  shows "good view pub ps h {Monitor_sock} c w (on_monitor e c w)"
proof -
  note ib = comm_okD(2) [OF ok]
  obtain d qs where d: "inb (view w) Monitor_sock = d # qs" using ne by (cases "inb (view w) Monitor_sock") auto
  then have "length d < 2 ^ 31" using ib by (simp add: inboxes_def)
  from net_recv_msg [OF d this] obtain w' where w': "recv_msg (zz e) Monitor_sock w = ((int (length d), Some d), w')"
    "view w' = rest Monitor_sock qs (view w)" by auto
  have i: "inboxes pub (view w')"
    unfolding w'(2) by (rule inboxes_rest [OF ib]) (auto simp: d msg_socks_def)
  have m: "mild c (view w) c (view w')" by (simp add: w'(2) mild_def grows_def rest_def sock_defs)
  have "good view pub ps h {Monitor_sock} c w (Go c w')"
    by (rule good_mild [where view = view, OF ok m i comm_okD(3) [OF ok]]) (auto simp: w'(2) d reads_def rest_def)
  moreover have "good view pub ps h {Monitor_sock} c w (Stop (failed c) w')"
    by (rule good_fail [where view = view, OF ok m i])
  moreover have "good view pub ps h {Monitor_sock} c w (Crash Abort)" by (simp add: good_def)
  ultimately show ?thesis using w'(1) by (simp add: on_monitor_def split: zevent.split)
qed

end

text \<open>The handlers of requests.\<close>

lemma request_here:
  assumes ok: "comm_ok pub ps h c m" and ne: "inb m s \<noteq> []" and s: "s \<in> pull_socks"
  obtains j r where "h = Some j" "ps j = Waiting r" "req_ok r" "req_pull r = s" "inb m s = req_parts r" "known pub c m {}"
    "idle (rest s [] m)" "sync_mtx c"
proof -
  have "\<not> idle m" using ne s by (auto simp: idle_def)
  then obtain j where j: "h = Some j" using comm_okD(1) [OF ok] by (cases h) auto
  with comm_okD(1) [OF ok] obtain r where r: "ps j = Waiting r" "req_ok r" "on_way m r \<and> known pub c m {} \<or> made pub c m r" "sync_mtx c"
    by auto
  have "\<not> made pub c m r" using \<open>\<not> idle m\<close> by (cases r) auto
  with r have w: "on_way m r" "known pub c m {}" by auto
  have p: "req_pull r = s" using w(1) ne s unfolding on_way_def by auto
  then have i: "inb m s = req_parts r" "outb m (req_push r) = []" using w(1) ne unfolding on_way_def by auto
  have "idle (rest s [] m)" using w(1) i(2) p unfolding on_way_def idle_def rest_def by auto
  then show ?thesis using that [OF j r(1,2) p i(1) w(2) _ r(4)] by blast
qed

lemma idle_cong: "idle m \<Longrightarrow> \<forall>s \<in> push_socks. outb m' s = outb m s \<Longrightarrow> \<forall>s \<in> pull_socks. inb m' s = inb m s \<Longrightarrow> idle m'"
  by (simp add: idle_def)

lemma kept_released:
  assumes ok: "comm_ok pub ps (Some j) c m" and j: "ps j = Waiting r" and g: "grows c m c' m'" and d: "completed pub c' m' r"
    and "\<not> sync_mtx c'" "idle m'" "known pub c' m' {}" "inboxes pub m'" "Some False \<notin> range (clientmap c')" "\<not> stuck pub ps (Some j) c"
  shows "kept pub ps (Some j) c c' m'"
proof -
  have "served pub c' m' (ps k)" for k
    using comm_okD(1) [OF ok] j d served_mono [OF _ g] by (cases "k = j") auto
  with assms(5-9) have "comm_ok pub ps None c' m'" by (simp add: comm_ok_def)
  with assms(10) show ?thesis unfolding kept_def by blast
qed

lemma known_conns:
  assumes "known pub c m is" "\<And>b. (Sub_sock, b) \<in> set (conns m') \<Longrightarrow> (Sub_sock, b) \<in> set (conns m) \<or> pub b \<in> is'"
    and "\<And>i. publishermap c i \<noteq> None \<Longrightarrow> publishermap c' i \<noteq> None" "\<And>i. i \<in> is \<Longrightarrow> i \<in> is' \<or> publishermap c' i \<noteq> None"
  shows "known pub c' m' is'"
  using assms unfolding known_def by blast

context zmq_net
begin

lemma on_conn_good:
  assumes ok: "comm_ok pub ps h c (view w)" and ne: "inb (view w) Conn_sock \<noteq> []" and b: "beyond e = 0 # b"
    and t: "on_conn e c w = Some t"
  shows "(\<exists>c' w'. t = Go c' w') \<and> good view pub ps h {Conn_sock} c w t"
proof -
  have "Conn_sock \<in> pull_socks" by (simp add: sock_defs)
  from request_here [OF ok ne this] obtain j r where j: "h = Some j" "ps j = Waiting r" "req_ok r" "req_pull r = Conn_sock"
    "inb (view w) Conn_sock = req_parts r" "known pub c (view w) {}" "idle (rest Conn_sock [] (view w))" .
  then obtain i a where r: "r = Connect i a" by (cases r) auto
  with j have a: "inb (view w) Conn_sock = [le32 (IDE2I i), a]" "length a < 2 ^ 31" "0 \<notin> set a" by (auto simp: addr_ok_def)
  let ?c = "unlock (c\<lparr>clientmap := (clientmap c)(IDE2I i \<mapsto> True)\<rparr>)"
  from on_conn_served [OF a b t] obtain xs w' where w': "t = Go ?c w'"
    "view w' = post Router_sock xs
      ((rest Conn_sock [] (view w))\<lparr>conns := conns (view w) @ [(Router_sock, a)]\<rparr>)" by auto
  have g: "grows c (view w) ?c (view w')" by (auto simp: grows_def w'(2) mail_defs)
  have "inboxes pub (rest Conn_sock [] (view w))" by (rule inboxes_rest [OF comm_okD(2) [OF ok]]) (simp_all add: msg_socks_def)
  then have "inboxes pub (view w')" by (rule inboxes_same) (auto simp: w'(2) mail_defs)
  moreover have "idle (view w')" using j(7) by (rule idle_cong) (simp_all add: w'(2) mail_defs sock_defs)
  moreover have "known pub ?c (view w') {}" using j(6) by (rule known_conns) (auto simp: w'(2) mail_defs)
  moreover have "Some False \<notin> range (clientmap ?c)" using comm_okD(3) [OF ok] by (auto simp: image_iff)
  ultimately have "kept pub ps h c ?c (view w')" unfolding j(1)
    by (intro kept_released [OF ok [unfolded j(1)] j(2) g]) (simp_all add: r w'(2) mail_defs stuck_def j(2))
  with g a(1) have "good view pub ps h {Conn_sock} c w (Go ?c w')" by (auto simp: good_def reads_def w'(2) mail_defs sock_defs)
  with w'(1) show ?thesis by blast
qed

lemma on_pubstart_good:
  assumes ok: "comm_ok pub ps h c (view w)" and ne: "inb (view w) Pubstart_pull \<noteq> []" and b: "beyond e = 0 # b"
  shows "\<exists>c' w'. on_pubstart e c w = Go c' w' \<and> good view pub ps h {Pubstart_pull} c w (Go c' w')"
proof -
  have "Pubstart_pull \<in> pull_socks" by (simp add: sock_defs)
  from request_here [OF ok ne this] obtain j r where j: "h = Some j" "ps j = Waiting r" "req_ok r" "req_pull r = Pubstart_pull"
    "inb (view w) Pubstart_pull = req_parts r" "known pub c (view w) {}" "idle (rest Pubstart_pull [] (view w))" .
  then obtain a where r: "r = Bind a" by (cases r) auto
  with j have a: "inb (view w) Pubstart_pull = [a]" "length a < 2 ^ 31" "0 \<notin> set a" by (auto simp: addr_ok_def)
  obtain w1 where w1: "recv_msg (zz e) Pubstart_pull w = ((int (length a), Some a), w1)" "view w1 = rest Pubstart_pull [] (view w)"
    using net_recv_msg [OF a(1,2)] by auto
  obtain w' where w': "zbind (zz e) Pub_sock a w1 = (True, w')" "view w' = (view w1)\<lparr>binds := binds (view w1) @ [(Pub_sock, a)]\<rparr>"
    using net_bind by blast
  have "c_string e (Some a) = Some a" using while_until(1) [OF a(3)] b by (simp add: c_string_def)
  with w1 w' have res: "on_pubstart e c w = Go (unlock c) w'" by (simp add: on_pubstart_def)
  have g: "grows c (view w) (unlock c) (view w')" by (auto simp: grows_def w1(2) w'(2) mail_defs)
  have "inboxes pub (view w1)" unfolding w1(2) by (rule inboxes_rest [OF comm_okD(2) [OF ok]]) (simp_all add: msg_socks_def)
  then have "inboxes pub (view w')" by (rule inboxes_same) (auto simp: w'(2))
  moreover have "idle (view w')" using j(7) by (rule idle_cong) (simp_all add: w1(2) w'(2))
  moreover have "known pub (unlock c) (view w') {}" using j(6) by (rule known_conns) (auto simp: w1(2) w'(2) mail_defs)
  ultimately have "kept pub ps h c (unlock c) (view w')" unfolding j(1) using comm_okD(3) [OF ok]
    by (intro kept_released [OF ok [unfolded j(1)] j(2) g]) (simp_all add: r w'(2) stuck_def j(2))
  with g a(1) have "good view pub ps h {Pubstart_pull} c w (Go (unlock c) w')"
    by (auto simp: good_def reads_def w1(2) w'(2) mail_defs)
  with res show ?thesis by blast
qed

lemma on_subpull_good:
  assumes ok: "comm_ok pub ps h c (view w)" and ne: "inb (view w) Subpull \<noteq> []" and b: "beyond e = 0 # b"
  shows "\<exists>c' w'. on_subpull e c w = Some (Go c' w') \<and> good view pub ps h {Subpull} c w (Go c' w')"
proof -
  have "Subpull \<in> pull_socks" by (simp add: sock_defs)
  from request_here [OF ok ne this] obtain j r where j: "h = Some j" "ps j = Waiting r" "req_ok r" "req_pull r = Subpull"
    "inb (view w) Subpull = req_parts r" "known pub c (view w) {}" "idle (rest Subpull [] (view w))" "sync_mtx c" .
  then obtain a gs where r: "r = Subscribe a gs" by (cases r) auto
  with j have a: "inb (view w) Subpull = [sub_text a gs]" "length (sub_text a gs) < 2 ^ 31" "0 \<notin> set a" "38 \<notin> set a" "gs \<noteq> []" by auto
  have "c_string e (Some (sub_text a gs)) = Some (sub_text a gs)"
    using while_until(1) [OF sub_text_no_zero [OF a(3), of gs]] b by (simp add: c_string_def)
  from on_subpull_text [OF a(1,2) this a(4,5), of c] obtain w' where w': "on_subpull e c w = Some (Go c w')"
    "view w' = (rest Subpull [] (view w))\<lparr>subs := subs (view w) @ map le32 gs,
      conns := conns (view w) @ (if a = [] then [] else [(Sub_sock, a)])\<rparr>" by blast
  have g: "grows c (view w) c (view w')" by (auto simp: grows_def w'(2) mail_defs)
  have "inboxes pub (rest Subpull [] (view w))" by (rule inboxes_rest [OF comm_okD(2) [OF ok]]) (simp_all add: msg_socks_def)
  then have "inboxes pub (view w')" by (rule inboxes_same) (auto simp: w'(2) mail_defs)
  moreover have "idle (view w')" using j(7) by (rule idle_cong) (simp_all add: w'(2) mail_defs sock_defs)
  moreover have "known pub c (view w') (awaited pub a)" using j(6)
    by (rule known_conns) (auto simp: w'(2) mail_defs awaited_def split: if_splits)
  ultimately have "comm_ok pub ps h c (view w')"
    using comm_okD [OF ok] served_mono [OF _ g] j(1,2,3,8) by (auto simp: comm_ok_def r w'(2))
  then have "kept pub ps h c c (view w')" unfolding kept_def by blast
  with g a(1) have "good view pub ps h {Subpull} c w (Go c w')" by (auto simp: good_def reads_def w'(2) mail_defs)
  with w'(1) show ?thesis by blast
qed

end

text \<open>Messages from publishers.\<close>

lemma no_greeting:
  assumes "take 9 d \<noteq> COMM_HANDLER_PUB_INIT"
  shows "take 9 (d @ 0 # b) \<noteq> COMM_HANDLER_PUB_INIT"
proof
  assume t: "take 9 (d @ 0 # b) = COMM_HANDLER_PUB_INIT"
  have "length d < 9" using t assms by (cases "length d < 9") auto
  then have "take 9 (d @ 0 # b) ! length d = 0" by (simp add: nth_append del: take_append)
  moreover have "length d < length (take 9 (d @ 0 # b))" using \<open>length d < 9\<close> by simp
  ultimately have "0 \<in> set COMM_HANDLER_PUB_INIT" using t by (metis nth_mem)
  then show False by (simp add: COMM_HANDLER_PUB_INIT_def)
qed

lemma new_publisher:
  assumes ok: "comm_ok pub ps h c m" and n: "(Sub_sock, b) \<in> set (conns m)" "publishermap c (pub b) = None"
  obtains j a gs where "h = Some j" "ps j = Waiting (Subscribe a gs)" "made pub c m (Subscribe a gs)" "a \<noteq> []" "pub a = pub b"
proof -
  have "\<not> known pub c m {}" using n by (auto simp: known_def)
  then obtain j r where j: "h = Some j" "ps j = Waiting r" "made pub c m r" using comm_okD(1) [OF ok] by (cases h) auto
  then obtain a gs where r: "r = Subscribe a gs" by (cases r) auto
  with j(3) n have "pub b \<in> awaited pub a" by (auto simp: known_def)
  then have "a \<noteq> []" "pub a = pub b" by (simp_all add: awaited_def split: if_splits)
  with that [OF j(1) j(2,3) [unfolded r]] show ?thesis by blast
qed

context zmq_net
begin

lemma on_sub_sock_good:
  assumes ok: "comm_ok pub ps h c (view w)" and ne: "inb (view w) Sub_sock \<noteq> []" and b: "beyond e = 0 # b"
  shows "\<exists>c' w'. on_sub_sock e c w = Go c' w' \<and> good view pub ps h {Sub_sock} c w (Go c' w')"
proof -
  have "Sub_sock \<in> msg_socks" by (simp add: msg_socks_def)
  from inboxes_wire [OF comm_okD(2) [OF ok] ne this] obtain i d qs where
    d: "inb (view w) Sub_sock = le32 i # d # qs" "length d < 2 ^ 31" "published pub (view w) d" "inboxes pub (rest Sub_sock qs (view w))"
    by (metis msg_ok_def snd_conv)
  have quiet: "good view pub ps h {Sub_sock} c w (Go c w')" if "view w' = post s xs (rest Sub_sock qs (view w))" "s \<notin> push_socks" for w' s xs
  proof -
    have "inboxes pub (view w')" using d(4) by (rule inboxes_same) (simp_all add: that(1) mail_defs)
    then show ?thesis using comm_okD(3) [OF ok] d(1) that
      by (intro good_mild [where view = view, OF ok]) (auto simp: mild_def grows_def mail_defs reads_def sock_defs)
  qed
  show ?thesis
  proof (cases "take 9 d = COMM_HANDLER_PUB_INIT")
    case False
    with no_greeting b have "take 9 (d @ beyond e) \<noteq> COMM_HANDLER_PUB_INIT" by simp
    from on_sub_sock_data [OF d(1,2) this, of c] quiet show ?thesis by (auto simp: sock_defs)
  next
    case True
    with d(3) obtain p a where p: "d = pub_greeting p" "comm_id p = pub a" "(Sub_sock, a) \<in> set (conns (view w))"
      by (auto simp: published_def)
    note res = on_sub_sock_greeting_any [OF d(1,2) [unfolded p(1)], of c]
    show ?thesis
    proof (cases "publishermap c (pub a) = None")
      case False
      with res p(2) quiet [of _ Router_sock] show ?thesis by (auto simp: sock_defs)
    next
      case new: True
      let ?c = "unlock (c\<lparr>publishermap := (publishermap c)(pub a \<mapsto> True)\<rparr>)"
      from res new p(2) obtain xs w' where w': "on_sub_sock e c w = Go ?c w'"
        "view w' = post Router_sock xs (rest Sub_sock qs (view w))" by auto
      from new_publisher [OF ok p(3) new] obtain j a' gs where j: "h = Some j" "ps j = Waiting (Subscribe a' gs)"
        "made pub c (view w) (Subscribe a' gs)" "a' \<noteq> []" "pub a' = pub a" .
      have g: "grows c (view w) ?c (view w')" by (auto simp: grows_def w'(2) mail_defs)
      have "inboxes pub (view w')" using d(4) by (rule inboxes_same) (simp_all add: w'(2) mail_defs)
      moreover have "idle (view w')" using j(3) by (auto intro!: idle_cong [of "view w"] simp: w'(2) mail_defs sock_defs)
      moreover have "known pub c (view w) {pub a}" using j(3-5) by (simp add: awaited_def)
      then have "known pub ?c (view w') {}" by (rule known_conns) (auto simp: w'(2) mail_defs)
      ultimately have "kept pub ps h c ?c (view w')" unfolding j(1) using comm_okD(3) [OF ok] j(3-5) new
        by (intro kept_released [OF ok [unfolded j(1)] j(2) g]) (auto simp: w'(2) mail_defs stuck_def j(2))
      with g d(1) have "good view pub ps h {Sub_sock} c w (Go ?c w')" by (auto simp: good_def reads_def w'(2) mail_defs sock_defs)
      with w'(1) show ?thesis by blast
    qed
  qed
qed

lemma handler_good:
  assumes ok: "comm_ok pub ps h c (view w)" and ne: "inb (view w) s \<noteq> []" and b: "beyond e = 0 # b"
    and f: "(s, f) \<in> set (handlers e)" "f c w = Some t"
  shows "good view pub ps h {s} c w t"
proof -
  have "good view pub ps h {Shutdown_sock} c w (on_shutdown e c w)" using ok by (auto simp: good_def on_shutdown_def kept_def)
  moreover have "good view pub ps h {s} c w t'" if "s = Conn_sock" "on_conn e c w = Some t'" for t'
    using on_conn_good [OF ok _ b that(2)] ne that(1) by auto
  moreover have "good view pub ps h {s} c w t'" if "s = Subpull" "on_subpull e c w = Some t'" for t'
    using on_subpull_good [OF ok _ b] ne that by auto
  moreover have "good view pub ps h {s} c w (on_sub_sock e c w)" if "s = Sub_sock"
    using on_sub_sock_good [OF ok _ b] ne that by auto
  moreover have "good view pub ps h {s} c w (on_pubstart e c w)" if "s = Pubstart_pull"
    using on_pubstart_good [OF ok _ b] ne that by auto
  ultimately show ?thesis
    using f ok ne by (auto simp: handlers_def intro: on_msgq_good on_router_good on_monitor_good on_pub_sendpull_good)
qed

lemma run_handlers_good:
  assumes "run_handlers f hs c w = Some t" "comm_ok pub ps h c (view w)" "distinct (map fst hs)"
    and "\<forall>s \<in> fst ` set hs. f s \<longrightarrow> inb (view w) s \<noteq> []" "set hs \<subseteq> set (handlers e)" "beyond e = 0 # b"
  shows "good view pub ps h {s \<in> fst ` set hs. f s} c w t"
  using assms
proof (induction f hs c w arbitrary: h rule: run_handlers.induct)
  case (1 f c w)
  then show ?case by (auto simp: good_def kept_def reads_def)
next
  case (2 f s g hs c w)
  show ?case
  proof (cases "f s")
    case False
    then have "good view pub ps h {s \<in> fst ` set hs. f s} c w t" using 2 by simp
    moreover have "{z \<in> fst ` set ((s, g) # hs). f z} = {s \<in> fst ` set hs. f s}" using False by auto
    ultimately show ?thesis by (simp only:)
  next
    case True
    then obtain u where u: "g c w = Some u" using 2(3) by (auto split: option.splits)
    have gu: "good view pub ps h {s} c w u" using handler_good [where s = s and f = g and t = u] 2(4,6-8) u True by simp
    show ?thesis
    proof (cases u)
      case (Go c1 w1)
      have t: "run_handlers f hs c1 w1 = Some t" using 2(3) True u Go by simp
      have i1: "z \<noteq> s \<Longrightarrow> inb (view w1) z = inb (view w) z" for z using gu unfolding good_def Go turn.case reads_def by (metis singletonD)
      have "\<forall>z \<in> fst ` set hs. f z \<longrightarrow> inb (view w1) z \<noteq> []"
      proof
        fix z assume z: "z \<in> fst ` set hs"
        with 2(5) have "z \<noteq> s" by auto
        then show "f z \<longrightarrow> inb (view w1) z \<noteq> []" using 2(6) i1 z by auto
      qed
      then have "good view pub ps h1 {z \<in> fst ` set hs. f z} c1 w1 t" if "comm_ok pub ps h1 c1 (view w1)" for h1
        using 2(1) [OF True u Go t that] 2(5,7,8) by simp
      with good_after [OF gu [unfolded Go], of "{z \<in> fst ` set hs. f z}"] 2(5)
      have "good view pub ps h (insert s {z \<in> fst ` set hs. f z}) c w t" by simp
      moreover have "insert s {z \<in> fst ` set hs. f z} = {z \<in> fst ` set ((s, g) # hs). f z}" using True by auto
      ultimately show ?thesis by (simp only:)
    next
      case (Stop c1 w1)
      with 2(3) True u gu show ?thesis by (auto simp: good_def)
    next
      case (Crash x)
      with 2(3) True u show ?thesis by (auto simp: good_def)
    qed
  qed
qed

lemma round_good:
  assumes "handler_round e f c w = Some t" "comm_ok pub ps h c (view w)" "polled e (view w) f" "beyond e = 0 # b"
  shows "good view pub ps h (case f of None \<Rightarrow> {} | Some f \<Rightarrow> {s \<in> fst ` set (handlers e). f s}) c w t"
proof (cases f)
  case None
  moreover have "good view pub ps h {} c w (Stop (failed c) w)"
    using comm_okD(2) [OF assms(2)] by (intro good_fail [where view = view, OF assms(2)]) (simp_all add: mild_def)
  ultimately show ?thesis using assms(1) by (auto simp: handler_round_def)
next
  case (Some f')
  have "distinct (map fst (handlers e))" by (simp add: handlers_def)
  with run_handlers_good [OF _ assms(2) _ _ _ assms(4), of f' "handlers e" t] assms(1,3) Some show ?thesis
    by (simp add: handler_round_def polled_def)
qed

end

end
