(* ===== verification/Comm_Calls.thy ===== *)
theory Comm_Calls
  imports Comm_Threads
begin

text \<open>
  All interleavings of calls of \<open>connect_to\<close>, \<open>subscribe_to\<close> and \<open>init_pub\<close> of one ZeroMQ handler with the rounds of its communication thread
  (\<open>src/comm_zmq/src/comm_handler.cpp\<close>), over the steps of \<open>Comm_Threads\<close>. Theorems: a call returns 0 only after its own
  request was served, and calls end unless a subscription waits for a greeting; a subscription to a publisher that is already known blocks
  all calls. Both hold while no answer of a subscriber comes in, and an answer does release a blocked call. A handler whose communication thread is gone while
  the mutex is locked stays as it is.
\<close>

section \<open>Every interleaving\<close>

lemma turn_pc:
  assumes "comm_ok pub ps h c m" "\<And>r. ps j = Waiting r \<Longrightarrow> \<not> sync_mtx c"
  shows "h \<noteq> Some j" "served pub c m (ps j)"
proof -
  show "h \<noteq> Some j" using assms comm_okD(1) [of pub ps h c m] by auto
  then show "served pub c m (ps j)" using comm_okD(1) [OF assms(1)] by (cases h) auto
qed

lemma pc_change:
  assumes ok: "comm_ok pub ps h c m" and s: "\<And>r. ps j = Waiting r \<Longrightarrow> \<not> sync_mtx c" and p: "served pub c m p"
  shows "comm_ok pub (ps(j := p)) h c m"
proof -
  have j: "h \<noteq> Some j" by (rule turn_pc(1) [OF ok s])
  then show ?thesis using comm_okD [OF ok] p unfolding comm_ok_def by (cases h) auto
qed

lemma request_turn:
  assumes ok: "comm_ok pub ps h c m" and j: "ps j = Enter r" and free: "\<not> sync_mtx c"
    and m: "m' = post (req_push r) (req_parts r) m"
  shows "comm_ok pub (ps(j := Waiting r)) (Some j) (c\<lparr>sync_mtx := True\<rparr>) m'" "h = None"
proof -
  let ?c = "c\<lparr>sync_mtx := True\<rparr>"
  show h: "h = None" using comm_okD(1) [OF ok] free by (cases h) auto
  with comm_okD(1) [OF ok] have t: "idle m" "known pub c m {}" "\<And>k. served pub c m (ps k)" by auto
  have g: "grows c m ?c m'" by (simp add: grows_def m post_def)
  have "on_way m' r" using t(1) by (auto simp: on_way_def idle_def m post_def)
  moreover have "known pub ?c m' {}" using t(2) by (simp add: known_def m post_def)
  moreover have "req_ok r" using t(3) [of j] j by simp
  moreover have "inboxes pub m'" using comm_okD(2) [OF ok] by (rule inboxes_same) (simp_all add: m post_def)
  ultimately show "comm_ok pub (ps(j := Waiting r)) (Some j) ?c m'"
    using t(3) served_mono [OF _ g] comm_okD(3) [OF ok] by (simp add: comm_ok_def)
qed

lemma carried_ok:
  assumes ok: "comm_ok pub ps h c m" and ne: "outb m (req_push r) \<noteq> []"
  shows "comm_ok pub ps h c (carried r m)"
proof -
  have g: "grows c m c (carried r m)" by (simp add: grows_def carried_def)
  have "\<not> idle m" using ne by (auto simp: idle_def)
  then obtain j where j: "h = Some j" using comm_okD(1) [OF ok] by (cases h) auto
  with comm_okD(1) [OF ok] obtain r' where r': "ps j = Waiting r'" "req_ok r'" "on_way m r' \<and> known pub c m {} \<or> made pub c m r'"
    and k: "sync_mtx c" "\<And>k. k \<noteq> j \<Longrightarrow> served pub c m (ps k)"
    by auto
  have "\<not> made pub c m r'" using \<open>\<not> idle m\<close> by (cases r') auto
  with r' have w: "on_way m r'" "known pub c m {}" by auto
  have "req_push r = req_push r'" using w(1) ne unfolding on_way_def by (metis DiffI req_sock(1) singletonD)
  then have q: "req_push r = req_push r'" "req_pull r = req_pull r'" by (cases r; cases r'; simp)+
  then have "on_way (carried r m) r'" using w(1) ne by (auto simp: on_way_def carried_def)
  moreover have "known pub c (carried r m) {}" using w(2) by (simp add: known_def carried_def)
  moreover have "req_pull r \<notin> insert Monitor_sock msg_socks" by (cases r) (auto simp: msg_socks_def)
  then have "\<And>s. s \<in> insert Monitor_sock msg_socks \<Longrightarrow> inb (carried r m) s = inb m s" by (auto simp: carried_def)
  then have "inboxes pub (carried r m)" by (intro inboxesI [OF disjI1 _ _ comm_okD(2) [OF ok]]) (simp_all add: carried_def)
  ultimately show ?thesis
    using r'(1,2) k served_mono [OF _ g] comm_okD(3) [OF ok] by (simp add: comm_ok_def j)
qed

lemma arrived_ok:
  assumes ok: "comm_ok pub ps h c m" and x: "incoming pub False m z qs"
  shows "comm_ok pub ps h c (arrived z qs m)"
proof -
  have z: "z \<in> msg_socks \<union> {Monitor_sock, Shutdown_sock}" using x by (auto simp: incoming_def)
  then have "mild c m c (arrived z qs m)" by (auto simp: mild_def grows_def arrived_def msg_socks_def sock_defs)
  then have "turns pub ps h c (arrived z qs m)" using comm_okD(1) [OF ok] mild_turns by blast
  moreover have "inboxes pub (arrived z qs m)" unfolding inboxes_def
  proof (intro conjI ballI)
    fix s assume s: "s \<in> msg_socks"
    obtain ms where ms: "inb m s = wire ms" "\<forall>x \<in> set ms. msg_ok pub m s x" using comm_okD(2) [OF ok] s unfolding inboxes_def by blast
    have c: "msg_ok pub (arrived z qs m) s y = msg_ok pub m s y" for y by (simp add: msg_ok_def published_def arrived_def)
    show "\<exists>ms. inb (arrived z qs m) s = wire ms \<and> (\<forall>y \<in> set ms. msg_ok pub (arrived z qs m) s y)"
    proof (cases "z = s")
      case True
      with x s obtain i d where "qs = wire [(i, d)]" "msg_ok pub m s (i, d)" by (auto simp: incoming_def msg_socks_def)
      with True ms show ?thesis unfolding c by (intro exI [of _ "ms @ [(i, d)]"]) (auto simp: arrived_def wire_append)
    next
      case False
      with ms show ?thesis unfolding c by (intro exI [of _ ms]) (simp add: arrived_def)
    qed
  next
    fix d assume "d \<in> set (inb (arrived z qs m) Monitor_sock)"
    then show "length d < 2 ^ 31" using comm_okD(2) [OF ok] x
      by (auto simp: arrived_def inboxes_def incoming_def msg_socks_def split: if_splits)
  qed
  ultimately show ?thesis using comm_okD(3) [OF ok] by (simp add: comm_ok_def)
qed

text \<open>A move keeps the invariant, and it does not end a turn that is stuck.\<close>

definition leads :: "('w \<Rightarrow> mail) \<Rightarrow> (text_t \<Rightarrow> cliid_t) \<Rightarrow> nat option \<Rightarrow> 'w comm_sys \<Rightarrow> 'w comm_sys \<Rightarrow> bool" where
  "leads view pub h s t \<longleftrightarrow> (\<exists>h'. comm_inv view pub h' t \<and>
     (stuck pub (pcs s) h (obj s) \<longrightarrow> h' = h \<and> stuck pub (pcs t) h (obj t) \<and> pcs t (the h) = pcs s (the h)))"

lemma leads_pc:
  assumes "comm_inv view pub h s" "\<And>r. pcs s j = Waiting r \<Longrightarrow> \<not> sync_mtx (obj s)" "served pub (obj s) (view (world s)) p"
  shows "leads view pub h s (set_pc j p s)"
proof -
  have ok: "comm_ok pub (pcs s) h (obj s) (view (world s))" using assms(1) by (simp add: comm_inv_def)
  have "h \<noteq> Some j" by (rule turn_pc(1) [OF ok assms(2)])
  moreover have "comm_ok pub ((pcs s)(j := p)) h (obj s) (view (world s))" by (rule pc_change [OF ok assms(2,3)])
  ultimately show ?thesis using assms(1) unfolding leads_def comm_inv_def by (intro exI [of _ h]) (auto simp: stuck_def)
qed

lemma leads_turn:
  assumes k: "kept pub (pcs s) h (obj s) c (view w)" and g: "grows (obj s) (view (world s)) c (view w)" and a: "x \<Longrightarrow> errcode c = 0"
  shows "leads view pub h s (s\<lparr>obj := c, world := w, alive := x\<rparr>)"
proof -
  from k obtain h' where "comm_ok pub (pcs s) h' c (view w)" "h' = h \<or> h' = None \<and> \<not> stuck pub (pcs s) h (obj s)"
    unfolding kept_def by blast
  then show ?thesis using a stuck_mono [OF _ g] unfolding leads_def by (intro exI [of _ h']) (auto simp: comm_inv_def)
qed

context zmq_net
begin

lemma request_result:
  assumes "req_ok r"
  shows "if sync_mtx c then req_call e r c w = Blocked
    else \<exists>w'. req_call e r c w = Wait (c\<lparr>sync_mtx := True\<rparr>) w' \<and> view w' = post (req_push r) (req_parts r) (view w)"
proof (cases r)
  case (Connect i a)
  then show ?thesis using assms net_send_cid [of Connpush "IDE2I i" a w] by (auto simp: connect_to_request_def Let_def addr_ok_def)
next
  case (Subscribe a gs)
  then show ?thesis using net_send_msg [of Subpush "sub_text a gs" w] by (auto simp: subscribe_to_request_def Let_def sub_text_def)
next
  case (Bind a)
  then show ?thesis using assms net_send_msg [of Pubstart_push a w] by (auto simp: init_pub_bind_def Let_def addr_ok_def)
qed

lemma step_leads:
  assumes "call_step e view s t" "comm_inv view pub h s" "beyond e = 0 # b"
  shows "leads view pub h s t"
  using assms
proof (induction rule: call_step.induct)
  case (lock s j r c w)
  then have ok: "comm_ok pub (pcs s) h (obj s) (view (world s))" by (simp add: comm_inv_def)
  have "req_ok r" using turn_pc(2) [OF ok, of j] lock(1) by simp
  from request_result [OF this, of "obj s" "world s"] lock(2) have q: "\<not> sync_mtx (obj s)" "c = (obj s)\<lparr>sync_mtx := True\<rparr>"
    "view w = post (req_push r) (req_parts r) (view (world s))" by (auto split: if_splits)
  from request_turn [OF ok lock(1) q(1,3)] lock(3) show ?case
    unfolding leads_def q(2) by (intro exI [of _ "Some j"]) (auto simp: comm_inv_def stuck_def)
next
  case (unsent s j r k c w)
  then have ok: "comm_ok pub (pcs s) h (obj s) (view (world s))" by (simp add: comm_inv_def)
  have "req_ok r" using turn_pc(2) [OF ok, of j] unsent(1) by simp
  from request_result [OF this, of "obj s" "world s"] unsent(2) show ?case by (auto split: if_splits)
next
  case (wake s j r)
  then have ok: "comm_ok pub (pcs s) h (obj s) (view (world s))" by (simp add: comm_inv_def)
  have "served pub (obj s) (view (world s)) (Woken r)" using turn_pc(2) [OF ok, of j] wake(1,2) by simp
  then show ?case using wake by (intro leads_pc) auto
next
  case (leave s j r)
  then have ok: "comm_ok pub (pcs s) h (obj s) (view (world s))" by (simp add: comm_inv_def)
  have "served pub (obj s) (view (world s)) (call_leave r (obj s))" using turn_pc(2) [OF ok, of j] leave(1) by (cases r) auto
  then show ?case using leave by (intro leads_pc) auto
next
  case (round s f c w)
  then have z: "errcode (obj s) = 0" "comm_ok pub (pcs s) h (obj s) (view (world s))" by (auto simp: comm_inv_def)
  have "s\<lparr>obj := c, world := w, alive := True\<rparr> = s\<lparr>obj := c, world := w\<rparr>" using round(1) by (cases s) simp
  with round_good [OF round(3) z(2) round(2,5)] same_errcode.handler_round_R [OF round(3)] z(1) leads_turn [where view = view, of pub s h c w True]
  show ?case by (simp add: good_def)
next
  case (stop s f c w)
  then have "comm_ok pub (pcs s) h (obj s) (view (world s))" by (auto simp: comm_inv_def)
  from round_good [OF stop(3) this stop(2,5)] leads_turn [where view = view, of pub s h c w False] show ?case by (simp add: good_def)
next
  case (spin s f)
  then show ?case unfolding leads_def by (intro exI [of _ h]) (auto simp: comm_inv_def)
next
  case (carry s r w)
  then show ?case using carried_ok unfolding leads_def by (intro exI [of _ h]) (auto simp: comm_inv_def)
qed

lemma move_leads:
  assumes "comm_move e view pub False n s t" "comm_inv view pub h s" "beyond e = 0 # b"
  shows "leads view pub h s t"
  using assms
proof (induction rule: comm_move.induct)
  case (step s t)
  then show ?case using step_leads by blast
next
  case (call j s r' k r sock_ok)
  have "served pub (obj s) (view (world s)) (call_enter sock_ok r (obj s))" using call(3) by (cases r) auto
  then show ?case using call by (intro leads_pc) auto
next
  case (arrive s z ps w)
  then show ?case using arrived_ok unfolding leads_def by (intro exI [of _ h]) (auto simp: comm_inv_def)
qed

lemma reach_inv:
  assumes "comm_reach e view pub False n s" "beyond e = 0 # b"
  shows "\<exists>h. comm_inv view pub h s"
proof -
  from assms(1) obtain s0 where s0: "comm_ready view s0" "(comm_move e view pub False n)\<^sup>*\<^sup>* s0 s" unfolding comm_reach_def by blast
  have "comm_inv view pub None s0" using s0(1)
    by (auto simp: comm_ready_def comm_inv_def comm_ok_def idle_def known_def inboxes_def intro: exI [of _ "[]"])
  with s0(2) show ?thesis
  proof (induction rule: rtranclp_induct)
    case (step s t)
    then show ?case using move_leads [OF step(2) _ assms(2)] unfolding leads_def by blast
  qed blast
qed

lemma stuck_for_ever:
  assumes "(comm_move e view pub False n)\<^sup>*\<^sup>* s t" "comm_inv view pub h s" "stuck pub (pcs s) h (obj s)" "beyond e = 0 # b"
  shows "comm_inv view pub h t \<and> stuck pub (pcs t) h (obj t) \<and> pcs t (the h) = pcs s (the h)"
  using assms
proof (induction rule: rtranclp_induct)
  case (step t u)
  then have t: "comm_inv view pub h t" "stuck pub (pcs t) h (obj t)" "pcs t (the h) = pcs s (the h)" by blast+
  with move_leads [OF step(2) t(1) assms(4)] show ?case unfolding leads_def by auto
qed blast

end

section \<open>All calls end\<close>

text \<open>The steps left: of the callers, of requests on their way, and of messages not yet handled.\<close>

fun pc_left :: "call_pc \<Rightarrow> nat" where
  "pc_left (Enter r) = 7"
| "pc_left (Waiting r) = 2"
| "pc_left (Woken r) = 1"
| "pc_left _ = 0"

definition polled_parts :: "'w env \<Rightarrow> mail \<Rightarrow> nat" where
  "polled_parts e m = (\<Sum>z \<in> fst ` set (handlers e). length (inb m z))"

definition sent_parts :: "mail \<Rightarrow> nat" where
  "sent_parts m = (\<Sum>z \<in> push_socks. length (outb m z))"

definition steps_left :: "'w env \<Rightarrow> ('w \<Rightarrow> mail) \<Rightarrow> nat \<Rightarrow> 'w comm_sys \<Rightarrow> nat" where
  "steps_left e view n s = (\<Sum>j<n. pc_left (pcs s j)) + 2 * sent_parts (view (world s)) + polled_parts e (view (world s))"

definition in_calls :: "nat \<Rightarrow> 'w comm_sys \<Rightarrow> bool" where
  "in_calls n s \<longleftrightarrow> (\<forall>j. pc_left (pcs s j) \<noteq> 0 \<longrightarrow> j < n)"

lemma pc_left_leave [simp]: "pc_left (call_leave r c) = 0"
  by (cases r) auto

lemma step_in_calls: "call_step e view s t \<Longrightarrow> in_calls n s \<Longrightarrow> in_calls n t"
  by (induction rule: call_step.induct) (auto simp: in_calls_def)

lemma reach_in_calls:
  assumes "comm_reach e view pub answers n s"
  shows "in_calls n s"
proof -
  from assms obtain s0 where s0: "comm_ready view s0" "(comm_move e view pub answers n)\<^sup>*\<^sup>* s0 s" unfolding comm_reach_def by blast
  from s0(2) show ?thesis
  proof (induction rule: rtranclp_induct)
    case base
    then show ?case using s0(1) by (simp add: comm_ready_def in_calls_def)
  next
    case (step s t)
    from step(2,3) show ?case by (cases rule: comm_move.cases) (auto simp: in_calls_def dest: step_in_calls [of _ _ _ _ n])
  qed
qed

lemma pc_left_set: "j < n \<Longrightarrow> (\<Sum>k<n. pc_left (((pcs s)(j := p)) k)) + pc_left (pcs s j) = (\<Sum>k<n. pc_left (pcs s k)) + pc_left p"
  by (rule sum_table_update)

lemma polled_parts_less:
  assumes "reads zs m m'" and "z \<in> zs" "z \<in> fst ` set (handlers e)"
  shows "polled_parts e m' < polled_parts e m"
  unfolding polled_parts_def
proof (rule sum_strict_mono_ex1)
  show "\<forall>u \<in> fst ` set (handlers e). length (inb m' u) \<le> length (inb m u)"
    using assms(1) unfolding reads_def by (metis less_imp_le_nat order_refl)
  show "\<exists>u \<in> fst ` set (handlers e). length (inb m' u) < length (inb m u)" using assms unfolding reads_def by metis
qed simp

lemma parts_carried:
  "polled_parts e (carried r m) = polled_parts e m + length (outb m (req_push r))"
  "sent_parts (carried r m) + length (outb m (req_push r)) = sent_parts m"
  by (cases r; simp add: polled_parts_def sent_parts_def carried_def handlers_def sock_defs)+

lemma parts_post:
  "polled_parts e (post (req_push r) (req_parts r) m) = polled_parts e m"
  "sent_parts (post (req_push r) (req_parts r) m) \<le> sent_parts m + 2"
  by (cases r; simp add: polled_parts_def sent_parts_def post_def sock_defs)+

context zmq_net
begin

lemma step_left:
  assumes "call_step e view s t" "comm_inv view pub h s" "in_calls n s" "beyond e = 0 # b"
  shows "alive s \<and> \<not> alive t \<or> alive s = alive t \<and> steps_left e view n t < steps_left e view n s"
  using assms
proof (induction rule: call_step.induct)
  case (lock s j r c w)
  then have "j < n" "comm_ok pub (pcs s) h (obj s) (view (world s))" by (simp_all add: in_calls_def comm_inv_def)
  then have "req_ok r" using turn_pc(2) [of pub "pcs s" h "obj s" _ j] lock(1) by simp
  from request_result [OF this, of "obj s" "world s"] lock(2)
  have "view w = post (req_push r) (req_parts r) (view (world s))" by (auto split: if_splits)
  with parts_post(1) [of e r "view (world s)"] parts_post(2) [of r "view (world s)"] pc_left_set [OF \<open>j < n\<close>, of s "Waiting r"] lock(1) show ?case
    by (simp add: steps_left_def)
next
  case (unsent s j r k c w)
  then have "comm_ok pub (pcs s) h (obj s) (view (world s))" by (simp add: comm_inv_def)
  then have "req_ok r" using turn_pc(2) [of pub "pcs s" h "obj s" _ j] unsent(1) by simp
  from request_result [OF this, of "obj s" "world s"] unsent(2) show ?case by (auto split: if_splits)
next
  case (wake s j r)
  then have "j < n" by (simp add: in_calls_def)
  from pc_left_set [OF this, of s "Woken r"] wake(1) show ?case by (simp add: steps_left_def)
next
  case (leave s j r)
  then have "j < n" by (simp add: in_calls_def)
  from pc_left_set [OF this, of s "call_leave r (obj s)"] leave(1) show ?case by (simp add: steps_left_def)
next
  case (round s f c w)
  then have ok: "comm_ok pub (pcs s) h (obj s) (view (world s))" by (auto simp: comm_inv_def)
  show ?case
  proof (cases f)
    case None
    then show ?thesis using round(3) by (simp add: handler_round_def)
  next
    case (Some f')
    then obtain z where z: "z \<in> fst ` set (handlers e)" "f' z" using round(2) by (auto simp: polled_def)
    from round_good [OF round(3) ok round(2,6)] Some
    have g: "reads {s \<in> fst ` set (handlers e). f' s} (view (world s)) (view w)" by (simp add: good_def)
    then have "sent_parts (view w) = sent_parts (view (world s))" by (simp add: sent_parts_def reads_def)
    with polled_parts_less [OF g, of z e] z show ?thesis by (simp add: steps_left_def)
  qed
next
  case (stop s f c w)
  then show ?case by simp
next
  case (spin s f)
  then show ?case by simp
next
  case (carry s r w)
  then show ?case using parts_carried(1) [of e r "view (world s)"] parts_carried(2) [of r "view (world s)"]
    by (cases "outb (view (world s)) (req_push r)") (simp_all add: steps_left_def)
qed

end

text \<open>A round for one socket.\<close>

lemma round_single:
  assumes "(s, f) \<in> set (handlers e)" "f c w = Some (Go c' w')"
  shows "handler_round e (Some (\<lambda>z. z = s)) c w = Some (Go c' w')"
  using assms by (auto simp: handler_round_def handlers_def)

lemma round_spins:
  assumes "(s, f) \<in> set (handlers e)" "f c w = None"
  shows "handler_round e (Some (\<lambda>z. z = s)) c w = None"
  using assms by (auto simp: handler_round_def handlers_def)

lemma single_step:
  assumes "alive s" "inb (view (world s)) z \<noteq> []" "(z, f) \<in> set (handlers e)" "f (obj s) (world s) = Some (Go c w)"
  shows "call_step e view s (s\<lparr>obj := c, world := w\<rparr>)"
proof -
  have "polled e (view (world s)) (Some (\<lambda>x. x = z))" using assms(2,3) by (force simp: polled_def)
  from call_step.round [where view = view, OF assms(1) this round_single [OF assms(3,4)]] show ?thesis by blast
qed

lemma spin_step:
  assumes "alive s" "inb (view (world s)) z \<noteq> []" "(z, f) \<in> set (handlers e)" "f (obj s) (world s) = None"
  shows "call_step e view s (s\<lparr>alive := False\<rparr>)"
proof -
  have "polled e (view (world s)) (Some (\<lambda>x. x = z))" using assms(2,3) by (force simp: polled_def)
  from call_step.spin [where view = view, OF assms(1) this round_spins [OF assms(3,4)]] show ?thesis by blast
qed

text \<open>A call whose mutex was unlocked can return.\<close>

lemma woken_returns:
  assumes "pcs s j = Waiting r" "\<not> sync_mtx (obj s)" "errcode (obj s) = 0"
  shows "\<exists>t. (call_step e view)\<^sup>*\<^sup>* s t \<and> pcs t j = Returned r 0"
proof -
  let ?u = "set_pc j (Woken r) s"
  have "call_step e view s ?u" by (rule call_step.wake [OF assms(1,2)])
  moreover have "call_step e view ?u (set_pc j (call_leave r (obj ?u)) ?u)" by (rule call_step.leave) simp
  moreover have "call_leave r (obj ?u) = Returned r 0" using assms(3) by (cases r) simp_all
  ultimately show ?thesis by (intro exI [of _ "set_pc j (call_leave r (obj ?u)) ?u"]) (auto intro: converse_rtranclp_into_rtranclp)
qed

lemma released_returns:
  assumes "alive s" "inb (view (world s)) z \<noteq> []" "(z, f) \<in> set (handlers e)" "f (obj s) (world s) = Some (Go (unlock c) w)"
    and "pcs s j = Waiting r" "errcode c = 0"
  shows "\<exists>t. (call_step e view)\<^sup>*\<^sup>* s t \<and> pcs t j = Returned r 0"
proof -
  have "call_step e view s (s\<lparr>obj := unlock c, world := w\<rparr>)" by (rule single_step [where view = view, OF assms(1-4)])
  with woken_returns [of "s\<lparr>obj := unlock c, world := w\<rparr>" j r e view] assms(5,6) show ?thesis
    by (auto intro: converse_rtranclp_into_rtranclp)
qed

text \<open>No call gets past a locked mutex; without the communication thread it stays locked.\<close>

lemma locked_call: "sync_mtx c \<Longrightarrow> req_call e r c w = Blocked"
  by (cases r) (simp_all add: connect_to_request_def subscribe_to_request_def init_pub_bind_def)

lemma dead_handler_blocks:
  assumes "(comm_move e view pub answers n)\<^sup>*\<^sup>* s t" "\<not> alive s" "sync_mtx (obj s)"
  shows "\<not> alive t \<and> obj t = obj s \<and> (\<forall>j r. pcs s j = Waiting r \<longrightarrow> pcs t j = Waiting r)"
  using assms
proof (induction rule: rtranclp_induct)
  case (step t u)
  then have t: "\<not> alive t" "obj t = obj s" "\<forall>j r. pcs s j = Waiting r \<longrightarrow> pcs t j = Waiting r" by blast+
  have "\<not> alive u \<and> obj u = obj t \<and> (\<forall>j r. pcs t j = Waiting r \<longrightarrow> pcs u j = Waiting r)"
    using step(2)
  proof cases
    case step
    then show ?thesis using t(1,2) assms(3) by (cases rule: call_step.cases) (auto simp: locked_call)
  qed (use t(1) in auto)
  with t show ?case by auto
qed simp

context zmq_net
begin

lemma greeting_returns:
  assumes "inb (view (world s)) Sub_sock = le32 g # pub_greeting p # ps" "length (pub_greeting p) < 2 ^ 31"
    and "publishermap (obj s) (comm_id p) = None" "alive s" "errcode (obj s) = 0" "pcs s j = Waiting r"
  shows "\<exists>t. (call_step e view)\<^sup>*\<^sup>* s t \<and> pcs t j = Returned r 0"
proof -
  let ?c = "(obj s)\<lparr>publishermap := (publishermap (obj s))(comm_id p \<mapsto> True)\<rparr>"
  have h: "(Sub_sock, \<lambda>c w. Some (on_sub_sock e c w)) \<in> set (handlers e)" by (simp add: handlers_def)
  from on_sub_sock_greeting_any [OF assms(1,2), of "obj s"] assms(3) obtain w where "on_sub_sock e (obj s) (world s) = Go (unlock ?c) w"
    by auto
  with released_returns [where view = view, OF assms(4) _ h, of ?c w j r] assms(1,5,6) show ?thesis by simp
qed

lemma answer_returns:
  assumes "inb (view (world s)) Router_sock = le32 i # (COMM_HANDLER_SUB_INIT @ [0]) # ps"
    and "alive s" "errcode (obj s) = 0" "pcs s j = Waiting r"
  shows "\<exists>t. (call_step e view)\<^sup>*\<^sup>* s t \<and> pcs t j = Returned r 0"
proof -
  have h: "(Router_sock, \<lambda>c w. Some (on_router e c w)) \<in> set (handlers e)" by (simp add: handlers_def)
  from on_router_answer [OF assms(1), of "obj s"] obtain w where "on_router e (obj s) (world s) = Go (unlock (obj s)) w" by blast
  with released_returns [where view = view, OF assms(2) _ h, of "obj s" w j r] assms(1,3,4) show ?thesis by simp
qed

end

text \<open>ZeroMQ can carry what was sent.\<close>

locale inproc_net = zmq_net +
  assumes net_carry: "\<exists>w'. view w' = carried r (view w)"
begin

text \<open>Only a subscription that was made can keep a turn from going on, when there is no message from a publisher to read.\<close>

lemma turn_progress:
  assumes ok: "comm_ok pub (pcs s) (Some j) (obj s) (view (world s))" and "alive s" and b: "beyond e = 0 # b"
  shows "(\<exists>t. call_step e view s t) \<or>
    (\<exists>a gs. pcs s j = Waiting (Subscribe a gs) \<and> made pub (obj s) (view (world s)) (Subscribe a gs) \<and> inb (view (world s)) Sub_sock = [])"
proof -
  let ?m = "view (world s)"
  from comm_okD(1) [OF ok] obtain r where r: "pcs s j = Waiting r" "on_way ?m r \<or> made pub (obj s) ?m r" by auto
  have hs: "(Conn_sock, on_conn e) \<in> set (handlers e)" "(Subpull, on_subpull e) \<in> set (handlers e)"
    "(Pubstart_pull, \<lambda>c w. Some (on_pubstart e c w)) \<in> set (handlers e)" "(Sub_sock, \<lambda>c w. Some (on_sub_sock e c w)) \<in> set (handlers e)"
    by (simp_all add: handlers_def)
  consider (here) "inb ?m (req_pull r) \<noteq> []" | (sent) "outb ?m (req_push r) \<noteq> []" | (made) "made pub (obj s) ?m r"
    using r(2) unfolding on_way_def by (cases r) auto
  then show ?thesis
  proof cases
    case here
    show ?thesis
    proof (cases r)
      case (Connect i a)
      with here have i: "inb ?m Conn_sock \<noteq> []" by simp
      show ?thesis
      proof (cases "on_conn e (obj s) (world s)")
        case None
        with spin_step [where view = view, OF \<open>alive s\<close> i hs(1)] show ?thesis by blast
      next
        case (Some t)
        with on_conn_good [OF ok i b] single_step [where view = view, OF \<open>alive s\<close> i hs(1)] show ?thesis by blast
      qed
    next
      case (Subscribe a gs)
      then show ?thesis using on_subpull_good [OF ok _ b] single_step [where view = view, OF \<open>alive s\<close> _ hs(2)] here by fastforce
    next
      case (Bind a)
      then show ?thesis using on_pubstart_good [OF ok _ b] single_step [where view = view, OF \<open>alive s\<close> _ hs(3)] here by fastforce
    qed
  next
    case sent
    obtain w where "view w = carried r ?m" using net_carry by blast
    from call_step.carry [of view s, OF sent this] show ?thesis by blast
  next
    case made
    then obtain a gs where a: "r = Subscribe a gs" by (cases r) auto
    show ?thesis
    proof (cases "inb ?m Sub_sock = []")
      case True
      with made a r(1) show ?thesis by blast
    next
      case False
      with on_sub_sock_good [OF ok _ b] single_step [where view = view, OF \<open>alive s\<close> _ hs(4)] show ?thesis by fastforce
    qed
  qed
qed

lemma calls_progress:
  assumes inv: "comm_inv view pub h s" and "alive s" and b: "beyond e = 0 # b" and j: "pc_left (pcs s j) \<noteq> 0"
  shows "(\<exists>t. call_step e view s t) \<or>
    (\<exists>j a gs. pcs s j = Waiting (Subscribe a gs) \<and> sync_mtx (obj s) \<and> made pub (obj s) (view (world s)) (Subscribe a gs) \<and>
      inb (view (world s)) Sub_sock = [])"
proof -
  from inv have ok: "comm_ok pub (pcs s) h (obj s) (view (world s))" by (simp add: comm_inv_def)
  show ?thesis
  proof (cases h)
    case (Some k)
    with comm_okD(1) [OF ok] have "sync_mtx (obj s)" by simp
    with turn_progress [OF ok [unfolded Some] \<open>alive s\<close> b] show ?thesis by blast
  next
    case None
    with comm_okD(1) [OF ok] have t: "\<not> sync_mtx (obj s)" "served pub (obj s) (view (world s)) (pcs s j)" by auto
    show ?thesis
    proof (cases "pcs s j")
      case (Enter r)
      with t request_result [of r "obj s" "world s"] call_step.lock [of s j r] show ?thesis by fastforce
    next
      case (Waiting r)
      with call_step.wake [OF Waiting t(1)] show ?thesis by blast
    next
      case (Woken r)
      with call_step.leave [OF Woken] show ?thesis by blast
    qed (use j in auto)
  qed
qed

lemma calls_end:
  assumes "comm_inv view pub h s" "in_calls n s" "beyond e = 0 # b" "f 0 = s"
  shows "\<not> (\<forall>k. call_step e view (f k) (f (Suc k)))"
proof
  assume run: "\<forall>k. call_step e view (f k) (f (Suc k))"
  have ok: "(\<exists>h. comm_inv view pub h (f k)) \<and> in_calls n (f k)" for k
  proof (induction k)
    case 0
    then show ?case using assms(1,2,4) by auto
  next
    case (Suc k)
    then show ?case
      using step_leads [OF run [rule_format, of k] _ assms(3)] step_in_calls [OF run [rule_format, of k]] unfolding leads_def by blast
  qed
  let ?R = "measures [\<lambda>s. of_bool (alive s), steps_left e view n]"
  have "(f (Suc k), f k) \<in> ?R" for k
    using step_left [OF run [rule_format, of k] _ _ assms(3)] ok [of k] by fastforce
  moreover have "wf ?R" by simp
  ultimately show False unfolding wf_iff_no_infinite_down_chain by blast
qed

end

lemma mem_env_inproc: "inproc_net (mem_env b) (\<lambda>w. w)"
  by (intro inproc_net.intro mem_env_zmq inproc_net_axioms.intro) blast

interpretation mem_inproc: inproc_net "mem_env b" "\<lambda>w. w" for b
  by (rule mem_env_inproc)


lemma reach_move: "comm_reach e view pub answers n s \<Longrightarrow> comm_move e view pub answers n s t \<Longrightarrow> comm_reach e view pub answers n t"
  unfolding comm_reach_def by (meson rtranclp.rtrancl_into_rtrancl)

lemma reach_step: "comm_reach e view pub answers n s \<Longrightarrow> call_step e view s t \<Longrightarrow> comm_reach e view pub answers n t"
  by (rule reach_move [OF _ comm_move.step])

lemma reach_round:
  assumes "comm_reach e view pub answers n s" "alive s" "inb (view (world s)) z \<noteq> []" "(z, f) \<in> set (handlers e)"
    and "f (obj s) (world s) = Some (Go c w)"
  shows "comm_reach e view pub answers n (s\<lparr>obj := c, world := w\<rparr>)"
  by (rule reach_step [OF assms(1) single_step [where view = view, OF assms(2-5)]])

text \<open>A handler in memory whose publishers all have the id 2, and its first subscription.\<close>

definition demo_sys :: "comm_handler \<Rightarrow> mail \<Rightarrow> call_pc \<Rightarrow> mail comm_sys" where
  "demo_sys c m p = \<lparr>obj = c, world = m, alive = True, pcs = (\<lambda>_. Outside)(0 := p)\<rparr>"

abbreviation demo_reach :: "mail comm_sys \<Rightarrow> bool" where
  "demo_reach \<equiv> comm_reach (mem_env [0]) (\<lambda>w. w) (\<lambda>_. 2) False 2"

lemma demo_simps [simp]: "obj (demo_sys c m p) = c" "world (demo_sys c m p) = m" "alive (demo_sys c m p)" "pcs (demo_sys c m p) 0 = p"
  "set_pc 0 q (demo_sys c m p) = demo_sys c m q" "(demo_sys c m p)\<lparr>obj := c', world := m'\<rparr> = demo_sys c' m' p"
  "(demo_sys c m p)\<lparr>world := m'\<rparr> = demo_sys c m' p"
  by (simp_all add: demo_sys_def)

definition demo_addr :: text_t where
  "demo_addr = tcp_addr [49] [50]"

lemma demo_ok: "req_ok (Subscribe demo_addr [7])"
  by (simp add: demo_addr_def tcp_addr_def sub_text_def show_int_def show_nat.simps)

lemma demo_enter:
  assumes "errcode c = 0" "\<not> sync_mtx c" "clientmap c = Map.empty"
  shows "demo_reach (demo_sys c (mail0 Msgq []) (Enter (Subscribe demo_addr [7])))"
proof -
  have "comm_ready (\<lambda>w. w) (demo_sys c (mail0 Msgq []) Outside)"
    using assms by (auto simp: comm_ready_def demo_sys_def mail0_def fun_upd_idem)
  then have "demo_reach (demo_sys c (mail0 Msgq []) Outside)" unfolding comm_reach_def by blast
  from reach_move [OF this comm_move.call [where j = 0 and k = 0 and r = "Subscribe demo_addr [7]" and sock_ok = True]] demo_ok assms(1) show ?thesis by simp
qed

lemma demo_request:
  assumes "\<not> sync_mtx c"
  shows "subscribe_to_request (mem_env [0]) demo_addr [7] c m = Wait (c\<lparr>sync_mtx := True\<rparr>) (post Subpush [sub_text demo_addr [7]] m)"
  using mem.request_result [OF demo_ok, of c "[0]" m] assms by auto

lemma demo_call: "\<exists>s. demo_reach s \<and> pcs s 0 = Returned (Subscribe demo_addr [7]) 0"
proof -
  let ?r = "Subscribe demo_addr [7]" and ?c = "(comm0 1)\<lparr>sync_mtx := True\<rparr>" and ?e = "mem_env [0] :: mail env"
  let ?m1 = "post Subpush [sub_text demo_addr [7]] (mail0 Msgq [])"
  let ?c2 = "unlock (?c\<lparr>publishermap := (publishermap ?c)(2 \<mapsto> True)\<rparr>)"
  have b: "beyond ?e = 0 # []" by (simp add: mem_env_def)
  have "demo_reach (demo_sys (comm0 1) (mail0 Msgq []) (Enter ?r))" by (rule demo_enter) (simp_all add: comm0_def)
  from reach_step [OF this call_step.lock [of _ 0 ?r]] have "demo_reach (demo_sys ?c ?m1 (Waiting ?r))"
    using demo_request [of "comm0 1"] by (simp add: comm0_def)
  from reach_step [OF this call_step.carry [of _ _ ?r]] have r2: "demo_reach (demo_sys ?c (carried ?r ?m1) (Waiting ?r))"
    by (simp add: post_def)
  have i2: "inb (carried ?r ?m1) Subpull = sub_text demo_addr [7] # []" by (simp add: carried_def post_def mail0_def)
  have a: "0 \<notin> set demo_addr" "38 \<notin> set demo_addr" "length (sub_text demo_addr [7]) < 2 ^ 31" "demo_addr \<noteq> []"
    using demo_ok by (simp_all add: demo_addr_def tcp_addr_def)
  have "c_string ?e (Some (sub_text demo_addr [7])) = Some (sub_text demo_addr [7])"
    using while_until(1) [OF sub_text_no_zero [OF a(1), of "[7]"]] b by (simp add: c_string_def)
  from mem.on_subpull_text [OF i2 a(3) this a(2), of ?c] a(4) obtain m3 where
    m3: "on_subpull ?e ?c (carried ?r ?m1) = Some (Go ?c m3)" "(Sub_sock, demo_addr) \<in> set (conns m3)" "inb m3 Sub_sock = []"
    by (auto simp: carried_def post_def mail0_def rest_def)
  have h: "(Subpull, on_subpull ?e) \<in> set (handlers ?e)" "(Sub_sock, \<lambda>c w. Some (on_sub_sock ?e c w)) \<in> set (handlers ?e)"
    by (simp_all add: handlers_def)
  from reach_round [OF r2 _ _ h(1)] m3(1) i2 have r3: "demo_reach (demo_sys ?c m3 (Waiting ?r))" by simp
  have g: "length (pub_greeting (comm0 2)) < 2 ^ 31"
    by (simp add: pub_greeting_def COMM_HANDLER_PUB_INIT_def comm0_def show_int_def show_nat.simps)
  let ?m4 = "arrived Sub_sock [le32 7, pub_greeting (comm0 2)] m3"
  have "comm_id (comm0 2) = 2" by (simp add: comm0_def)
  with m3(2) g have "incoming (\<lambda>_. 2) False m3 Sub_sock [le32 7, pub_greeting (comm0 2)]"
    unfolding incoming_def msg_ok_def published_def msg_socks_def by force
  with reach_move [OF r3 comm_move.arrive [where s = "demo_sys ?c m3 (Waiting ?r)" and z = Sub_sock]] have r4: "demo_reach (demo_sys ?c ?m4 (Waiting ?r))"
    by simp
  have i4: "inb ?m4 Sub_sock = le32 7 # pub_greeting (comm0 2) # []" by (simp add: arrived_def m3(3))
  from mem.on_sub_sock_greeting [OF i4 g, of "[0]" ?c] obtain m5 where "on_sub_sock ?e ?c ?m4 = Go ?c2 m5" by (auto simp: comm0_def)
  with reach_round [OF r4 _ _ h(2)] i4 have "demo_reach (demo_sys ?c2 m5 (Waiting ?r))" by simp
  from reach_step [OF this call_step.wake [of _ 0 ?r]] have "demo_reach (demo_sys ?c2 m5 (Woken ?r))" by simp
  from reach_step [OF this call_step.leave [of _ 0 ?r]] have "demo_reach (demo_sys ?c2 m5 (Returned ?r 0))" by (simp add: comm0_def)
  then show ?thesis by (intro exI conjI, assumption) simp
qed


text \<open>
  C18. A subscription that adds no publisher blocks the handler until a subscriber happens to answer: when a call of \<open>subscribe_to\<close> without an address, or with the
  address of a publisher that is already known, has locked the mutex and sent its request, then the mutex is locked in every later state, whatever calls are made and whatever
  messages arrive, as long as none of them is the answer of a subscriber: the call does not return, and no other call gets the mutex. The only
  way out is such an answer: if the communication thread runs and one comes in, meant for \<open>init_pub\<close>, the call can return 0.
\<close>

theorem repeated_subscription_blocks:
  assumes "zmq_net e view" and "beyond e = 0 # b" and "comm_reach e view pub False n s" and "pcs s j = Enter (Subscribe a gs)"
    and "subscribe_to_request e a gs (obj s) (world s) = Wait c w" and "a = [] \<or> publishermap (obj s) (pub a) \<noteq> None"
    and "(comm_move e view pub False n)\<^sup>*\<^sup>* (set_pc j (Waiting (Subscribe a gs)) (s\<lparr>obj := c, world := w\<rparr>)) t"
  shows "sync_mtx (obj t) \<and> pcs t j = Waiting (Subscribe a gs) \<and> (\<forall>r. req_call e r (obj t) (world t) = Blocked) \<and>
    (\<forall>i v. alive t \<and> inb (view (world t)) Router_sock = [] \<and>
      view v = arrived Router_sock [le32 i, COMM_HANDLER_SUB_INIT @ [0]] (view (world t)) \<longrightarrow>
      comm_move e view pub True n t (t\<lparr>world := v\<rparr>) \<and>
      (\<exists>u. (call_step e view)\<^sup>*\<^sup>* (t\<lparr>world := v\<rparr>) u \<and> pcs u j = Returned (Subscribe a gs) 0))"
proof -
  let ?r = "Subscribe a gs" and ?t = "set_pc j (Waiting (Subscribe a gs)) (s\<lparr>obj := c, world := w\<rparr>)"
  from zmq_net.reach_inv [OF assms(1,3,2)] obtain h where inv: "comm_inv view pub h s" by blast
  then have ok: "comm_ok pub (pcs s) h (obj s) (view (world s))" by (simp add: comm_inv_def)
  have "req_ok ?r" using turn_pc(2) [OF ok, of j] assms(4) by simp
  from zmq_net.request_result [OF assms(1) this, of "obj s" "world s"] assms(5)
  have q: "\<not> sync_mtx (obj s)" "c = (obj s)\<lparr>sync_mtx := True\<rparr>" "view w = post (req_push ?r) (req_parts ?r) (view (world s))"
    by (auto split: if_splits)
  have "comm_inv view pub (Some j) ?t"
    using request_turn(1) [OF ok assms(4) q(1,3)] inv by (simp add: comm_inv_def q(2))
  moreover have "stuck pub (pcs ?t) (Some j) (obj ?t)" using assms(6) by (simp add: stuck_def q(2))
  ultimately have t: "comm_inv view pub (Some j) t" "pcs t j = Waiting ?r"
    using zmq_net.stuck_for_ever [OF assms(1,7) _ _ assms(2), of "Some j"] by simp_all
  then have l: "sync_mtx (obj t)" by (simp add: comm_inv_def comm_ok_def)
  have "comm_move e view pub True n t (t\<lparr>world := v\<rparr>) \<and>
      (\<exists>u. (call_step e view)\<^sup>*\<^sup>* (t\<lparr>world := v\<rparr>) u \<and> pcs u j = Returned ?r 0)"
    if v: "alive t" "inb (view (world t)) Router_sock = []"
      "view v = arrived Router_sock [le32 i, COMM_HANDLER_SUB_INIT @ [0]] (view (world t))" for i v
  proof
    show "comm_move e view pub True n t (t\<lparr>world := v\<rparr>)"
      by (rule comm_move.arrive [OF _ v(3)]) (simp add: incoming_def hello_def)
    show "\<exists>u. (call_step e view)\<^sup>*\<^sup>* (t\<lparr>world := v\<rparr>) u \<and> pcs u j = Returned ?r 0"
      using v t by (intro zmq_net.answer_returns [OF assms(1), where i = i and ps = "[]"]) (simp_all add: arrived_def comm_inv_def)
  qed
  then have "\<forall>i v. alive t \<and> inb (view (world t)) Router_sock = [] \<and>
      view v = arrived Router_sock [le32 i, COMM_HANDLER_SUB_INIT @ [0]] (view (world t)) \<longrightarrow>
      comm_move e view pub True n t (t\<lparr>world := v\<rparr>) \<and>
      (\<exists>u. (call_step e view)\<^sup>*\<^sup>* (t\<lparr>world := v\<rparr>) u \<and> pcs u j = Returned ?r 0)" by simp
  with t(2) l locked_call [OF l, of e _ "world t"] show ?thesis by simp
qed

theorem repeated_subscription_blocks_witness:
  "\<exists>s t. demo_reach s \<and> pcs s 0 = Enter (Subscribe demo_addr [7]) \<and>
     comm_move (mem_env [0]) (\<lambda>w. w) (\<lambda>_. 2) False 2 s t \<and> sync_mtx (obj t) \<and> pcs t 0 = Waiting (Subscribe demo_addr [7]) \<and>
     (\<exists>u. (call_step (mem_env [0]) (\<lambda>w. w))\<^sup>*\<^sup>* (t\<lparr>world := arrived Router_sock [le32 5, COMM_HANDLER_SUB_INIT @ [0]] (world t)\<rparr>) u \<and>
       pcs u 0 = Returned (Subscribe demo_addr [7]) 0)"
proof -
  let ?c = "(comm0 1)\<lparr>publishermap := [2 \<mapsto> True]\<rparr>" and ?r = "Subscribe demo_addr [7]"
  let ?s = "demo_sys ?c (mail0 Msgq []) (Enter ?r)"
  let ?m = "post Subpush [sub_text demo_addr [7]] (mail0 Msgq [])"
  let ?t = "set_pc 0 (Waiting ?r) (?s\<lparr>obj := ?c\<lparr>sync_mtx := True\<rparr>, world := ?m\<rparr>)"
  have b: "beyond (mem_env [0]) = 0 # []" by (simp add: mem_env_def)
  have s: "demo_reach ?s" by (rule demo_enter) (simp_all add: comm0_def)
  have q: "subscribe_to_request (mem_env [0]) demo_addr [7] (obj ?s) (world ?s) = Wait (?c\<lparr>sync_mtx := True\<rparr>) ?m"
    using demo_request [of ?c] by (simp add: comm0_def)
  have "comm_move (mem_env [0]) (\<lambda>w. w) (\<lambda>_. 2) False 2 ?s ?t"
    using q by (intro comm_move.step call_step.lock) simp_all
  moreover have "sync_mtx (obj ?t) \<and> pcs ?t 0 = Waiting ?r \<and>
      (\<exists>u. (call_step (mem_env [0]) (\<lambda>w. w))\<^sup>*\<^sup>* (?t\<lparr>world := arrived Router_sock [le32 5, COMM_HANDLER_SUB_INIT @ [0]] (world ?t)\<rparr>) u \<and>
        pcs u 0 = Returned ?r 0)"
  proof -
    have "inb (world ?t) Router_sock = []" "alive ?t" by (simp_all add: post_def mail0_def)
    with repeated_subscription_blocks [OF mem_env_zmq b s _ q, of 0 ?t] show ?thesis by simp
  qed
  ultimately show ?thesis using s by (intro exI [of _ ?s] exI [of _ ?t]) simp
qed

end
